(* ===== verification/Broker_Prelude.thy ===== *)
theory Broker_Prelude
  imports Main "HOL-Library.Word"
begin

unbundle bit_operations_syntax

text \<open>
  Shared vocabulary of the development: the integer widths of the C++ code, C strings and
  fixed buffers as byte lists, the "first slot that satisfies a test" scan that every pool of
  the broker uses, and in-place writes into a byte array (\<open>memcpy\<close>).

  Conventions used by all theories:
  \<^item> \<open>uint8_t\<close>, \<open>uint16_t\<close>, \<open>uint32_t\<close> are words of that width (arithmetic wraps);
    \<open>size_t\<close> is \<open>nat\<close>, with the casts to narrower types written out;
  \<^item> a C string is the list of its bytes before the terminating NUL; a fixed buffer that is
    read with its length is a byte list;
  \<^item> a pointer parameter that is only ever the address of an object is the object; where a null
    pointer is meaningful to the code it is an \<open>option\<close>.
\<close>

section \<open>Integer types\<close>

type_synonym u8 = "8 word"
type_synonym u16 = "16 word"
type_synonym u32 = "32 word"
type_synonym byte = u8

named_theorems width_simps
  \<comment> \<open>reading words of the fixed widths as natural numbers\<close>
named_theorems frame_simps
  \<comment> \<open>fields that an operation leaves alone\<close>

text \<open>The null index of the 16-bit slot, block and node numbers.\<close>

abbreviation nil16 :: u16 where
  "nil16 \<equiv> 0xFFFF"

lemma unat_u8_less [simp]: "unat (x :: u8) < 256"
  using unsigned_less [of x, where 'a = nat] by simp

lemma unat_u16_less [simp]: "unat (x :: u16) < 65536"
  using unsigned_less [of x, where 'a = nat] by simp

lemma unat_u32_less [simp]: "unat (x :: u32) < 4294967296"
  using unsigned_less [of x, where 'a = nat] by simp

lemma unat_of_nat_u8 [width_simps]: "unat (of_nat n :: u8) = n mod 256"
  by (simp add: unat_of_nat)

lemma unat_of_nat_u16 [width_simps]: "unat (of_nat n :: u16) = n mod 65536"
  by (simp add: unat_of_nat)

lemma unat_of_nat_u32 [width_simps]: "unat (of_nat n :: u32) = n mod 4294967296"
  by (simp add: unat_of_nat)

lemma unat_ucast_widen [width_simps]:
  "unat (ucast (b :: u8) :: u16) = unat b"
  "unat (ucast (b :: u8) :: u32) = unat b"
  "unat (ucast (h :: u16) :: u32) = unat h"
proof -
  have "unat b < 65536" "unat b < 4294967296" "unat h < 4294967296"
    using less_trans [OF unat_u8_less] less_trans [OF unat_u16_less] by simp_all
  then show "unat (ucast (b :: u8) :: u16) = unat b"
    "unat (ucast (b :: u8) :: u32) = unat b"
    "unat (ucast (h :: u16) :: u32) = unat h"
    by (simp_all add: unsigned_ucast_eq take_bit_eq_mod)
qed

lemma u16_eq_iff_unat: "(x :: u16) = y \<longleftrightarrow> unat x = unat y"
  by (simp add: word_unat_eq_iff)

lemma u16_eq_of_nat_iff: "n < 65536 \<Longrightarrow> (x :: u16) = of_nat n \<longleftrightarrow> unat x = n"
  by (auto simp: u16_eq_iff_unat unat_of_nat_u16)

lemma of_nat_u16_nil: "n < 65535 \<Longrightarrow> (of_nat n :: u16) \<noteq> nil16"
  by (auto simp: u16_eq_iff_unat unat_of_nat_u16)

lemma u16_nil_iff: "(x :: u16) = nil16 \<longleftrightarrow> unat x = 65535"
  by (simp add: u16_eq_iff_unat)

lemma unat_inc_u16:
  assumes "(x :: u16) \<noteq> nil16" shows "unat (x + 1) = unat x + 1"
proof -
  have "unat x < 65536" by simp
  moreover have "unat x \<noteq> 65535" using assms u16_nil_iff by blast
  ultimately have "unat x + 1 < 65536" by linarith
  then show ?thesis by (simp add: unat_word_ariths)
qed

lemma unat_dec_u16: "(x :: u16) \<noteq> 0 \<Longrightarrow> unat (x - 1) = unat x - 1"
  by (simp add: unat_minus_one)

section \<open>C strings and buffers\<close>

text \<open>What \<open>strlen\<close>/\<open>strcmp\<close> see of a buffer: the bytes before the first NUL.\<close>

definition cstr :: "byte list \<Rightarrow> byte list" where
  "cstr bs = takeWhile (\<lambda>b. b \<noteq> 0) bs"

definition no_nul :: "byte list \<Rightarrow> bool" where
  "no_nul bs \<longleftrightarrow> 0 \<notin> set bs"

lemma cstr_no_nul [simp]: "no_nul (cstr bs)"
  unfolding no_nul_def cstr_def by (blast dest: set_takeWhileD)

lemma cstr_id [simp]: "no_nul bs \<Longrightarrow> cstr bs = bs"
  unfolding no_nul_def cstr_def by (auto simp: takeWhile_eq_all_conv)

lemma cstr_append [simp]: "no_nul bs \<Longrightarrow> cstr (bs @ 0 # r) = bs"
  unfolding no_nul_def cstr_def by (induction bs) auto

lemma length_cstr_le: "length (cstr bs) \<le> length bs"
  unfolding cstr_def by (rule length_takeWhile_le)

text \<open>The bytes of an ASCII literal of the source.\<close>

definition ascii :: "string \<Rightarrow> byte list" where
  "ascii s = map of_char s"

text \<open>\<open>memcpy (xs + off, bs, length bs)\<close> on an array \<open>xs\<close>; the callers stay in range.\<close>

definition write_at :: "nat \<Rightarrow> 'a list \<Rightarrow> 'a list \<Rightarrow> 'a list" where
  "write_at off bs xs = take off xs @ bs @ drop (off + length bs) xs"

lemma length_write_at [simp]:
  "off + length bs \<le> length xs \<Longrightarrow> length (write_at off bs xs) = length xs"
  by (simp add: write_at_def)

text \<open>The slice \<open>[off, off + n)\<close> of an array.\<close>

definition slice :: "nat \<Rightarrow> nat \<Rightarrow> 'a list \<Rightarrow> 'a list" where
  "slice off n xs = take n (drop off xs)"

lemma length_slice: "off + n \<le> length xs \<Longrightarrow> length (slice off n xs) = n"
  by (simp add: slice_def)

lemma slice_append_slice: "slice off n xs @ slice (off + n) m xs = slice off (n + m) xs"
  by (simp add: slice_def take_add add.commute [of off])

lemma slice_0 [simp]: "slice off 0 xs = []"
  by (simp add: slice_def)

lemma slice_full: "slice 0 n xs = take n xs"
  by (simp add: slice_def)

lemma slice_write_at_same:
  "off + length bs \<le> length xs \<Longrightarrow> slice off (length bs) (write_at off bs xs) = bs"
  by (simp add: slice_def write_at_def)

lemma nth_write_at:
  assumes "off + length bs \<le> length xs" and "i < length xs"
  shows "write_at off bs xs ! i =
    (if off \<le> i \<and> i < off + length bs then bs ! (i - off) else xs ! i)"
  using assms by (auto simp: write_at_def nth_append min_def)

lemma slice_write_at_disjoint:
  assumes "off + length bs \<le> length xs" and "o2 + n \<le> length xs"
    and "o2 + n \<le> off \<or> off + length bs \<le> o2"
  shows "slice o2 n (write_at off bs xs) = slice o2 n xs"
  using assms by (intro nth_equalityI) (auto simp: slice_def nth_write_at)

section \<open>First free slot\<close>

text \<open>
  \<open>for (i = 0; i < n; ++i) if (P (xs[i])) return i;\<close>: every pool scans its table this way.
\<close>

primrec first_idx :: "('a \<Rightarrow> bool) \<Rightarrow> 'a list \<Rightarrow> nat option" where
  "first_idx P [] = None"
| "first_idx P (x # xs) = (if P x then Some 0 else map_option Suc (first_idx P xs))"

lemma first_idx_None_iff: "first_idx P xs = None \<longleftrightarrow> (\<forall>x \<in> set xs. \<not> P x)"
  by (induction xs) auto

lemma first_idx_SomeD:
  "first_idx P xs = Some i \<Longrightarrow> i < length xs \<and> P (xs ! i) \<and> (\<forall>j < i. \<not> P (xs ! j))"
proof (induction xs arbitrary: i)
  case Nil
  then show ?case by simp
next
  case (Cons x xs)
  then show ?case
    by (cases i) (auto split: if_splits simp: less_Suc_eq_0_disj)
qed

lemma first_idx_Some_in [dest]:
  assumes "first_idx P xs = Some i"
  shows "i < length xs" and "P (xs ! i)"
  using first_idx_SomeD [OF assms] by auto

lemma first_idx_exists: "i < length xs \<Longrightarrow> P (xs ! i) \<Longrightarrow> \<exists>j \<le> i. first_idx P xs = Some j"
proof -
  assume "i < length xs" and "P (xs ! i)"
  then have "first_idx P xs \<noteq> None"
    by (auto simp: first_idx_None_iff)
  then obtain j where j: "first_idx P xs = Some j" by blast
  then have "j \<le> i"
    using first_idx_SomeD [OF j] \<open>P (xs ! i)\<close> by (meson not_less)
  with j show ?thesis by blast
qed

lemma first_idx_unique:
  assumes "i < length xs" and "P (xs ! i)" and "\<And>j. j < length xs \<Longrightarrow> P (xs ! j) \<Longrightarrow> j = i"
  shows "first_idx P xs = Some i"
  using first_idx_exists [of i xs P] assms by (metis first_idx_Some_in)

lemma first_idx_cong:
  "(\<And>x. x \<in> set xs \<Longrightarrow> P x = Q x) \<Longrightarrow> first_idx P xs = first_idx Q xs"
  by (induction xs) auto

section \<open>Lists updated in place\<close>

lemma nth_upd: "xs[i := v] ! j = (if i = j \<and> j < length xs then v else xs ! j)"
  by (cases "i < length xs") (auto simp: nth_list_update list_update_beyond)

lemma in_set_upd: "x \<in> set (xs[i := v]) \<Longrightarrow> x = v \<or> x \<in> set xs"
  using set_update_subset_insert by fast

lemma length_filter_update:
  assumes "i < length xs"
  shows "length (filter P (xs[i := x])) =
    length (filter P xs) + (if P x then 1 else 0) - (if P (xs ! i) then 1 else 0)"
proof -
  have split: "xs = take i xs @ xs ! i # drop (Suc i) xs"
    using assms by (rule id_take_nth_drop)
  have "xs[i := x] = take i xs @ x # drop (Suc i) xs"
    using assms by (rule upd_conv_take_nth_drop)
  then have "length (filter P (xs[i := x])) =
      length (filter P (take i xs)) + (if P x then 1 else 0) + length (filter P (drop (Suc i) xs))"
    by simp
  moreover have "length (filter P xs) =
      length (filter P (take i xs)) + (if P (xs ! i) then 1 else 0)
        + length (filter P (drop (Suc i) xs))"
    by (subst split) simp
  ultimately show ?thesis by simp
qed

lemma length_filter_less_ex:
  "length (filter P xs) < length xs \<Longrightarrow> \<exists>i < length xs. \<not> P (xs ! i)"
  by (metis filter_True in_set_conv_nth less_irrefl)

section \<open>Loops that may not end\<close>

text \<open>A loop over \<open>xs\<close> whose body may fail to return (\<open>None\<close>).\<close>

primrec fold_opt :: "('a \<Rightarrow> 'b \<Rightarrow> 'b option) \<Rightarrow> 'a list \<Rightarrow> 'b \<Rightarrow> 'b option" where
  "fold_opt f [] s = Some s"
| "fold_opt f (x # xs) s = (case f x s of None \<Rightarrow> None | Some s' \<Rightarrow> fold_opt f xs s')"

lemma fold_opt_append:
  "fold_opt f (xs @ ys) s = (case fold_opt f xs s of None \<Rightarrow> None | Some s' \<Rightarrow> fold_opt f ys s')"
  by (induction xs arbitrary: s) (auto split: option.splits)

lemma fold_opt_cong [fundef_cong]:
  "xs = ys \<Longrightarrow> s = t \<Longrightarrow> (\<And>x s. x \<in> set ys \<Longrightarrow> f x s = g x s) \<Longrightarrow> fold_opt f xs s = fold_opt g ys t"
  by (induction ys arbitrary: xs s t) (auto split: option.splits)

end
