(* ===== verification/Mqtt_Types.thy ===== *)
theory Mqtt_Types
  imports Broker_Prelude
begin

text \<open>
  The wire-level enumerations (\<open>mqtt_types.hpp\<close>), the generation-stamped handles (\<open>types.hpp\<close>,
  \<open>topic_intern.hpp\<close>, \<open>property_pool.hpp\<close>, \<open>session.hpp\<close>), the compile-time capacity profiles
  (\<open>broker_limits_*.hpp\<close>) and the CONNACK capabilities derived from them (\<open>connack_caps.hpp\<close>).

  \<open>PacketType\<close> and \<open>ReasonCode\<close> are datatypes; a property identifier stays a byte with named
  constants, because the parser casts any decoded number to \<open>PropertyId\<close>. The capacity profile
  is a record, so that every component is proved for every profile; the four shipped ones are
  its constants.
\<close>

section \<open>Packet types\<close>

datatype PacketType =
    Reserved
  | Connect
  | Connack
  | Publish
  | Puback
  | Pubrec
  | Pubrel
  | Pubcomp
  | Subscribe
  | Suback
  | Unsubscribe
  | Unsuback
  | Pingreq
  | Pingresp
  | Disconnect
  | Auth

definition packet_types :: "PacketType list" where
  "packet_types =
     [Reserved, Connect, Connack, Publish, Puback, Pubrec, Pubrel, Pubcomp,
      Subscribe, Suback, Unsubscribe, Unsuback, Pingreq, Pingresp, Disconnect, Auth]"

text \<open>The numeric value of an enumerator.\<close>

fun packet_type_value :: "PacketType \<Rightarrow> u8" where
  "packet_type_value Reserved = 0"
| "packet_type_value Connect = 1"
| "packet_type_value Connack = 2"
| "packet_type_value Publish = 3"
| "packet_type_value Puback = 4"
| "packet_type_value Pubrec = 5"
| "packet_type_value Pubrel = 6"
| "packet_type_value Pubcomp = 7"
| "packet_type_value Subscribe = 8"
| "packet_type_value Suback = 9"
| "packet_type_value Unsubscribe = 10"
| "packet_type_value Unsuback = 11"
| "packet_type_value Pingreq = 12"
| "packet_type_value Pingresp = 13"
| "packet_type_value Disconnect = 14"
| "packet_type_value Auth = 15"

definition packet_type_from_byte :: "u8 \<Rightarrow> PacketType" where
  "packet_type_from_byte b = packet_types ! unat (drop_bit 4 b AND 0x0F)"

definition packet_type_to_byte :: "PacketType \<Rightarrow> u8" where
  "packet_type_to_byte t = push_bit 4 (packet_type_value t)"

section \<open>Property identifiers\<close>

type_synonym PropertyId = u8

abbreviation PayloadFormatIndicator :: PropertyId where "PayloadFormatIndicator \<equiv> 0x01"
abbreviation MessageExpiryInterval :: PropertyId where "MessageExpiryInterval \<equiv> 0x02"
abbreviation ContentType :: PropertyId where "ContentType \<equiv> 0x03"
abbreviation ResponseTopic :: PropertyId where "ResponseTopic \<equiv> 0x08"
abbreviation CorrelationData :: PropertyId where "CorrelationData \<equiv> 0x09"
abbreviation SubscriptionIdentifier :: PropertyId where "SubscriptionIdentifier \<equiv> 0x0B"
abbreviation SessionExpiryInterval :: PropertyId where "SessionExpiryInterval \<equiv> 0x11"
abbreviation AssignedClientIdentifier :: PropertyId where "AssignedClientIdentifier \<equiv> 0x12"
abbreviation ServerKeepAlive :: PropertyId where "ServerKeepAlive \<equiv> 0x13"
abbreviation AuthenticationMethod :: PropertyId where "AuthenticationMethod \<equiv> 0x15"
abbreviation AuthenticationData :: PropertyId where "AuthenticationData \<equiv> 0x16"
abbreviation RequestProblemInformation :: PropertyId where "RequestProblemInformation \<equiv> 0x17"
abbreviation WillDelayInterval :: PropertyId where "WillDelayInterval \<equiv> 0x18"
abbreviation RequestResponseInformation :: PropertyId where "RequestResponseInformation \<equiv> 0x19"
abbreviation ResponseInformation :: PropertyId where "ResponseInformation \<equiv> 0x1A"
abbreviation ServerReference :: PropertyId where "ServerReference \<equiv> 0x1C"
abbreviation ReasonString :: PropertyId where "ReasonString \<equiv> 0x1F"
abbreviation ReceiveMaximum :: PropertyId where "ReceiveMaximum \<equiv> 0x21"
abbreviation TopicAliasMaximum :: PropertyId where "TopicAliasMaximum \<equiv> 0x22"
abbreviation TopicAlias :: PropertyId where "TopicAlias \<equiv> 0x23"
abbreviation MaximumQoS :: PropertyId where "MaximumQoS \<equiv> 0x24"
abbreviation RetainAvailable :: PropertyId where "RetainAvailable \<equiv> 0x25"
abbreviation UserProperty :: PropertyId where "UserProperty \<equiv> 0x26"
abbreviation MaximumPacketSize :: PropertyId where "MaximumPacketSize \<equiv> 0x27"
abbreviation WildcardSubscriptionAvailable :: PropertyId where "WildcardSubscriptionAvailable \<equiv> 0x28"
abbreviation SubscriptionIdentifierAvailable :: PropertyId where "SubscriptionIdentifierAvailable \<equiv> 0x29"
abbreviation SharedSubscriptionAvailable :: PropertyId where "SharedSubscriptionAvailable \<equiv> 0x2A"

section \<open>Reason codes\<close>

datatype ReasonCode =
    Success
  | GrantedQoS1
  | GrantedQoS2
  | NoSubscriptionExisted
  | UnspecifiedError
  | MalformedPacket
  | ProtocolError
  | ImplementationSpecificError
  | UnsupportedProtocolVersion
  | ClientIdentifierNotValid
  | BadUserNameOrPassword
  | NotAuthorized
  | TopicNameInvalid
  | PacketTooLarge
  | QuotaExceeded
  | TopicAliasInvalid
  | SubscriptionIdentifiersNotSupported
  | SharedSubscriptionsNotSupported
  | ServerUnavailable
  | BadAuthenticationMethod
  | SessionTakenOver

fun reason_byte :: "ReasonCode \<Rightarrow> u8" where
  "reason_byte Success = 0x00"
| "reason_byte GrantedQoS1 = 0x01"
| "reason_byte GrantedQoS2 = 0x02"
| "reason_byte NoSubscriptionExisted = 0x11"
| "reason_byte UnspecifiedError = 0x80"
| "reason_byte MalformedPacket = 0x81"
| "reason_byte ProtocolError = 0x82"
| "reason_byte ImplementationSpecificError = 0x83"
| "reason_byte UnsupportedProtocolVersion = 0x84"
| "reason_byte ClientIdentifierNotValid = 0x85"
| "reason_byte BadUserNameOrPassword = 0x86"
| "reason_byte NotAuthorized = 0x87"
| "reason_byte TopicNameInvalid = 0x90"
| "reason_byte PacketTooLarge = 0x95"
| "reason_byte QuotaExceeded = 0x97"
| "reason_byte TopicAliasInvalid = 0x94"
| "reason_byte SubscriptionIdentifiersNotSupported = 0xA1"
| "reason_byte SharedSubscriptionsNotSupported = 0x9E"
| "reason_byte ServerUnavailable = 0x88"
| "reason_byte BadAuthenticationMethod = 0x8C"
| "reason_byte SessionTakenOver = 0x8E"

text \<open>\<open>static_cast<ReasonCode> (granted)\<close> for a granted QoS of at most 2.\<close>

definition granted_reason :: "u8 \<Rightarrow> ReasonCode" where
  "granted_reason q = (if q = 0 then Success else if q = 1 then GrantedQoS1 else GrantedQoS2)"

section \<open>Generation-stamped handles\<close>

record Handle =
  slot :: u16
  generation :: u16

type_synonym MessageHandle = Handle
type_synonym TopicHandle = Handle
type_synonym PropertyHandle = Handle
type_synonym SessionHandle = Handle

definition NULL_HANDLE :: Handle where
  "NULL_HANDLE = \<lparr>slot = 0xFFFF, generation = 0xFFFF\<rparr>"

abbreviation NULL_MESSAGE :: MessageHandle where "NULL_MESSAGE \<equiv> NULL_HANDLE"
abbreviation NULL_TOPIC :: TopicHandle where "NULL_TOPIC \<equiv> NULL_HANDLE"
abbreviation NULL_PROPERTY :: PropertyHandle where "NULL_PROPERTY \<equiv> NULL_HANDLE"
abbreviation NULL_SESSION :: SessionHandle where "NULL_SESSION \<equiv> NULL_HANDLE"

definition message_handle_valid :: "MessageHandle \<Rightarrow> bool" where
  "message_handle_valid h \<longleftrightarrow> slot h \<noteq> 0xFFFF \<or> generation h \<noteq> 0xFFFF"

definition session_handle_valid :: "SessionHandle \<Rightarrow> bool" where
  "session_handle_valid h \<longleftrightarrow> slot h \<noteq> 0xFFFF \<or> generation h \<noteq> 0xFFFF"

text \<open>The generation counter of a slot that is freed: it skips 0 when it wraps.\<close>

definition bump_generation :: "u16 \<Rightarrow> u16" where
  "bump_generation g = (if g + 1 = 0 then 1 else g + 1)"

section \<open>Capacity profiles\<close>

record BrokerLimits =
  MaxTcpClients :: nat
  MaxTlsClients :: nat
  MaxSubsPerClient :: nat
  MaxSubsTotal :: nat
  MaxPacketBytes :: nat
  MaxTopicBytes :: nat
  MaxPayloadBytes :: nat
  QosInflightPerClient :: nat
  OfflineQueuePerClient :: nat
  RetainedBytesTotal :: nat
  ParserReadChunk :: nat
  TxLogicalPerClient :: nat
  TxLogicalTotal :: nat
  PayloadBlockSize :: nat
  PayloadBlockCount :: nat
  MaxInternedTopics :: nat
  MaxInternedBytes :: nat
  TlsHandshakeSlots :: nat
  TlsPendingAccepts :: nat
  Pbkdf2SaltBytes :: nat
  Pbkdf2KeyBytes :: nat
  Pbkdf2Iterations :: nat
  TxQueueDepthPerClient :: nat
  PayloadSlotCount :: nat
  MaxRetainedEntries :: nat
  KeepAliveMultiplierTenths :: nat
  MaxKeepAliveSec :: nat
  ConnectHandshakeTimeoutSec :: nat

definition broker_limits_host :: BrokerLimits where
  "broker_limits_host =
     \<lparr>MaxTcpClients = 32, MaxTlsClients = 2, MaxSubsPerClient = 16, MaxSubsTotal = 128,
      MaxPacketBytes = 16384, MaxTopicBytes = 256, MaxPayloadBytes = 8192,
      QosInflightPerClient = 8, OfflineQueuePerClient = 16, RetainedBytesTotal = 65536,
      ParserReadChunk = 512, TxLogicalPerClient = 32768, TxLogicalTotal = 131072,
      PayloadBlockSize = 512, PayloadBlockCount = 96, MaxInternedTopics = 128,
      MaxInternedBytes = 16384, TlsHandshakeSlots = 1, TlsPendingAccepts = 1,
      Pbkdf2SaltBytes = 16, Pbkdf2KeyBytes = 32, Pbkdf2Iterations = 400,
      TxQueueDepthPerClient = 64, PayloadSlotCount = 64 + 32, MaxRetainedEntries = 64,
      KeepAliveMultiplierTenths = 15, MaxKeepAliveSec = 30, ConnectHandshakeTimeoutSec = 15\<rparr>"

definition broker_limits_nano54415 :: BrokerLimits where
  "broker_limits_nano54415 =
     \<lparr>MaxTcpClients = 32, MaxTlsClients = 2, MaxSubsPerClient = 16, MaxSubsTotal = 128,
      MaxPacketBytes = 16384, MaxTopicBytes = 256, MaxPayloadBytes = 8192,
      QosInflightPerClient = 8, OfflineQueuePerClient = 16, RetainedBytesTotal = 65536,
      ParserReadChunk = 512, TxLogicalPerClient = 32768, TxLogicalTotal = 262144,
      PayloadBlockSize = 512, PayloadBlockCount = 256, MaxInternedTopics = 256,
      MaxInternedBytes = 32768, TlsHandshakeSlots = 1, TlsPendingAccepts = 1,
      Pbkdf2SaltBytes = 16, Pbkdf2KeyBytes = 32, Pbkdf2Iterations = 400,
      TxQueueDepthPerClient = 64, PayloadSlotCount = 64 + 32, MaxRetainedEntries = 128,
      KeepAliveMultiplierTenths = 15, MaxKeepAliveSec = 30, ConnectHandshakeTimeoutSec = 15\<rparr>"

definition broker_limits_modm7ae70 :: BrokerLimits where
  "broker_limits_modm7ae70 =
     \<lparr>MaxTcpClients = 16, MaxTlsClients = 2, MaxSubsPerClient = 16, MaxSubsTotal = 128,
      MaxPacketBytes = 16384, MaxTopicBytes = 256, MaxPayloadBytes = 8192,
      QosInflightPerClient = 8, OfflineQueuePerClient = 16, RetainedBytesTotal = 32768,
      ParserReadChunk = 512, TxLogicalPerClient = 32768, TxLogicalTotal = 196608,
      PayloadBlockSize = 512, PayloadBlockCount = 144, MaxInternedTopics = 128,
      MaxInternedBytes = 16384, TlsHandshakeSlots = 1, TlsPendingAccepts = 1,
      Pbkdf2SaltBytes = 16, Pbkdf2KeyBytes = 32, Pbkdf2Iterations = 1000,
      TxQueueDepthPerClient = 32, PayloadSlotCount = 32 + 16, MaxRetainedEntries = 64,
      KeepAliveMultiplierTenths = 15, MaxKeepAliveSec = 30, ConnectHandshakeTimeoutSec = 15\<rparr>"

definition broker_limits_somrt1061 :: BrokerLimits where
  "broker_limits_somrt1061 =
     \<lparr>MaxTcpClients = 32, MaxTlsClients = 2, MaxSubsPerClient = 16, MaxSubsTotal = 128,
      MaxPacketBytes = 16384, MaxTopicBytes = 256, MaxPayloadBytes = 8192,
      QosInflightPerClient = 8, OfflineQueuePerClient = 16, RetainedBytesTotal = 65536,
      ParserReadChunk = 1024, TxLogicalPerClient = 131072, TxLogicalTotal = 262144,
      PayloadBlockSize = 512, PayloadBlockCount = 384, MaxInternedTopics = 256,
      MaxInternedBytes = 32768, TlsHandshakeSlots = 1, TlsPendingAccepts = 1,
      Pbkdf2SaltBytes = 16, Pbkdf2KeyBytes = 32, Pbkdf2Iterations = 9000,
      TxQueueDepthPerClient = 96, PayloadSlotCount = 96 + 32, MaxRetainedEntries = 96,
      KeepAliveMultiplierTenths = 15, MaxKeepAliveSec = 30, ConnectHandshakeTimeoutSec = 15\<rparr>"

section \<open>CONNACK capabilities\<close>

definition ConnackCaps_MaximumQos :: u8 where
  "ConnackCaps_MaximumQos = 2"

definition ConnackCaps_ReceiveMaximum :: "BrokerLimits \<Rightarrow> u16" where
  "ConnackCaps_ReceiveMaximum L = of_nat (QosInflightPerClient L)"

definition ConnackCaps_MaximumPacketSize :: "BrokerLimits \<Rightarrow> u32" where
  "ConnackCaps_MaximumPacketSize L = of_nat (MaxPacketBytes L)"

section \<open>Basic facts\<close>

lemma bump_generation_nonzero [simp]: "bump_generation g \<noteq> 0"
  by (simp add: bump_generation_def)

lemma bump_generation_neq [simp]: "bump_generation g \<noteq> g"
  by (auto simp: bump_generation_def)

lemma packet_type_roundtrip:
  "drop_bit 4 f = 0 \<Longrightarrow> packet_type_from_byte (packet_type_to_byte t OR f) = t"
  by (cases t) (simp_all add: packet_type_from_byte_def packet_type_to_byte_def packet_types_def
      drop_bit_or)

lemma message_handle_valid_NULL [simp]: "\<not> message_handle_valid NULL_HANDLE"
  by (simp add: message_handle_valid_def NULL_HANDLE_def)

lemma session_handle_valid_NULL [simp]: "\<not> session_handle_valid NULL_HANDLE"
  by (simp add: session_handle_valid_def NULL_HANDLE_def)

lemma message_handle_valid_iff: "message_handle_valid h \<longleftrightarrow> h \<noteq> NULL_HANDLE"
  by (auto simp: message_handle_valid_def NULL_HANDLE_def)

end
