(* ===== verification/Ring_Queues.thy ===== *)
theory Ring_Queues
  imports Mqtt_Types
begin

text \<open>
  The two ring buffers of pending deliveries: the per-session offline queue (\<open>offline_queue.cpp\<close>)
  and the per-connection transmit queue with its byte budget (\<open>tx_queue.cpp\<close>). The backing array
  is the result of a \<open>nothrow\<close> allocation: \<open>None\<close> when it failed, in which case \<open>enqueue\<close> always
  refuses. Both refine a FIFO list: the locale \<open>bounded_fifo\<close> is that contract, proved for both
  queues by interpretation; in-order delivery is proved once, inside the locale.
\<close>

section \<open>Pending deliveries\<close>

record PendingDelivery =
  pd_message :: MessageHandle
  pd_topic :: TopicHandle
  pd_packet_id :: u16
  pd_encoded_offset :: u32
  pd_encoded_total_size :: u32
  pd_delivery_qos :: u8
  pd_retain_flag :: bool
  pd_dup_flag :: bool

text \<open>The value-initialised struct \<open>PendingDelivery pd = {}\<close>.\<close>

definition pd_zero :: PendingDelivery where
  "pd_zero = \<lparr>pd_message = \<lparr>slot = 0, generation = 0\<rparr>, pd_topic = \<lparr>slot = 0, generation = 0\<rparr>,
     pd_packet_id = 0, pd_encoded_offset = 0, pd_encoded_total_size = 0, pd_delivery_qos = 0,
     pd_retain_flag = False, pd_dup_flag = False\<rparr>"

section \<open>Ring arithmetic\<close>

text \<open>The \<open>count\<close> elements from \<open>head\<close> on, in order.\<close>

definition ring_list :: "'a list \<Rightarrow> nat \<Rightarrow> nat \<Rightarrow> nat \<Rightarrow> 'a list" where
  "ring_list es depth head n = map (\<lambda>i. es ! ((head + i) mod depth)) [0..<n]"

lemma length_ring_list [simp]: "length (ring_list es depth head n) = n"
  by (simp add: ring_list_def)

lemma ring_list_empty_iff [simp]: "ring_list es depth head n = [] \<longleftrightarrow> n = 0"
  by (simp add: ring_list_def)

lemma ring_list_0 [simp]: "ring_list es depth head 0 = []"
  by simp

lemma hd_ring_list: "0 < n \<Longrightarrow> head < depth \<Longrightarrow> hd (ring_list es depth head n) = es ! head"
  by (simp add: ring_list_def hd_map)

lemma ring_list_Cons:
  assumes "0 < n" and "head < depth"
  shows "ring_list es depth head n =
    es ! head # ring_list es depth ((head + 1) mod depth) (n - 1)"
proof -
  obtain m where n: "n = Suc m" using assms(1) by (cases n) auto
  have "[0..<n] = 0 # map Suc [0..<m]"
    unfolding n map_Suc_upt by (rule upt_conv_Cons) simp
  then have "ring_list es depth head n =
      es ! (head mod depth) # map (\<lambda>i. es ! ((head + Suc i) mod depth)) [0..<m]"
    by (simp add: ring_list_def comp_def)
  then show ?thesis
    using assms(2) by (simp add: ring_list_def n mod_add_left_eq)
qed

lemma ring_index_inj:
  assumes "i < depth" and "j < depth" and "(head + i) mod depth = (head + j) mod (depth :: nat)"
  shows "i = j"
  using assms
proof (induction i j rule: linorder_wlog)
  case (le i j)
  then have "depth dvd (head + j) - (head + i)"
    by (metis add_le_cancel_left mod_eq_dvd_iff_nat)
  with le show ?case by (auto dest: dvd_imp_le)
next
  case (sym i j)
  then show ?case by simp
qed

lemma ring_list_snoc:
  assumes "n < depth" and "length es = depth"
  shows "ring_list (es[(head + n) mod depth := x]) depth head (Suc n) =
    ring_list es depth head n @ [x]"
proof -
  have "es[(head + n) mod depth := x] ! ((head + i) mod depth) = es ! ((head + i) mod depth)"
    if "i < n" for i
    using ring_index_inj [of i depth n head] that assms by (subst nth_list_update_neq) auto
  moreover have "(head + n) mod depth < length es"
    using assms by simp
  ultimately show ?thesis
    by (simp add: ring_list_def)
qed

lemma ring_list_update_head:
  assumes "0 < n" and "n \<le> depth" and "head < depth" and "length es = depth"
  shows "ring_list (es[head := x]) depth head n = x # tl (ring_list es depth head n)"
proof -
  have "es[head := x] ! ((head + i) mod depth) =
      (if i = 0 then x else es ! ((head + i) mod depth))" if "i < n" for i
    using ring_index_inj [of i depth 0 head] that assms by (auto simp: nth_list_update)
  then have "ring_list (es[head := x]) depth head n =
      map (\<lambda>i. if i = 0 then x else es ! ((head + i) mod depth)) [0..<n]"
    by (simp add: ring_list_def)
  also have "\<dots> = x # tl (ring_list es depth head n)"
    using assms(1) by (simp add: ring_list_def upt_conv_Cons)
  finally show ?thesis .
qed

lemma ring_tail_step:
  assumes "0 < n"
  shows "(Suc head mod depth + n - Suc 0) mod depth = (head + n) mod (depth :: nat)"
proof -
  from assms obtain m where "n = Suc m" by (cases n) auto
  then show ?thesis by (simp add: mod_add_left_eq)
qed

section \<open>The FIFO contract\<close>

text \<open>
  What a client of either queue relies on. \<open>adm\<close> is the class of elements the queue is used
  with, \<open>to_list\<close> the queued elements in order of arrival.
\<close>

locale bounded_fifo =
  fixes invar :: "'q \<Rightarrow> bool"
    and adm :: "'a \<Rightarrow> bool"
    and to_list :: "'q \<Rightarrow> 'a list"
    and enq :: "'a \<Rightarrow> 'q \<Rightarrow> bool \<times> 'q"
    and front :: "'q \<Rightarrow> 'a option"
    and deq :: "'q \<Rightarrow> 'q"
  assumes enq_accept: "invar q \<Longrightarrow> adm x \<Longrightarrow> enq x q = (True, q') \<Longrightarrow>
      invar q' \<and> to_list q' = to_list q @ [x]"
    and enq_refuse: "enq x q = (False, q') \<Longrightarrow> q' = q"
    and front_eq: "invar q \<Longrightarrow> front q = (case to_list q of [] \<Rightarrow> None | x # _ \<Rightarrow> Some x)"
    and deq_eq: "invar q \<Longrightarrow> invar (deq q) \<and> to_list (deq q) = tl (to_list q)"
begin

text \<open>A client's actions: offer an element, or take the front one.\<close>

fun act :: "'a option \<Rightarrow> 'q \<times> 'a list \<times> 'a list \<Rightarrow> 'q \<times> 'a list \<times> 'a list" where
  "act (Some x) (q, acc, out) =
     (let (ok, q') = enq x q in (q', if ok then acc @ [x] else acc, out))"
| "act None (q, acc, out) =
     (case front q of None \<Rightarrow> (q, acc, out) | Some x \<Rightarrow> (deq q, acc, out @ [x]))"

lemma act_order:
  assumes "invar q" and "case a of None \<Rightarrow> True | Some x \<Rightarrow> adm x"
    and "acc = out @ to_list q" and "act a (q, acc, out) = (q', acc', out')"
  shows "invar q' \<and> acc' = out' @ to_list q'"
proof (cases a)
  case None
  with assms(1,3,4) deq_eq [OF assms(1)] show ?thesis
    by (auto simp: front_eq split: list.splits)
next
  case (Some x)
  obtain ok q2 where e: "enq x q = (ok, q2)" by (cases "enq x q")
  with Some assms enq_accept [of q x q2] enq_refuse [of x q q2] show ?thesis
    by (cases ok) auto
qed

text \<open>Deliveries leave the queue in the order in which they were accepted.\<close>

lemma fifo_order:
  assumes "invar q" and "to_list q = []" and "\<forall>a \<in> set as. case a of None \<Rightarrow> True | Some x \<Rightarrow> adm x"
    and "fold act as (q, [], []) = (q', acc, out)"
  shows "invar q' \<and> acc = out @ to_list q'"
proof -
  have "invar q' \<and> acc' = out' @ to_list q'"
    if "invar q0" "acc0 = out0 @ to_list q0" "\<forall>a \<in> set as. case a of None \<Rightarrow> True | Some x \<Rightarrow> adm x"
      "fold act as (q0, acc0, out0) = (q', acc', out')" for q0 acc0 out0 acc' out'
    using that
  proof (induction as arbitrary: q0 acc0 out0)
    case Nil
    then show ?case by auto
  next
    case (Cons a as)
    obtain q1 acc1 out1 where s: "act a (q0, acc0, out0) = (q1, acc1, out1)"
      by (cases "act a (q0, acc0, out0)") auto
    have "invar q1 \<and> acc1 = out1 @ to_list q1"
      using act_order [OF Cons.prems(1) _ Cons.prems(2) s] Cons.prems(3) by simp
    then show ?case
      using Cons.IH [of q1 acc1 out1] Cons.prems(3,4) s by auto
  qed
  from this [of q "[]" "[]" acc out] assms show ?thesis by simp
qed

end

section \<open>OfflineQueue\<close>

record OfflineQueue =
  oq_entries :: "PendingDelivery list option"
  oq_depth :: nat
  oq_head :: nat
  oq_tail :: nat
  oq_count :: nat

text \<open>\<open>mem\<close> is what the \<open>nothrow\<close> allocation of \<open>depth\<close> entries returned.\<close>

definition OfflineQueue_new :: "nat \<Rightarrow> PendingDelivery list option \<Rightarrow> OfflineQueue" where
  "OfflineQueue_new depth mem =
     \<lparr>oq_entries = mem, oq_depth = depth, oq_head = 0, oq_tail = 0, oq_count = 0\<rparr>"

definition oq_enqueue :: "PendingDelivery \<Rightarrow> OfflineQueue \<Rightarrow> bool \<times> OfflineQueue" where
  "oq_enqueue delivery q =
     (case oq_entries q of
        None \<Rightarrow> (False, q)
      | Some es \<Rightarrow>
          if oq_count q \<ge> oq_depth q then (False, q)
          else (True, q\<lparr>oq_entries := Some (es[oq_tail q := delivery]),
                       oq_tail := (oq_tail q + 1) mod oq_depth q,
                       oq_count := oq_count q + 1\<rparr>))"

definition oq_peek :: "OfflineQueue \<Rightarrow> PendingDelivery option" where
  "oq_peek q = (if oq_count q = 0 then None else Some (the (oq_entries q) ! oq_head q))"

definition oq_pop :: "OfflineQueue \<Rightarrow> bool \<times> OfflineQueue" where
  "oq_pop q =
     (if oq_count q = 0 then (False, q)
      else (True, q\<lparr>oq_head := (oq_head q + 1) mod oq_depth q, oq_count := oq_count q - 1\<rparr>))"

definition oq_clear :: "OfflineQueue \<Rightarrow> OfflineQueue" where
  "oq_clear q = q\<lparr>oq_head := 0, oq_tail := 0, oq_count := 0\<rparr>"

definition oq_full :: "OfflineQueue \<Rightarrow> bool" where
  "oq_full q \<longleftrightarrow> oq_count q \<ge> oq_depth q"

definition oq_list :: "OfflineQueue \<Rightarrow> PendingDelivery list" where
  "oq_list q = ring_list (the (oq_entries q)) (oq_depth q) (oq_head q) (oq_count q)"

definition oq_inv :: "OfflineQueue \<Rightarrow> bool" where
  "oq_inv q \<longleftrightarrow>
     oq_count q \<le> oq_depth q
     \<and> (case oq_entries q of None \<Rightarrow> oq_count q = 0 | Some es \<Rightarrow> length es = oq_depth q)
     \<and> (0 < oq_depth q \<longrightarrow>
          oq_head q < oq_depth q \<and> oq_tail q = (oq_head q + oq_count q) mod oq_depth q)"

lemma oq_inv_new:
  "(case mem of None \<Rightarrow> True | Some es \<Rightarrow> length es = depth) \<Longrightarrow> oq_inv (OfflineQueue_new depth mem)"
  by (auto simp: oq_inv_def OfflineQueue_new_def split: option.splits)

lemma oq_list_new [simp]: "oq_list (OfflineQueue_new depth mem) = []"
  by (simp add: oq_list_def OfflineQueue_new_def)

lemma oq_inv_clear: "oq_inv q \<Longrightarrow> oq_inv (oq_clear q)"
  by (auto simp: oq_inv_def oq_clear_def split: option.splits)

lemma oq_enqueue_accept:
  assumes "oq_inv q" and "oq_enqueue x q = (True, q')"
  shows "oq_inv q' \<and> oq_list q' = oq_list q @ [x]"
proof -
  from assms obtain es where es: "oq_entries q = Some es" and room: "oq_count q < oq_depth q"
    and len: "length es = oq_depth q"
    by (auto simp: oq_enqueue_def oq_inv_def split: option.splits if_splits)
  from assms es room have q': "q' = q\<lparr>oq_entries := Some (es[oq_tail q := x]),
      oq_tail := (oq_tail q + 1) mod oq_depth q, oq_count := oq_count q + 1\<rparr>"
    by (simp add: oq_enqueue_def)
  have "oq_list q' = oq_list q @ [x]"
    using assms(1) room len ring_list_snoc [OF room len]
    by (simp add: oq_list_def oq_inv_def q' es)
  moreover have "oq_inv q'"
    using assms(1) room len by (auto simp: oq_inv_def q' mod_Suc_eq)
  ultimately show ?thesis by simp
qed

lemma oq_pop_step:
  assumes "oq_inv q"
  shows "oq_inv (snd (oq_pop q)) \<and> oq_list (snd (oq_pop q)) = tl (oq_list q)"
proof (cases "oq_count q = 0")
  case True
  with assms show ?thesis by (simp add: oq_pop_def oq_list_def)
next
  case False
  then have d: "0 < oq_depth q" "oq_head q < oq_depth q"
    using assms by (auto simp: oq_inv_def)
  have "oq_list q = the (oq_entries q) ! oq_head q # oq_list (snd (oq_pop q))"
    using False ring_list_Cons [of "oq_count q" "oq_head q" "oq_depth q" "the (oq_entries q)"] d
    by (simp add: oq_list_def oq_pop_def)
  moreover have "oq_inv (snd (oq_pop q))"
    using assms False by (auto simp: oq_inv_def oq_pop_def ring_tail_step split: option.splits)
  ultimately show ?thesis by simp
qed

lemma oq_peek_eq:
  "oq_inv q \<Longrightarrow> oq_peek q = (case oq_list q of [] \<Rightarrow> None | x # _ \<Rightarrow> Some x)"
  using ring_list_Cons [of "oq_count q" "oq_head q" "oq_depth q" "the (oq_entries q)"]
  by (auto simp: oq_peek_def oq_list_def oq_inv_def)

interpretation oq: bounded_fifo oq_inv "\<lambda>_. True" oq_list oq_enqueue oq_peek "\<lambda>q. snd (oq_pop q)"
proof
  show "oq_enqueue x q = (False, q') \<Longrightarrow> q' = q" for x q q'
    by (auto simp: oq_enqueue_def split: option.splits if_splits)
qed (use oq_enqueue_accept oq_peek_eq oq_pop_step in auto)

section \<open>TxQueue\<close>

record TxQueue =
  tq_entries :: "PendingDelivery list option"
  tq_depth :: nat
  tq_head :: nat
  tq_tail :: nat
  tq_count :: nat
  tq_logical_bytes :: u32
  tq_logical_limit :: u32
  tq_logical_high_water :: u32

definition TxQueue_new :: "nat \<Rightarrow> u32 \<Rightarrow> PendingDelivery list option \<Rightarrow> TxQueue" where
  "TxQueue_new depth limit mem =
     \<lparr>tq_entries = mem, tq_depth = depth, tq_head = 0, tq_tail = 0, tq_count = 0,
      tq_logical_bytes = 0, tq_logical_limit = limit, tq_logical_high_water = 0\<rparr>"

definition tq_enqueue :: "PendingDelivery \<Rightarrow> u32 \<Rightarrow> TxQueue \<Rightarrow> bool \<times> TxQueue" where
  "tq_enqueue delivery encoded_size q =
     (case tq_entries q of
        None \<Rightarrow> (False, q)
      | Some es \<Rightarrow>
          if tq_count q \<ge> tq_depth q then (False, q)
          else if tq_logical_bytes q + encoded_size > tq_logical_limit q then (False, q)
          else let bytes = tq_logical_bytes q + encoded_size
            in (True, q\<lparr>tq_entries :=
                          Some (es[tq_tail q := delivery\<lparr>pd_encoded_total_size := encoded_size\<rparr>]),
                        tq_tail := (tq_tail q + 1) mod tq_depth q,
                        tq_count := tq_count q + 1,
                        tq_logical_bytes := bytes,
                        tq_logical_high_water :=
                          (if bytes > tq_logical_high_water q then bytes
                           else tq_logical_high_water q)\<rparr>))"

definition tq_peek :: "TxQueue \<Rightarrow> PendingDelivery option" where
  "tq_peek q = (if tq_count q = 0 then None else Some (the (tq_entries q) ! tq_head q))"

text \<open>\<open>None\<close>: the queue is empty and \<open>pop\<close> returns false; otherwise the released logical size.\<close>

definition tq_pop :: "TxQueue \<Rightarrow> u32 option \<times> TxQueue" where
  "tq_pop q =
     (if tq_count q = 0 then (None, q)
      else let sz = pd_encoded_total_size (the (tq_entries q) ! tq_head q)
        in (Some sz,
            q\<lparr>tq_logical_bytes :=
                (if tq_logical_bytes q \<ge> sz then tq_logical_bytes q - sz else 0),
              tq_head := (tq_head q + 1) mod tq_depth q,
              tq_count := tq_count q - 1\<rparr>))"

definition tq_advance_offset :: "u32 \<Rightarrow> TxQueue \<Rightarrow> bool \<times> TxQueue" where
  "tq_advance_offset delta q =
     (if tq_count q = 0 then (False, q)
      else let es = the (tq_entries q); e = es ! tq_head q
        in (True, q\<lparr>tq_entries :=
              Some (es[tq_head q := e\<lparr>pd_encoded_offset := pd_encoded_offset e + delta\<rparr>])\<rparr>))"

definition tq_front_offset :: "TxQueue \<Rightarrow> u32" where
  "tq_front_offset q =
     (if tq_count q = 0 then 0 else pd_encoded_offset (the (tq_entries q) ! tq_head q))"

definition tq_full :: "TxQueue \<Rightarrow> bool" where
  "tq_full q \<longleftrightarrow> tq_count q \<ge> tq_depth q"

definition tq_list :: "TxQueue \<Rightarrow> PendingDelivery list" where
  "tq_list q = ring_list (the (tq_entries q)) (tq_depth q) (tq_head q) (tq_count q)"

text \<open>The wire bytes queued, as an unbounded number.\<close>

definition tq_bytes :: "PendingDelivery list \<Rightarrow> nat" where
  "tq_bytes ds = (\<Sum>d \<leftarrow> ds. unat (pd_encoded_total_size d))"

text \<open>
  The ring is well-formed and the budget counter is exact: it is the sum of the queued sizes,
  within the limit. The limit leaves headroom, so that one more admissible size cannot wrap the
  32-bit sum (the shipped limits are at most 131072).
\<close>

definition tq_inv :: "TxQueue \<Rightarrow> bool" where
  "tq_inv q \<longleftrightarrow>
     tq_count q \<le> tq_depth q
     \<and> (case tq_entries q of None \<Rightarrow> tq_count q = 0 | Some es \<Rightarrow> length es = tq_depth q)
     \<and> (0 < tq_depth q \<longrightarrow>
          tq_head q < tq_depth q \<and> tq_tail q = (tq_head q + tq_count q) mod tq_depth q)
     \<and> unat (tq_logical_bytes q) = tq_bytes (tq_list q)
     \<and> tq_logical_bytes q \<le> tq_logical_limit q
     \<and> unat (tq_logical_limit q) < 2 ^ 31"

definition tq_admissible :: "PendingDelivery \<Rightarrow> bool" where
  "tq_admissible d \<longleftrightarrow> unat (pd_encoded_total_size d) < 2 ^ 31"

lemma tq_bytes_simps [simp]:
  "tq_bytes [] = 0"
  "tq_bytes (d # ds) = unat (pd_encoded_total_size d) + tq_bytes ds"
  "tq_bytes (xs @ ys) = tq_bytes xs + tq_bytes ys"
  by (simp_all add: tq_bytes_def)

lemma tq_inv_new:
  "(case mem of None \<Rightarrow> True | Some es \<Rightarrow> length es = depth) \<Longrightarrow> unat limit < 2 ^ 31 \<Longrightarrow>
     tq_inv (TxQueue_new depth limit mem)"
  by (auto simp: tq_inv_def TxQueue_new_def tq_list_def split: option.splits)

lemma tq_list_new [simp]: "tq_list (TxQueue_new depth limit mem) = []"
  by (simp add: tq_list_def TxQueue_new_def)

lemma tq_enqueue_accept:
  assumes "tq_inv q" and "unat sz < 2 ^ 31" and "tq_enqueue x sz q = (True, q')"
  shows "tq_inv q' \<and> tq_list q' = tq_list q @ [x\<lparr>pd_encoded_total_size := sz\<rparr>]"
proof -
  let ?x = "x\<lparr>pd_encoded_total_size := sz\<rparr>"
  from assms(1,3) obtain es where es: "tq_entries q = Some es" and room: "tq_count q < tq_depth q"
    and len: "length es = tq_depth q"
    and fits: "tq_logical_bytes q + sz \<le> tq_logical_limit q"
    by (auto simp: tq_enqueue_def tq_inv_def not_le not_less split: option.splits if_splits)
  have fields: "tq_entries q' = Some (es[tq_tail q := ?x])" "tq_depth q' = tq_depth q"
    "tq_head q' = tq_head q" "tq_tail q' = (tq_tail q + 1) mod tq_depth q"
    "tq_count q' = tq_count q + 1" "tq_logical_bytes q' = tq_logical_bytes q + sz"
    "tq_logical_limit q' = tq_logical_limit q"
    using assms(3) es room by (auto simp: tq_enqueue_def Let_def not_le split: if_splits)
  have l: "tq_list q' = tq_list q @ [?x]"
    using assms(1) room len ring_list_snoc [OF room len]
    by (simp add: tq_list_def tq_inv_def fields es)
  have lim: "unat (tq_logical_bytes q) < 2 ^ 31"
    using assms(1) by (auto simp: tq_inv_def word_le_nat_alt)
  with assms(2) have "unat (tq_logical_bytes q + sz) = unat (tq_logical_bytes q) + unat sz"
    by (simp add: unat_word_ariths)
  then have "unat (tq_logical_bytes q') = tq_bytes (tq_list q')"
    using assms(1) by (simp add: fields(6) l tq_inv_def)
  then have "tq_inv q'"
    using assms(1) room len fits l by (simp add: tq_inv_def fields mod_Suc_eq)
  with l show ?thesis by simp
qed

lemma tq_pop_step:
  assumes "tq_inv q"
  shows "tq_inv (snd (tq_pop q)) \<and> tq_list (snd (tq_pop q)) = tl (tq_list q)"
proof (cases "tq_count q = 0")
  case True
  with assms show ?thesis by (simp add: tq_pop_def tq_list_def)
next
  case False
  then have d: "0 < tq_depth q" "tq_head q < tq_depth q"
    using assms by (auto simp: tq_inv_def)
  let ?e = "the (tq_entries q) ! tq_head q"
  have l: "tq_list q = ?e # tq_list (snd (tq_pop q))"
    using False ring_list_Cons [of "tq_count q" "tq_head q" "tq_depth q" "the (tq_entries q)"] d
    by (simp add: tq_list_def tq_pop_def Let_def)
  have b: "unat (tq_logical_bytes q) = unat (pd_encoded_total_size ?e) + tq_bytes (tl (tq_list q))"
    using assms l by (simp add: tq_inv_def)
  then have le: "pd_encoded_total_size ?e \<le> tq_logical_bytes q"
    by (simp add: word_le_nat_alt)
  then have "unat (tq_logical_bytes (snd (tq_pop q))) = tq_bytes (tq_list (snd (tq_pop q)))"
    using False b l by (simp add: tq_pop_def Let_def unat_sub)
  moreover have "tq_logical_bytes (snd (tq_pop q)) \<le> tq_logical_limit q"
    using False le assms by (auto simp: tq_pop_def Let_def tq_inv_def word_le_nat_alt unat_sub)
  ultimately have "tq_inv (snd (tq_pop q))"
    using assms False
    by (auto simp: tq_inv_def tq_pop_def Let_def ring_tail_step split: option.splits)
  with l show ?thesis by simp
qed

lemma tq_peek_eq:
  "tq_inv q \<Longrightarrow> tq_peek q = (case tq_list q of [] \<Rightarrow> None | x # _ \<Rightarrow> Some x)"
  using ring_list_Cons [of "tq_count q" "tq_head q" "tq_depth q" "the (tq_entries q)"]
  by (auto simp: tq_peek_def tq_list_def tq_inv_def)

interpretation tq: bounded_fifo tq_inv tq_admissible tq_list
  "\<lambda>x. tq_enqueue x (pd_encoded_total_size x)" tq_peek "\<lambda>q. snd (tq_pop q)"
proof
  show "tq_enqueue x (pd_encoded_total_size x) q = (False, q') \<Longrightarrow> q' = q" for x q q'
    by (auto simp: tq_enqueue_def Let_def split: option.splits if_splits)
  show "tq_inv q' \<and> tq_list q' = tq_list q @ [x]"
    if "tq_inv q" "tq_admissible x" "tq_enqueue x (pd_encoded_total_size x) q = (True, q')"
    for q x q'
    using tq_enqueue_accept [OF that(1) _ that(3)] that(2) by (simp add: tq_admissible_def)
qed (use tq_peek_eq tq_pop_step in auto)

section \<open>Properties\<close>

text \<open>Claim C19. The transmit queue is a FIFO with an exact byte budget: an accepted delivery goes to
  the back (with its size stamped on it), the depth and byte limits hold afterwards, the
  high-water mark does not fall, and a refusal happens exactly when the allocation failed, the
  ring is full or the budget would be exceeded, and leaves the queue as it was.\<close>

theorem tx_queue_admission:
  assumes "tq_inv q" and "unat encoded_size < 2 ^ 31"
    and "tq_enqueue d encoded_size q = (ok, q')"
  shows "(ok \<longleftrightarrow> tq_entries q \<noteq> None \<and> length (tq_list q) < tq_depth q
        \<and> tq_bytes (tq_list q) + unat encoded_size \<le> unat (tq_logical_limit q))
    \<and> (ok \<longrightarrow> tq_inv q' \<and> tq_list q' = tq_list q @ [d\<lparr>pd_encoded_total_size := encoded_size\<rparr>]
        \<and> tq_logical_high_water q \<le> tq_logical_high_water q'
        \<and> tq_bytes (tq_list q') \<le> unat (tq_logical_limit q'))
    \<and> (\<not> ok \<longrightarrow> q' = q)"
proof -
  have lim: "unat (tq_logical_bytes q) < 2 ^ 31"
    using assms(1) by (auto simp: tq_inv_def word_le_nat_alt)
  with assms(2) have "unat (tq_logical_bytes q + encoded_size)
      = unat (tq_logical_bytes q) + unat encoded_size"
    by (simp add: unat_word_ariths)
  then have over: "tq_logical_bytes q + encoded_size > tq_logical_limit q \<longleftrightarrow>
      tq_bytes (tq_list q) + unat encoded_size > unat (tq_logical_limit q)"
    using assms(1) by (simp add: word_less_nat_alt tq_inv_def)
  have len: "length (tq_list q) = tq_count q"
    by (simp add: tq_list_def)
  have dec: "ok \<longleftrightarrow> tq_entries q \<noteq> None \<and> length (tq_list q) < tq_depth q
        \<and> tq_bytes (tq_list q) + unat encoded_size \<le> unat (tq_logical_limit q)"
    using assms(3) over len
    by (auto simp: tq_enqueue_def Let_def not_less split: option.splits if_splits)
  have acc: "tq_inv q' \<and> tq_list q' = tq_list q @ [d\<lparr>pd_encoded_total_size := encoded_size\<rparr>]" if ok
    using tq_enqueue_accept [OF assms(1,2)] assms(3) that by simp
  have hw: "tq_logical_high_water q \<le> tq_logical_high_water q'"
    using assms(3) by (auto simp: tq_enqueue_def Let_def split: option.splits if_splits)
  have bnd: "tq_bytes (tq_list q') \<le> unat (tq_logical_limit q')" if ok
    using acc that by (auto simp: tq_inv_def word_le_nat_alt)
  have "q' = q" if "\<not> ok"
    using assms(3) that by (auto simp: tq_enqueue_def Let_def split: option.splits if_splits)
  with dec acc hw bnd show ?thesis by blast
qed

theorem tx_queue_admission_witness:
  "\<exists>q q'. tq_inv q \<and> tq_enqueue pd_zero 60 q = (True, q')
    \<and> tq_list q' = [pd_zero\<lparr>pd_encoded_total_size := 60\<rparr>]"
proof -
  let ?q = "TxQueue_new 2 100 (Some [pd_zero, pd_zero])"
  have inv: "tq_inv ?q" by (rule tq_inv_new) simp_all
  obtain ok q' where e: "tq_enqueue pd_zero 60 ?q = (ok, q')"
    by (cases "tq_enqueue pd_zero 60 ?q")
  have "tq_list q' = [pd_zero\<lparr>pd_encoded_total_size := 60\<rparr>] \<and> ok"
    using tx_queue_admission [OF inv _ e] by (simp add: TxQueue_new_def tq_list_def)
  with inv e show ?thesis by auto
qed

text \<open>Claim C26. Popping the transmit queue returns the front delivery's size, drops exactly that
  delivery and returns exactly its bytes to the budget; the guard "against accounting drift" in
  \<open>pop\<close> never acts on a well-formed queue.\<close>

theorem tx_queue_release:
  assumes "tq_inv q" and "tq_list q = d # ds" and "tq_pop q = (r, q')"
  shows "r = Some (pd_encoded_total_size d) \<and> tq_inv q' \<and> tq_list q' = ds
    \<and> tq_logical_bytes q \<ge> pd_encoded_total_size d
    \<and> tq_logical_bytes q' = tq_logical_bytes q - pd_encoded_total_size d
    \<and> tq_peek q = Some d"
proof -
  have c: "tq_count q \<noteq> 0"
    using assms(2) length_ring_list unfolding tq_list_def by (metis list.size(3) neq_Nil_conv ring_list_0)
  have d: "the (tq_entries q) ! tq_head q = d"
    using tq_peek_eq [OF assms(1)] assms(2) c by (simp add: tq_peek_def)
  have le: "tq_logical_bytes q \<ge> pd_encoded_total_size d"
    using assms(1,2) by (simp add: tq_inv_def word_le_nat_alt)
  show ?thesis
    using tq_pop_step [OF assms(1)] tq_peek_eq [OF assms(1)] assms c d le
    by (auto simp: tq_pop_def Let_def)
qed

theorem tx_queue_release_witness:
  "\<exists>q q'. tq_inv q \<and> tq_list q = [pd_zero\<lparr>pd_encoded_total_size := 60\<rparr>]
    \<and> tq_pop q = (Some 60, q') \<and> tq_logical_bytes q' = 0"
proof -
  let ?empty = "TxQueue_new 2 100 (Some [pd_zero, pd_zero])"
  let ?q = "snd (tq_enqueue pd_zero 60 ?empty)"
  have e: "tq_enqueue pd_zero 60 ?empty = (True, ?q)"
    by code_simp
  have inv0: "tq_inv ?empty" by (rule tq_inv_new) simp_all
  have inv: "tq_inv ?q \<and> tq_list ?q = [pd_zero\<lparr>pd_encoded_total_size := 60\<rparr>]"
    using tq_enqueue_accept [OF inv0 _ e] by simp
  have b: "tq_logical_bytes ?q = 60"
    by code_simp
  obtain r q' where p: "tq_pop ?q = (r, q')" by (cases "tq_pop ?q")
  show ?thesis
    using tx_queue_release [of ?q _ "[]" r q'] inv p b by (intro exI [of _ ?q] exI [of _ q']) simp
qed

text \<open>Claim C18. Order of offline deliveries: over any sequence of enqueue attempts and pops from an
  empty offline queue, the deliveries popped so far followed by the ones still queued are exactly
  the accepted ones in the order of acceptance (nothing is lost, duplicated or reordered).\<close>

theorem offline_queue_fifo:
  assumes "oq_inv q" and "oq_list q = []"
    and "fold oq.act as (q, [], []) = (q', accepted, popped)"
  shows "accepted = popped @ oq_list q'"
  using oq.fifo_order [OF assms(1,2) _ assms(3)] by (auto split: option.splits)

theorem offline_queue_fifo_witness:
  "\<exists>q' accepted popped.
     fold oq.act [Some pd_zero, None] (OfflineQueue_new 1 (Some [pd_zero]), [], [])
       = (q', accepted, popped) \<and> accepted = popped @ oq_list q'"
proof -
  let ?q = "OfflineQueue_new 1 (Some [pd_zero])"
  have inv: "oq_inv ?q" by (rule oq_inv_new) simp
  obtain q' accepted popped
    where r: "fold oq.act [Some pd_zero, None] (?q, [], []) = (q', accepted, popped)"
    by (cases "fold oq.act [Some pd_zero, None] (?q, [], [])") auto
  from offline_queue_fifo [OF inv oq_list_new r] r show ?thesis by blast
qed

end
