(* ===== verification/Topic_Names.thy ===== *)
theory Topic_Names
  imports Broker_Prelude
begin

text \<open>
  Topic names and filters as strings (the static functions of \<open>topic_trie.cpp\<close>): validation and
  matching. The reference is the matching of MQTT 5 section 4.7 on lists of topic levels; the
  string routine is proved equal to it where neither string ends in a separator, and its
  behaviour on a trailing separator is stated separately.
\<close>

abbreviation c_slash :: byte where "c_slash \<equiv> 0x2F"
abbreviation c_plus :: byte where "c_plus \<equiv> 0x2B"
abbreviation c_hash :: byte where "c_hash \<equiv> 0x23"

section \<open>Definitions\<close>

definition is_valid_topic_char :: "byte \<Rightarrow> bool \<Rightarrow> bool" where
  "is_valid_topic_char c in_filter =
     (if c = 0 then False
      else if c = c_plus \<or> c = c_hash then in_filter
      else 0x20 \<le> c \<and> c \<le> 0x7E)"

text \<open>\<open>None\<close> is the null pointer: there is no further separator.\<close>

definition next_segment :: "byte list \<Rightarrow> byte list option" where
  "next_segment s = (case dropWhile (\<lambda>c. c \<noteq> c_slash) s of [] \<Rightarrow> None | _ # r \<Rightarrow> Some r)"

definition segment_len :: "byte list \<Rightarrow> nat" where
  "segment_len s = length (takeWhile (\<lambda>c. c \<noteq> c_slash) s)"

text \<open>A null pointer where the code continues with the empty string.\<close>

definition seg_or_empty :: "byte list option \<Rightarrow> byte list" where
  "seg_or_empty r = (case r of None \<Rightarrow> [] | Some s \<Rightarrow> s)"

definition topic_valid :: "byte list \<Rightarrow> bool" where
  "topic_valid topic =
     (if topic = [] \<or> hd topic = c_slash then False
      else list_all (\<lambda>c. is_valid_topic_char c False) topic)"

lemma topic_valid_no_nul: "topic_valid t \<Longrightarrow> no_nul t"
  by (auto simp: topic_valid_def no_nul_def list_all_iff is_valid_topic_char_def split: if_splits)

text \<open>The character \<open>p[1]\<close>, with the terminator as 0.\<close>

definition peek_char :: "byte list \<Rightarrow> byte" where
  "peek_char s = (case s of [] \<Rightarrow> 0 | c # _ \<Rightarrow> c)"

fun filter_valid_loop :: "bool \<Rightarrow> byte list \<Rightarrow> bool" where
  "filter_valid_loop hash_seen [] = True"
| "filter_valid_loop hash_seen (c # cs) =
     (if \<not> is_valid_topic_char c True then False
      else if c = c_hash then
        (if hash_seen then False
         else if peek_char cs \<noteq> 0 \<and> peek_char cs \<noteq> c_slash then False
         else filter_valid_loop True cs)
      else if c = c_plus \<and> peek_char cs \<noteq> 0 \<and> peek_char cs \<noteq> c_slash then False
      else filter_valid_loop hash_seen cs)"

definition filter_valid :: "byte list \<Rightarrow> bool" where
  "filter_valid flt = (if flt = [] then False else filter_valid_loop False flt)"

lemma next_segment_shorter: "next_segment s = Some r \<Longrightarrow> length r < length s"
proof -
  assume "next_segment s = Some r"
  then obtain c where "dropWhile (\<lambda>c. c \<noteq> c_slash) s = c # r"
    by (auto simp: next_segment_def split: list.splits)
  then have "length (c # r) \<le> length s"
    by (metis length_dropWhile_le)
  then show ?thesis by simp
qed

function topic_matches_filter :: "byte list \<Rightarrow> byte list \<Rightarrow> bool" where
  "topic_matches_filter topic flt =
     (if flt = [c_hash] then True
      else if topic = [] \<and> flt = [] then True
      else if topic = [] \<or> flt = [] then False
      else if hd flt = c_plus then
        (if segment_len flt \<noteq> 1
           \<or> (peek_char (tl flt) \<noteq> 0 \<and> peek_char (tl flt) \<noteq> c_slash) then False
         else case next_segment flt of
             None \<Rightarrow> next_segment topic = None
           | Some fnext \<Rightarrow> topic_matches_filter (seg_or_empty (next_segment topic)) fnext)
      else if hd flt = c_hash then True
      else if segment_len topic \<noteq> segment_len flt
          \<or> take (segment_len topic) topic \<noteq> take (segment_len topic) flt then False
      else case next_segment flt of
          None \<Rightarrow> next_segment topic = None
        | Some fnext \<Rightarrow> topic_matches_filter (seg_or_empty (next_segment topic)) fnext)"
  by pat_completeness auto
termination
  by (relation "measure (\<lambda>(t, f). length f)") (auto dest: next_segment_shorter)

declare topic_matches_filter.simps [simp del]

section \<open>Matching on topic levels\<close>

text \<open>The levels of a topic: the parts between separators.\<close>

function levels :: "byte list \<Rightarrow> byte list list" where
  "levels s = takeWhile (\<lambda>c. c \<noteq> c_slash) s #
     (case next_segment s of None \<Rightarrow> [] | Some r \<Rightarrow> levels r)"
  by pat_completeness auto
termination
  by (relation "measure length") (auto dest: next_segment_shorter)

declare levels.simps [simp del]

text \<open>MQTT 5, section 4.7.1: \<open>#\<close> stands for any number of levels, \<open>+\<close> for one.\<close>

fun level_match :: "byte list list \<Rightarrow> byte list list \<Rightarrow> bool" where
  "level_match ts [] \<longleftrightarrow> ts = []"
| "level_match [] (f # fs) \<longleftrightarrow> f = [c_hash] \<and> fs = []"
| "level_match (t # ts) (f # fs) \<longleftrightarrow>
     f = [c_hash] \<and> fs = [] \<or> (f = [c_plus] \<or> f = t) \<and> level_match ts fs"

text \<open>A filter whose wildcards stand alone in their level, \<open>#\<close> only in the last one.\<close>

definition wildcards_alone :: "byte list list \<Rightarrow> bool" where
  "wildcards_alone fs \<longleftrightarrow>
     (\<forall>f \<in> set fs. c_plus \<in> set f \<longrightarrow> f = [c_plus]) \<and> (\<forall>f \<in> set fs. c_hash \<in> set f \<longrightarrow> f = [c_hash])
     \<and> [c_hash] \<notin> set (butlast fs)"

lemma levels_nonempty [simp]: "levels s \<noteq> []"
  by (subst levels.simps) simp

lemma levels_Nil: "levels [] = [[]]"
  by (subst levels.simps) (simp add: next_segment_def)

lemma next_segment_eq:
  "next_segment s = None \<longleftrightarrow> c_slash \<notin> set s"
  "next_segment s = Some r \<Longrightarrow> s = takeWhile (\<lambda>c. c \<noteq> c_slash) s @ c_slash # r"
proof -
  show "next_segment s = None \<longleftrightarrow> c_slash \<notin> set s"
  proof -
    have "next_segment s = None \<longleftrightarrow> dropWhile (\<lambda>c. c \<noteq> c_slash) s = []"
      by (cases "dropWhile (\<lambda>c. c \<noteq> c_slash) s") (simp_all add: next_segment_def del: dropWhile_eq_Nil_conv)
    then show ?thesis by (auto simp: dropWhile_eq_Nil_conv)
  qed
  assume "next_segment s = Some r"
  then obtain c where d: "dropWhile (\<lambda>c. c \<noteq> c_slash) s = c # r"
    by (auto simp: next_segment_def split: list.splits)
  then have "c = c_slash" using hd_dropWhile [of "\<lambda>c. c \<noteq> c_slash" s] by simp
  with d show "s = takeWhile (\<lambda>c. c \<noteq> c_slash) s @ c_slash # r"
    by (metis takeWhile_dropWhile_id)
qed

lemma takeWhile_no_slash: "takeWhile (\<lambda>c. c \<noteq> c_slash) s = s \<longleftrightarrow> c_slash \<notin> set s"
  by (auto simp: takeWhile_eq_all_conv)

text \<open>The literal comparison of the code compares the first levels.\<close>

lemma literal_compare:
  "segment_len t = segment_len f \<and> take (segment_len t) t = take (segment_len t) f
   \<longleftrightarrow> takeWhile (\<lambda>c. c \<noteq> c_slash) t = takeWhile (\<lambda>c. c \<noteq> c_slash) f"
  unfolding segment_len_def by (metis takeWhile_eq_take)

lemma first_level_plus:
  "f \<noteq> [] \<Longrightarrow> hd f = c_plus \<Longrightarrow>
     segment_len f = 1 \<longleftrightarrow> takeWhile (\<lambda>c. c \<noteq> c_slash) f = [c_plus]"
  by (cases f) (auto simp: segment_len_def)

lemma levels_single: "levels f = [l] \<longleftrightarrow> f = l \<and> c_slash \<notin> set l"
proof (cases "next_segment f")
  case None
  then have no: "c_slash \<notin> set f" by (simp add: next_segment_eq(1))
  then have "levels f = [f]"
    using None by (subst levels.simps) (simp add: takeWhile_no_slash [THEN iffD2])
  with no show ?thesis by auto
next
  case (Some r)
  then show ?thesis
    using next_segment_eq(1) [of f] by (subst levels.simps) auto
qed

lemma last_levels_next: "next_segment s = Some r \<Longrightarrow> last (levels s) = last (levels r)"
  by (subst levels.simps) simp

lemma last_level_nonempty: "last (levels s) \<noteq> [] \<Longrightarrow> s \<noteq> []"
  by (auto simp: levels_Nil)

lemma wildcards_alone_tl:
  "wildcards_alone (f # fs) \<Longrightarrow> wildcards_alone fs"
  by (auto simp: wildcards_alone_def split: if_splits)

lemma match_exhausted:
  assumes "f \<noteq> []"
  shows "topic_matches_filter [] f \<longleftrightarrow> level_match [] (levels f)"
proof -
  have "topic_matches_filter [] f \<longleftrightarrow> f = [c_hash]"
    using assms by (subst topic_matches_filter.simps) simp
  also have "\<dots> \<longleftrightarrow> levels f = [[c_hash]]"
    by (auto simp: levels_single)
  also have "\<dots> \<longleftrightarrow> level_match [] (levels f)"
    by (cases "levels f") auto
  finally show ?thesis .
qed

lemma topic_matches_filter_levels:
  assumes "c_plus \<notin> set t" and "c_hash \<notin> set t" and "last (levels t) \<noteq> []"
    and "wildcards_alone (levels f)" and "last (levels f) \<noteq> []"
  shows "topic_matches_filter t f \<longleftrightarrow> level_match (levels t) (levels f)"
  using assms
proof (induction "length f" arbitrary: t f rule: less_induct)
  case (less f t)
  note prems = less.prems
  let ?seg = "takeWhile (\<lambda>c. c \<noteq> c_slash)"
  have ne: "t \<noteq> []" "f \<noteq> []" using prems last_level_nonempty by blast+
  have lt: "levels t = ?seg t # (case next_segment t of None \<Rightarrow> [] | Some r \<Rightarrow> levels r)"
    and lf: "levels f = ?seg f # (case next_segment f of None \<Rightarrow> [] | Some r \<Rightarrow> levels r)"
    by (subst levels.simps, simp)+
  have t_seg: "c_plus \<notin> set (?seg t)" "c_hash \<notin> set (?seg t)"
    using prems set_takeWhileD by fast+
  have rest: "topic_matches_filter (seg_or_empty (next_segment t)) g
      = level_match (case next_segment t of None \<Rightarrow> [] | Some r \<Rightarrow> levels r) (levels g)"
    if g: "next_segment f = Some g" for g
  proof -
    have g': "wildcards_alone (levels g)" "last (levels g) \<noteq> []"
      using prems lf g wildcards_alone_tl last_levels_next by auto
    show ?thesis
    proof (cases "next_segment t")
      case None
      then show ?thesis
        using match_exhausted [OF last_level_nonempty [OF g'(2)]] by (simp add: seg_or_empty_def)
    next
      case (Some r)
      have "set r \<subseteq> set t" by (subst next_segment_eq(2) [OF Some]) auto
      with less.hyps [OF next_segment_shorter [OF g], of r] g' prems last_levels_next [OF Some] Some
      show ?thesis by (auto simp: seg_or_empty_def)
    qed
  qed
  show ?case
  proof (cases "c_hash \<in> set (?seg f)")
    case True
    then have "?seg f = [c_hash]" using prems lf by (auto simp: wildcards_alone_def)
    moreover from this have "next_segment f = None"
      using prems lf by (auto simp: wildcards_alone_def split: option.splits if_splits)
    ultimately have "f = [c_hash]" by (metis next_segment_eq(1) takeWhile_no_slash)
    then show ?thesis by (subst topic_matches_filter.simps) (simp add: levels_single lt levels.simps [of "[c_hash]"] next_segment_def)
  next
    case no_hash: False
    then have h: "f \<noteq> [c_hash]" "hd f \<noteq> c_hash" "?seg f \<noteq> [c_hash]" using ne by (cases f; auto)+
    have none: "(case next_segment t of None \<Rightarrow> [] | Some r \<Rightarrow> levels r) = [] \<longleftrightarrow> next_segment t = None"
      by (auto split: option.splits)
    show ?thesis
    proof (cases "hd f = c_plus")
      case True
      then have "c_plus \<in> set (?seg f)" using ne by (cases f) auto
      then have seg: "?seg f = [c_plus]" using prems lf by (auto simp: wildcards_alone_def)
      then have len: "segment_len f = 1"
        "peek_char (tl f) = 0 \<or> peek_char (tl f) = c_slash"
        using ne by (cases f; cases "tl f"; auto simp: segment_len_def peek_char_def split: if_splits)+
      have "topic_matches_filter t f \<longleftrightarrow> (case next_segment f of None \<Rightarrow> next_segment t = None
          | Some g \<Rightarrow> topic_matches_filter (seg_or_empty (next_segment t)) g)"
        using ne h True len by (subst topic_matches_filter.simps) auto
      also have "\<dots> \<longleftrightarrow> level_match (levels t) (levels f)"
        using rest h none by (cases "next_segment f") (auto simp: lt lf seg)
      finally show ?thesis .
    next
      case False
      then have seg: "?seg f \<noteq> [c_plus]" using ne by (cases f) auto
      have "topic_matches_filter t f \<longleftrightarrow> ?seg t = ?seg f \<and> (case next_segment f of
            None \<Rightarrow> next_segment t = None
          | Some g \<Rightarrow> topic_matches_filter (seg_or_empty (next_segment t)) g)"
        using ne h False literal_compare [of t f] by (subst topic_matches_filter.simps) auto
      also have "\<dots> \<longleftrightarrow> level_match (levels t) (levels f)"
        using rest h none seg
        by (cases "next_segment f"; cases "?seg t = ?seg f") (auto simp: lt lf)
      finally show ?thesis .
    qed
  qed
qed

section \<open>Properties\<close>

lemma topic_valid_no_wildcard: "topic_valid t \<Longrightarrow> c_plus \<notin> set t \<and> c_hash \<notin> set t \<and> t \<noteq> []"
  by (auto simp: topic_valid_def is_valid_topic_char_def list_all_iff split: if_splits)

lemma trailing_separator:
  assumes "c_plus \<notin> set t" and "c_hash \<notin> set t" and "last (levels t) \<noteq> []"
  shows "topic_matches_filter t (t @ [c_slash])"
  using assms
proof (induction "length t" arbitrary: t rule: less_induct)
  case less
  let ?seg = "takeWhile (\<lambda>c. c \<noteq> c_slash)" and ?f = "t @ [c_slash]"
  have ne: "t \<noteq> []" using less.prems(3) by (rule last_level_nonempty)
  have f: "?f \<noteq> [c_hash]" "hd ?f \<noteq> c_plus" "hd ?f \<noteq> c_hash"
    using ne less.prems by (cases t; auto)+
  have seg: "?seg t = ?seg ?f"
    by (induction t) auto
  show ?case
  proof (cases "next_segment t")
    case None
    then have "dropWhile (\<lambda>c. c \<noteq> c_slash) ?f = [c_slash]"
      using next_segment_eq(1) [of t] by (subst dropWhile_append2) auto
    then have "next_segment ?f = Some []" by (simp add: next_segment_def)
    moreover have "topic_matches_filter [] []" by (subst topic_matches_filter.simps) simp
    ultimately show ?thesis
      using None ne f seg literal_compare [of t ?f]
      by (subst topic_matches_filter.simps) (auto simp: seg_or_empty_def)
  next
    case (Some r)
    then obtain c where "dropWhile (\<lambda>c. c \<noteq> c_slash) t = c # r"
      by (auto simp: next_segment_def split: list.splits)
    then have "dropWhile (\<lambda>c. c \<noteq> c_slash) ?f = c # r @ [c_slash]"
      by (induction t) (auto split: if_splits)
    then have "next_segment ?f = Some (r @ [c_slash])" by (simp add: next_segment_def)
    moreover have "set r \<subseteq> set t" by (subst next_segment_eq(2) [OF Some]) auto
    then have "topic_matches_filter r (r @ [c_slash])"
      using less.prems less.hyps [OF next_segment_shorter [OF Some]] last_levels_next [OF Some] by auto
    ultimately show ?thesis
      using Some ne f seg literal_compare [of t ?f]
      by (subst topic_matches_filter.simps) (auto simp: seg_or_empty_def)
  qed
qed

lemma segment_append:
  assumes "c_slash \<notin> set l"
  shows "next_segment (l @ c_slash # r) = Some r \<and> takeWhile (\<lambda>c. c \<noteq> c_slash) (l @ c_slash # r) = l"
  using assms by (induction l) (auto simp: next_segment_def)

lemma levels_snoc: "levels (t @ [c_slash]) = levels t @ [[]]"
proof (induction "length t" arbitrary: t rule: less_induct)
  case less
  show ?case
  proof (cases "next_segment t")
    case None
    then have "c_slash \<notin> set t" by (simp add: next_segment_eq(1))
    then have "next_segment (t @ [c_slash]) = Some []" "levels t = [t]"
      "takeWhile (\<lambda>c. c \<noteq> c_slash) (t @ [c_slash]) = t"
      using segment_append [of t "[]"] by (simp_all add: levels_single)
    then show ?thesis by (subst levels.simps) (simp add: levels_Nil)
  next
    case (Some r)
    then have t: "t = takeWhile (\<lambda>c. c \<noteq> c_slash) t @ c_slash # r" by (rule next_segment_eq(2))
    have "next_segment (t @ [c_slash]) = Some (r @ [c_slash])"
      using segment_append [of "takeWhile (\<lambda>c. c \<noteq> c_slash) t" "r @ [c_slash]"]
      by (subst t) (auto dest: set_takeWhileD)
    moreover have "takeWhile (\<lambda>c. c \<noteq> c_slash) (t @ [c_slash]) = takeWhile (\<lambda>c. c \<noteq> c_slash) t"
      by (induction t) auto
    ultimately show ?thesis
      using less.hyps [OF next_segment_shorter [OF Some]] Some levels.simps [of t]
        levels.simps [of "t @ [c_slash]"] by simp
  qed
qed

lemma level_match_length: "level_match ts fs \<Longrightarrow> [c_hash] \<notin> set fs \<Longrightarrow> length ts = length fs"
  by (induction ts fs rule: level_match.induct) auto

lemma levels_subset: "l \<in> set (levels t) \<Longrightarrow> set l \<subseteq> set t"
proof (induction "length t" arbitrary: t rule: less_induct)
  case less
  show ?case
  proof (cases "l = takeWhile (\<lambda>c. c \<noteq> c_slash) t")
    case False
    with less.prems levels.simps [of t]
    obtain r where r: "next_segment t = Some r" "l \<in> set (levels r)"
      by (auto split: option.splits)
    then show ?thesis
      using less.hyps [OF next_segment_shorter [OF r(1)] r(2)]
      by (subst next_segment_eq(2) [OF r(1)]) auto
  qed (auto dest: set_takeWhileD)
qed

lemma filter_valid_loop_literal:
  assumes "list_all (\<lambda>c. is_valid_topic_char c False) l"
  shows "filter_valid_loop b (l @ cs) = filter_valid_loop b cs"
  using assms by (induction l) (auto simp: is_valid_topic_char_def split: if_splits)



text \<open>A trailing separator in a filter is ignored: every topic name that does not end in a
  separator matches the filter made of it and a final \<open>/\<close>, although that filter has one more
  (empty) level and section 4.7 does not match them.\<close>

theorem trailing_separator_matches:
  assumes "topic_valid topic" and "last (levels topic) \<noteq> []"
  shows "topic_matches_filter topic (topic @ [c_slash])
    \<and> \<not> level_match (levels topic) (levels (topic @ [c_slash]))"
proof -
  have "[c_hash] \<notin> set (levels topic)"
    using levels_subset [of "[c_hash]" topic] topic_valid_no_wildcard [OF assms(1)] by auto
  then have "\<not> level_match (levels topic) (levels (topic @ [c_slash]))"
    using level_match_length [of "levels topic" "levels (topic @ [c_slash])"]
    by (auto simp: levels_snoc)
  with trailing_separator [of topic] topic_valid_no_wildcard [OF assms(1)] assms(2) show ?thesis
    by simp
qed

theorem trailing_separator_matches_witness:
  "topic_matches_filter (ascii ''a'') (ascii ''a/'')
   \<and> \<not> level_match (levels (ascii ''a'')) (levels (ascii ''a/''))"
proof -
  have "topic_valid (ascii ''a'')" "last (levels (ascii ''a'')) \<noteq> []"
    and e: "ascii ''a'' @ [c_slash] = ascii ''a/''"
    and n: "\<not> level_match (levels (ascii ''a'')) (levels (ascii ''a/''))"
    by code_simp+
  from trailing_separator_matches [OF this(1,2)] e n show ?thesis by simp
qed

text \<open>The filter check admits wildcards that do not occupy a whole level: any text of
  ordinary topic characters followed directly by \<open>+\<close> or \<open>#\<close> is accepted, and so is \<open>#\<close> in a level
  that is not the last one.\<close>

theorem filter_valid_admits_partial_wildcards:
  assumes "l \<noteq> []" and "list_all (\<lambda>c. is_valid_topic_char c False) l"
  shows "filter_valid (l @ [c_plus]) \<and> filter_valid (l @ [c_hash])
    \<and> filter_valid ([c_hash, c_slash] @ l)"
  using assms filter_valid_loop_literal [OF assms(2), of _ "[]"]
  by (auto simp: filter_valid_def filter_valid_loop_literal is_valid_topic_char_def peek_char_def)

theorem filter_valid_admits_partial_wildcards_witness:
  "filter_valid (ascii ''a+'') \<and> \<not> wildcards_alone (levels (ascii ''a+''))"
proof -
  have "ascii ''a'' \<noteq> []" "list_all (\<lambda>c. is_valid_topic_char c False) (ascii ''a'')"
    and e: "ascii ''a'' @ [c_plus] = ascii ''a+''"
    and n: "\<not> wildcards_alone (levels (ascii ''a+''))"
    by code_simp+
  from filter_valid_admits_partial_wildcards [OF this(1,2)] e n show ?thesis by simp
qed

end
