(* ===== verification/Subscription_Options.thy ===== *)
theory Subscription_Options
  imports Broker_Prelude
begin

text \<open>
  Subscription options (\<open>subscription_options.cpp\<close>): validation of the options byte of a
  SUBSCRIBE and the plan that merges all subscriptions of one session that match a publish. The
  bit fields of \<open>SubscriptionOptions\<close> are bytes that hold the decoded field.
\<close>

record SubscriptionOptions =
  so_max_qos :: u8
  so_no_local :: u8
  so_retain_as_published :: u8
  so_retain_handling :: u8

record SubscriptionMatch =
  sm_max_qos :: u8
  sm_options :: SubscriptionOptions
  sm_session_id :: u16

record DeliveryPlan =
  dp_deliver :: bool
  dp_effective_qos :: u8
  dp_retain_as_published :: bool
  dp_retain_handling :: u8

definition subscription_options_valid :: "u8 \<Rightarrow> bool" where
  "subscription_options_valid options_byte =
     (let rh = drop_bit 4 options_byte AND 0x03;
          reserved = drop_bit 6 options_byte AND 0x03
      in reserved = 0 \<and> rh \<le> 2)"

definition no_plan :: DeliveryPlan where
  "no_plan = \<lparr>dp_deliver = False, dp_effective_qos = 0, dp_retain_as_published = False,
     dp_retain_handling = 0\<rparr>"

definition ineligible :: "u16 \<Rightarrow> SubscriptionMatch \<Rightarrow> bool" where
  "ineligible publisher_session m \<longleftrightarrow>
     so_no_local (sm_options m) \<noteq> 0 \<and> sm_session_id m = publisher_session"

text \<open>One turn of the loop on \<open>(max_eligible_qos, any_eligible, any_rap, rh_min)\<close>.\<close>

fun plan_step ::
  "u16 \<Rightarrow> SubscriptionMatch \<Rightarrow> u8 \<times> bool \<times> bool \<times> u8 \<Rightarrow> u8 \<times> bool \<times> bool \<times> u8"
where
  "plan_step publisher_session m (max_eligible_qos, any_eligible, any_rap, rh_min) =
     (if ineligible publisher_session m then (max_eligible_qos, any_eligible, any_rap, rh_min)
      else (max max_eligible_qos (sm_max_qos m), True,
            (if so_retain_as_published (sm_options m) \<noteq> 0 then True else any_rap),
            (if so_retain_handling (sm_options m) < rh_min
             then so_retain_handling (sm_options m) else rh_min)))"

definition compute_delivery_plan :: "u8 \<Rightarrow> u16 \<Rightarrow> SubscriptionMatch list \<Rightarrow> DeliveryPlan" where
  "compute_delivery_plan publish_qos publisher_session ms =
     (if ms = [] then no_plan
      else
        let (max_eligible_qos, any_eligible, any_rap, rh_min) =
              fold (plan_step publisher_session) ms (0, False, False, 3)
        in if \<not> any_eligible then no_plan
           else \<lparr>dp_deliver = True, dp_effective_qos = min publish_qos max_eligible_qos,
                 dp_retain_as_published = any_rap, dp_retain_handling = rh_min\<rparr>)"

section \<open>What the plan computes\<close>

lemma fold_plan_step:
  "fold (plan_step pub) ms (q, e, r, h) =
     (let es = filter (\<lambda>m. \<not> ineligible pub m) ms
      in (Max (insert q (set (map sm_max_qos es))), e \<or> es \<noteq> [],
          r \<or> (\<exists>m \<in> set es. so_retain_as_published (sm_options m) \<noteq> 0),
          Min (insert h (set (map (\<lambda>m. so_retain_handling (sm_options m)) es)))))"
proof (induction ms arbitrary: q e r h)
  case (Cons m ms)
  have mx: "Max (insert (max q x) A) = Max (insert q (insert x A))" if "finite A" for x A
    using that by (cases "A = {}") (auto simp: Max_insert ac_simps)
  have mn: "Min (insert (if x < h then x else h) A) = Min (insert h (insert x A))"
    if "finite A" for x A
    using that by (cases "A = {}") (auto simp: Min_insert min_def)
  show ?case
    by (auto simp: Cons.IH Let_def mx mn)
qed simp

text \<open>Claim C20. The delivery plan of a session merges exactly the eligible matches (those not excluded
  by No Local): it delivers exactly when one exists, the effective QoS is the smaller of the
  publish QoS and the largest granted QoS among them, retain-as-published is set when one of them
  sets it, and the retain handling is the least of theirs (at most 3); the order of the matches
  does not matter.\<close>

theorem delivery_plan_merge:
  "(let es = filter (\<lambda>m. \<not> ineligible pub m) ms; plan = compute_delivery_plan qos pub ms
    in (dp_deliver plan \<longleftrightarrow> es \<noteq> [])
     \<and> (if es = [] then plan = no_plan
        else dp_effective_qos plan = min qos (Max (sm_max_qos ` set es))
          \<and> (dp_retain_as_published plan \<longleftrightarrow>
               (\<exists>m. m \<in> set es \<and> so_retain_as_published (sm_options m) \<noteq> 0))
          \<and> dp_retain_handling plan = Min (insert 3 ((\<lambda>m. so_retain_handling (sm_options m)) ` set es))))"
proof -
  define es where "es = filter (\<lambda>m. \<not> ineligible pub m) ms"
  have "Max (insert 0 (sm_max_qos ` set es)) = Max (sm_max_qos ` set es)" if "es \<noteq> []"
    using that by (simp add: Max_insert max_def)
  moreover have "es \<noteq> [] \<Longrightarrow> ms \<noteq> []" by (auto simp: es_def)
  ultimately show ?thesis
    unfolding Let_def es_def [symmetric] compute_delivery_plan_def fold_plan_step
    by (auto simp: no_plan_def)
qed

end
