(* ===== verification/Topic_Trie.thy ===== *)
theory Topic_Trie
  imports Topic_Names Subscription_Options Mqtt_Types
begin

text \<open>
  The subscription trie (\<open>topic_trie.cpp\<close>): nodes for path segments in an array, linked by
  \<open>first_child\<close>/\<open>next_sibling\<close>, subscriptions in a second array, linked by \<open>next\<close> from the node of
  their filter. The walks along these links take the array size as fuel (\<open>None\<close> when they do not
  end).

  A stored filter is a C string; the constructor leaves the 256-byte buffer uninitialised and
  \<open>strncpy\<close> copies at most 255 bytes, so a filter of 255 bytes or more is stored cut to 255 (the
  terminator is assumed to be there).
\<close>

section \<open>State\<close>

record Node =
  nd_segment :: "byte list"
  nd_first_child :: u16
  nd_next_sibling :: u16
  nd_first_sub :: u16
  nd_terminal :: bool
  nd_is_wildcard_plus :: bool
  nd_is_wildcard_hash :: bool

record SubEntry =
  se_sub_id :: u16
  se_session_id :: u16
  se_max_qos :: u8
  se_options_byte :: u8
  se_node_id :: u16
  se_next :: u16
  se_filter :: "byte list"
  se_in_use :: bool

record TopicTrie =
  tt_nodes :: "Node list"
  tt_node_count :: nat
  tt_root :: u16
  tt_subs :: "SubEntry list"
  tt_next_sub_id :: u16

record TopicSubscription =
  ts_sub_id :: u16
  ts_session_id :: u16
  ts_max_qos :: u8
  ts_options_byte :: u8

section \<open>Operations\<close>

definition alloc_node :: "TopicTrie \<Rightarrow> u16 \<times> TopicTrie" where
  "alloc_node t =
     (if tt_node_count t \<ge> length (tt_nodes t) then (0xFFFF, t)
      else let id = of_nat (tt_node_count t)
        in (id, t\<lparr>tt_node_count := tt_node_count t + 1,
                  tt_nodes := (tt_nodes t)[unat id := (tt_nodes t ! unat id)\<lparr>nd_first_child := 0xFFFF,
                    nd_next_sibling := 0xFFFF, nd_first_sub := 0xFFFF\<rparr>]\<rparr>))"

definition node_zero :: Node where
  "node_zero = \<lparr>nd_segment = [], nd_first_child = 0, nd_next_sibling = 0, nd_first_sub = 0,
     nd_terminal = False, nd_is_wildcard_plus = False, nd_is_wildcard_hash = False\<rparr>"

definition sub_unused :: SubEntry where
  "sub_unused = \<lparr>se_sub_id = 0, se_session_id = 0, se_max_qos = 0, se_options_byte = 0,
     se_node_id = 0, se_next = 0, se_filter = [], se_in_use = False\<rparr>"

definition TopicTrie_new :: "nat \<Rightarrow> nat \<Rightarrow> TopicTrie" where
  "TopicTrie_new max_nodes max_subscriptions =
     (let (root, t) = alloc_node \<lparr>tt_nodes = replicate max_nodes node_zero, tt_node_count = 0,
            tt_root = 0, tt_subs = replicate max_subscriptions sub_unused, tt_next_sub_id = 1\<rparr>
      in t\<lparr>tt_root := root\<rparr>)"

text \<open>The nodes of a sibling chain; \<open>None\<close> when the chain does not end.\<close>

primrec siblings :: "nat \<Rightarrow> Node list \<Rightarrow> u16 \<Rightarrow> u16 list option" where
  "siblings 0 ns child = (if child \<noteq> 0xFFFF then None else Some [])"
| "siblings (Suc fuel) ns child =
     (if child \<noteq> 0xFFFF
      then map_option (\<lambda>cs. child # cs) (siblings fuel ns (nd_next_sibling (ns ! unat child)))
      else Some [])"

definition child_matches :: "byte list \<Rightarrow> bool \<Rightarrow> bool \<Rightarrow> Node \<Rightarrow> bool" where
  "child_matches segment is_plus is_hash n \<longleftrightarrow>
     is_plus \<and> nd_is_wildcard_plus n \<or> is_hash \<and> nd_is_wildcard_hash n
     \<or> \<not> is_plus \<and> \<not> is_hash \<and> nd_segment n = segment"

definition add_child :: "u16 \<Rightarrow> byte list \<Rightarrow> bool \<Rightarrow> bool \<Rightarrow> TopicTrie \<Rightarrow> u16 \<times> TopicTrie" where
  "add_child parent segment is_plus is_hash t =
     (let (id, t1) = alloc_node t
      in if id = 0xFFFF then (id, t1)
         else
           let n = tt_nodes t1 ! unat id;
               n' = n\<lparr>nd_segment := (if \<not> is_plus \<and> \<not> is_hash then take 255 segment else nd_segment n),
                     nd_is_wildcard_plus := is_plus, nd_is_wildcard_hash := is_hash,
                     nd_next_sibling := nd_first_child (tt_nodes t1 ! unat parent)\<rparr>;
               ns = (tt_nodes t1)[unat id := n']
           in (id, t1\<lparr>tt_nodes := ns[unat parent := (ns ! unat parent)\<lparr>nd_first_child := id\<rparr>]\<rparr>))"

definition find_or_add_child ::
  "u16 \<Rightarrow> byte list \<Rightarrow> bool \<Rightarrow> bool \<Rightarrow> TopicTrie \<Rightarrow> (u16 \<times> TopicTrie) option"
where
  "find_or_add_child parent segment is_plus is_hash t =
     (case siblings (length (tt_nodes t)) (tt_nodes t) (nd_first_child (tt_nodes t ! unat parent)) of
        None \<Rightarrow> None
      | Some cs \<Rightarrow>
          (case find (\<lambda>c. child_matches segment is_plus is_hash (tt_nodes t ! unat c)) cs of
             Some c \<Rightarrow> Some (c, t)
           | None \<Rightarrow> Some (add_child parent segment is_plus is_hash t)))"

text \<open>The outcome of the walk down the filter: the node reached, or \<open>None\<close> for \<open>return false\<close>.\<close>

function walk_filter :: "byte list \<Rightarrow> u16 \<Rightarrow> TopicTrie \<Rightarrow> (u16 option \<times> TopicTrie) option" where
  "walk_filter cur node t =
     (if cur = [] then Some (Some node, t)
      else
        let is_plus = hd cur = c_plus; is_hash = hd cur = c_hash; len = segment_len cur
        in if \<not> is_plus \<and> \<not> is_hash \<and> len \<ge> 256 then Some (None, t)
           else case find_or_add_child node (if \<not> is_plus \<and> \<not> is_hash then take len cur else []) is_plus is_hash t of
               None \<Rightarrow> None
             | Some (node', t') \<Rightarrow>
                 if node' = 0xFFFF then Some (None, t')
                 else
                   let t'' = t'\<lparr>tt_nodes := (tt_nodes t')[unat node' :=
                         (tt_nodes t' ! unat node')\<lparr>nd_terminal := True\<rparr>]\<rparr>
                   in case next_segment cur of
                        None \<Rightarrow> Some (Some node', t'')
                      | Some r \<Rightarrow> walk_filter r node' t'')"
  by pat_completeness auto
termination
  by (relation "measure (\<lambda>(cur, node, t). length cur)") (auto dest: next_segment_shorter)

declare walk_filter.simps [simp del]

record SubscribeResult =
  sr_ok :: bool
  sr_sub_id :: u16
  sr_existed :: bool

text \<open>\<open>sr_sub_id\<close> is 0 where \<open>out_sub_id\<close> is not written.\<close>

definition trie_subscribe ::
  "byte list \<Rightarrow> u16 \<Rightarrow> u8 \<Rightarrow> u8 \<Rightarrow> TopicTrie \<Rightarrow> (SubscribeResult \<times> TopicTrie) option"
where
  "trie_subscribe flt session_id max_qos options_byte t =
     (let failed = \<lparr>sr_ok = False, sr_sub_id = 0, sr_existed = False\<rparr> in
      if \<not> filter_valid flt \<or> \<not> subscription_options_valid options_byte then Some (failed, t)
      else
        case first_idx (\<lambda>s. se_in_use s \<and> se_session_id s = session_id \<and> se_filter s = flt)
               (tt_subs t) of
          Some i \<Rightarrow>
            Some (\<lparr>sr_ok = True, sr_sub_id = se_sub_id (tt_subs t ! i), sr_existed = True\<rparr>,
                  t\<lparr>tt_subs := (tt_subs t)[i := (tt_subs t ! i)\<lparr>se_max_qos := max_qos,
                       se_options_byte := options_byte\<rparr>]\<rparr>)
        | None \<Rightarrow>
            (case first_idx (\<lambda>s. \<not> se_in_use s) (tt_subs t) of
               None \<Rightarrow> Some (failed, t)
             | Some free \<Rightarrow>
                 (case walk_filter flt (tt_root t) t of
                    None \<Rightarrow> None
                  | Some (None, t') \<Rightarrow> Some (failed, t')
                  | Some (Some node, t') \<Rightarrow>
                      let sid = tt_next_sub_id t' in
                      Some (\<lparr>sr_ok = True, sr_sub_id = sid, sr_existed = False\<rparr>,
                        t'\<lparr>tt_next_sub_id := sid + 1,
                           tt_subs := (tt_subs t')[free := \<lparr>se_sub_id = sid,
                             se_session_id = session_id, se_max_qos = max_qos,
                             se_options_byte = options_byte, se_node_id = node,
                             se_next = nd_first_sub (tt_nodes t' ! unat node),
                             se_filter = take 255 flt, se_in_use = True\<rparr>],
                           tt_nodes := (tt_nodes t')[unat node :=
                             (tt_nodes t' ! unat node)\<lparr>nd_first_sub := of_nat free\<rparr>]\<rparr>))))"

text \<open>
  The loop of \<open>unlink_sub\<close>: \<open>prev\<close> is the link that \<open>cur\<close> points at, \<open>None\<close> for \<open>first_sub\<close> of
  the node and \<open>Some s\<close> for \<open>next\<close> of entry \<open>s\<close>; \<open>hops\<close> counts down from \<open>sub_cap\<close>.
\<close>

primrec unlink_loop ::
  "nat \<Rightarrow> u16 \<Rightarrow> u16 option \<Rightarrow> u16 \<Rightarrow> nat \<Rightarrow> TopicTrie \<Rightarrow> TopicTrie"
where
  "unlink_loop 0 cur prev sl node t = t"
| "unlink_loop (Suc hops) cur prev sl node t =
     (if cur = 0xFFFF then t
      else if cur = sl then
        (case prev of
           None \<Rightarrow> t\<lparr>tt_nodes := (tt_nodes t)[node :=
                     (tt_nodes t ! node)\<lparr>nd_first_sub := se_next (tt_subs t ! unat sl)\<rparr>]\<rparr>
         | Some s \<Rightarrow> t\<lparr>tt_subs := (tt_subs t)[unat s :=
                     (tt_subs t ! unat s)\<lparr>se_next := se_next (tt_subs t ! unat sl)\<rparr>]\<rparr>)
      else unlink_loop hops (se_next (tt_subs t ! unat cur)) (Some cur) sl node t)"

definition unlink_sub :: "nat \<Rightarrow> TopicTrie \<Rightarrow> TopicTrie" where
  "unlink_sub sl t =
     (let node = se_node_id (tt_subs t ! sl);
          t' = (if node = 0xFFFF \<or> unat node \<ge> length (tt_nodes t) then t
                else unlink_loop (length (tt_subs t)) (nd_first_sub (tt_nodes t ! unat node)) None
                       (of_nat sl) (unat node) t)
      in t'\<lparr>tt_subs := (tt_subs t')[sl := (tt_subs t' ! sl)\<lparr>se_next := 0xFFFF\<rparr>]\<rparr>)"

definition drop_sub :: "nat \<Rightarrow> TopicTrie \<Rightarrow> TopicTrie" where
  "drop_sub i t =
     (let t' = unlink_sub i t
      in t'\<lparr>tt_subs := (tt_subs t')[i := (tt_subs t' ! i)\<lparr>se_in_use := False\<rparr>]\<rparr>)"

definition trie_unsubscribe :: "byte list \<Rightarrow> u16 \<Rightarrow> TopicTrie \<Rightarrow> bool \<times> TopicTrie" where
  "trie_unsubscribe flt session_id t =
     (case first_idx (\<lambda>s. se_in_use s \<and> se_session_id s = session_id \<and> se_filter s = flt)
             (tt_subs t) of
        Some i \<Rightarrow> (True, drop_sub i t)
      | None \<Rightarrow> (False, t))"

definition subscription_count :: "TopicTrie \<Rightarrow> nat" where
  "subscription_count t = length (filter se_in_use (tt_subs t))"

definition unsubscribe_all :: "u16 \<Rightarrow> TopicTrie \<Rightarrow> TopicTrie" where
  "unsubscribe_all session_id t =
     fold (\<lambda>i t. if se_in_use (tt_subs t ! i) \<and> se_session_id (tt_subs t ! i) = session_id
                 then drop_sub i t else t)
       [0..<length (tt_subs t)] t"

definition sub_out :: "SubEntry \<Rightarrow> TopicSubscription" where
  "sub_out s = \<lparr>ts_sub_id = se_sub_id s, ts_session_id = se_session_id s,
     ts_max_qos = se_max_qos s, ts_options_byte = se_options_byte s\<rparr>"

text \<open>\<open>while (sid != 0xFFFF && *count < out_cap)\<close> along one node's subscriptions.\<close>

primrec emit_subs ::
  "nat \<Rightarrow> SubEntry list \<Rightarrow> byte list \<Rightarrow> nat \<Rightarrow> u16 \<Rightarrow> TopicSubscription list
     \<Rightarrow> TopicSubscription list option"
where
  "emit_subs 0 subs topic cap sid out =
     (if sid \<noteq> 0xFFFF \<and> length out < cap then None else Some out)"
| "emit_subs (Suc fuel) subs topic cap sid out =
     (if sid \<noteq> 0xFFFF \<and> length out < cap then
        let s = subs ! unat sid
        in emit_subs fuel subs topic cap (se_next s)
             (if se_in_use s \<and> topic_matches_filter topic (se_filter s) then out @ [sub_out s] else out)
      else Some out)"

definition emit_node ::
  "TopicTrie \<Rightarrow> byte list \<Rightarrow> nat \<Rightarrow> u16 \<Rightarrow> TopicSubscription list \<Rightarrow> TopicSubscription list option"
where
  "emit_node t topic cap node out =
     emit_subs (length (tt_subs t)) (tt_subs t) topic cap (nd_first_sub (tt_nodes t ! unat node)) out"

primrec collect_matches ::
  "nat \<Rightarrow> TopicTrie \<Rightarrow> byte list \<Rightarrow> nat \<Rightarrow> u16 \<Rightarrow> byte list option \<Rightarrow> TopicSubscription list
     \<Rightarrow> TopicSubscription list option"
where
  "collect_matches 0 t topic cap node rest out = None"
| "collect_matches (Suc fuel) t topic cap node rest out =
     (if node = 0xFFFF then Some out
      else
        let n = tt_nodes t ! unat node in
        if nd_is_wildcard_hash n then emit_node t topic cap node out
        else
          case (if (rest = None \<or> rest = Some []) \<and> nd_terminal n
                then emit_node t topic cap node out else Some out) of
            None \<Rightarrow> None
          | Some out1 \<Rightarrow>
              let next_rest = (case rest of None \<Rightarrow> None | Some r \<Rightarrow> next_segment r)
              in case siblings (length (tt_nodes t)) (tt_nodes t) (nd_first_child n) of
                   None \<Rightarrow> None
                 | Some cs \<Rightarrow>
                     fold_opt (\<lambda>c out.
                       let m = tt_nodes t ! unat c in
                       if nd_is_wildcard_hash m then
                         collect_matches fuel t topic cap c (Some []) out
                       else if nd_is_wildcard_plus m then
                         collect_matches fuel t topic cap c (Some (seg_or_empty next_rest)) out
                       else case rest of
                           Some r \<Rightarrow>
                             if nd_segment m = take (segment_len r) r
                             then collect_matches fuel t topic cap c next_rest out
                             else Some out
                         | None \<Rightarrow> Some out) cs out1)"

text \<open>\<open>None\<close>: the descent does not end within one level per node.\<close>

definition trie_match :: "TopicTrie \<Rightarrow> byte list \<Rightarrow> nat \<Rightarrow> TopicSubscription list option" where
  "trie_match t topic out_cap =
     (if \<not> topic_valid topic then Some []
      else collect_matches (length (tt_nodes t) + 1) t topic out_cap (tt_root t) (Some topic) [])"

end
