(* ===== verification/Message_Pool.thy ===== *)
theory Message_Pool
  imports Mqtt_Types
begin

text \<open>
  The reference-counted payload pool (\<open>message_pool.cpp\<close>): slots stamped with a generation, a
  block arena with an intrusive free list, and payloads chained across blocks. The three loops
  that follow \<open>Block::next\<close> (\<open>tail_block\<close>, the release walk and \<open>read_payload\<close>) would not end on
  a cyclic chain, so each is given the number of blocks as fuel and returns \<open>None\<close> when it runs
  out; under the pool invariant \<open>mp_inv\<close> no chain is longer than the arena, so the fuel is always
  enough (\<open>tail_block_linked\<close>, \<open>release_chain_linked\<close>, \<open>read_chain_linked\<close>).

  The invariant and the properties are in \<open>Message_Pool_Inv\<close>. The three allocations of the
  constructor are assumed to succeed: the code keeps the counts of a failed allocation and then
  dereferences null. The null-pointer tests on \<open>data\<close> and \<open>out\<close> have no counterpart.
\<close>

section \<open>State\<close>

definition kMessagePropsCapacity :: nat where
  "kMessagePropsCapacity = 256"

record Slot =
  sl_generation :: u16
  sl_ref_count :: u16
  sl_payload_len :: u32
  sl_first_block :: u16
  sl_block_count :: u16
  sl_in_use :: bool
  sl_props_len :: u16
  sl_expiry_interval :: u32
  sl_publish_tick :: u32
  sl_props :: "byte list"

record Block =
  bk_in_use :: bool
  bk_next :: u16

record MessagePool =
  mp_block_size :: nat
  mp_block_count :: nat
  mp_slots :: "Slot list"
  mp_blocks :: "Block list"
  mp_block_data :: "byte list"
  mp_free_block_head :: u16
  mp_blocks_allocated :: nat
  mp_blocks_free :: nat

section \<open>Operations\<close>

text \<open>A slot as the constructor leaves it; memory that is not initialised is shown as zeros.\<close>

definition slot_init :: Slot where
  "slot_init = \<lparr>sl_generation = 1, sl_ref_count = 0, sl_payload_len = 0, sl_first_block = 0xFFFF,
     sl_block_count = 0, sl_in_use = False, sl_props_len = 0, sl_expiry_interval = 0,
     sl_publish_tick = 0, sl_props = replicate kMessagePropsCapacity 0\<rparr>"

definition MessagePool_new :: "nat \<Rightarrow> nat \<Rightarrow> nat \<Rightarrow> MessagePool" where
  "MessagePool_new block_size block_count slot_count =
     \<lparr>mp_block_size = block_size, mp_block_count = block_count,
      mp_slots = replicate (if slot_count \<noteq> 0 then slot_count else block_count) slot_init,
      mp_blocks = map (\<lambda>i. \<lparr>bk_in_use = False,
          bk_next = (if i + 1 < block_count then of_nat (i + 1) else 0xFFFF)\<rparr>) [0..<block_count],
      mp_block_data = replicate (block_count * block_size) 0,
      mp_free_block_head = (if block_count > 0 then 0 else 0xFFFF),
      mp_blocks_allocated = 0, mp_blocks_free = block_count\<rparr>"

definition acquire_empty :: "MessagePool \<Rightarrow> MessageHandle \<times> MessagePool" where
  "acquire_empty p =
     (case first_idx (\<lambda>s. \<not> sl_in_use s) (mp_slots p) of
        None \<Rightarrow> (NULL_MESSAGE, p)
      | Some i \<Rightarrow>
          let s = (mp_slots p ! i)\<lparr>sl_in_use := True, sl_ref_count := 1, sl_payload_len := 0,
                sl_first_block := 0xFFFF, sl_block_count := 0, sl_props_len := 0,
                sl_expiry_interval := 0, sl_publish_tick := 0\<rparr>
          in (\<lparr>slot = of_nat i, generation = sl_generation s\<rparr>,
              p\<lparr>mp_slots := (mp_slots p)[i := s]\<rparr>))"

abbreviation mp_slot :: "MessagePool \<Rightarrow> MessageHandle \<Rightarrow> Slot" where
  "mp_slot p h \<equiv> mp_slots p ! unat (slot h)"

abbreviation set_mp_slot :: "MessageHandle \<Rightarrow> Slot \<Rightarrow> MessagePool \<Rightarrow> MessagePool" where
  "set_mp_slot h s p \<equiv> p\<lparr>mp_slots := (mp_slots p)[unat (slot h) := s]\<rparr>"

definition msg_valid :: "MessagePool \<Rightarrow> MessageHandle \<Rightarrow> bool" where
  "msg_valid p h \<longleftrightarrow>
     message_handle_valid h \<and> unat (slot h) < length (mp_slots p)
     \<and> sl_in_use (mp_slot p h) \<and> sl_generation (mp_slot p h) = generation h"

definition msg_acquire :: "MessageHandle \<Rightarrow> MessagePool \<Rightarrow> bool \<times> MessagePool" where
  "msg_acquire h p =
     (if \<not> msg_valid p h then (False, p)
      else let s = mp_slot p h
        in if sl_ref_count s = 0xFFFF then (False, p)
           else (True, set_mp_slot h (s\<lparr>sl_ref_count := sl_ref_count s + 1\<rparr>) p))"

text \<open>One turn of the release walk: block \<open>i\<close> goes to the front of the free list.\<close>

definition free_block :: "nat \<Rightarrow> MessagePool \<Rightarrow> MessagePool" where
  "free_block i p =
     p\<lparr>mp_blocks := (mp_blocks p)[i := \<lparr>bk_in_use = False, bk_next = mp_free_block_head p\<rparr>],
       mp_free_block_head := of_nat i,
       mp_blocks_allocated := mp_blocks_allocated p - 1,
       mp_blocks_free := mp_blocks_free p + 1\<rparr>"

primrec release_chain :: "nat \<Rightarrow> u16 \<Rightarrow> MessagePool \<Rightarrow> MessagePool option" where
  "release_chain 0 blk p =
     (if blk \<noteq> 0xFFFF \<and> unat blk < mp_block_count p then None else Some p)"
| "release_chain (Suc fuel) blk p =
     (if blk \<noteq> 0xFFFF \<and> unat blk < mp_block_count p
      then release_chain fuel (bk_next (mp_blocks p ! unat blk)) (free_block (unat blk) p)
      else Some p)"

definition slot_freed :: "Slot \<Rightarrow> Slot" where
  "slot_freed s = s\<lparr>sl_in_use := False, sl_ref_count := 0, sl_payload_len := 0,
     sl_first_block := 0xFFFF, sl_block_count := 0, sl_props_len := 0, sl_expiry_interval := 0,
     sl_publish_tick := 0, sl_generation := bump_generation (sl_generation s)\<rparr>"

definition msg_release :: "MessageHandle \<Rightarrow> MessagePool \<Rightarrow> MessagePool" where
  "msg_release h p =
     (if \<not> msg_valid p h then p
      else let s = mp_slot p h
        in if sl_ref_count s = 0 then p
           else if sl_ref_count s - 1 > 0 then
             set_mp_slot h (s\<lparr>sl_ref_count := sl_ref_count s - 1\<rparr>) p
           else case release_chain (mp_block_count p) (sl_first_block s) p of
               None \<Rightarrow> p
             | Some p' \<Rightarrow> set_mp_slot h (slot_freed s) p')"

definition set_props :: "MessageHandle \<Rightarrow> byte list \<Rightarrow> MessagePool \<Rightarrow> bool \<times> MessagePool" where
  "set_props h data p =
     (if \<not> msg_valid p h \<or> length data > kMessagePropsCapacity then (False, p)
      else let s = mp_slot p h
        in (True, set_mp_slot h (s\<lparr>sl_props := write_at 0 data (sl_props s),
                                  sl_props_len := of_nat (length data)\<rparr>) p))"

text \<open>\<open>None\<close> is the null pointer (with length 0).\<close>

definition msg_props :: "MessagePool \<Rightarrow> MessageHandle \<Rightarrow> byte list option" where
  "msg_props p h =
     (if \<not> msg_valid p h \<or> sl_props_len (mp_slot p h) = 0 then None
      else Some (take (unat (sl_props_len (mp_slot p h))) (sl_props (mp_slot p h))))"

definition set_expiry :: "MessageHandle \<Rightarrow> u32 \<Rightarrow> u32 \<Rightarrow> MessagePool \<Rightarrow> MessagePool" where
  "set_expiry h interval_sec publish_tick p =
     (if \<not> msg_valid p h then p
      else set_mp_slot h ((mp_slot p h)\<lparr>sl_expiry_interval := interval_sec,
                                       sl_publish_tick := publish_tick\<rparr>) p)"

definition expiry_interval :: "MessagePool \<Rightarrow> MessageHandle \<Rightarrow> u32" where
  "expiry_interval p h = (if msg_valid p h then sl_expiry_interval (mp_slot p h) else 0)"

definition publish_tick :: "MessagePool \<Rightarrow> MessageHandle \<Rightarrow> u32" where
  "publish_tick p h = (if msg_valid p h then sl_publish_tick (mp_slot p h) else 0)"

definition msg_ref_count :: "MessagePool \<Rightarrow> MessageHandle \<Rightarrow> u16" where
  "msg_ref_count p h = (if msg_valid p h then sl_ref_count (mp_slot p h) else 0)"

primrec tail_block :: "nat \<Rightarrow> Block list \<Rightarrow> u16 \<Rightarrow> u16 option" where
  "tail_block 0 bs cur =
     (if cur \<noteq> 0xFFFF \<and> bk_next (bs ! unat cur) \<noteq> 0xFFFF then None else Some cur)"
| "tail_block (Suc fuel) bs cur =
     (if cur \<noteq> 0xFFFF \<and> bk_next (bs ! unat cur) \<noteq> 0xFFFF
      then tail_block fuel bs (bk_next (bs ! unat cur))
      else Some cur)"

text \<open>Block \<open>blk\<close> becomes the last block of the chain that starts at \<open>first\<close>; the result also has
  the new head of the chain.\<close>

definition link_block :: "nat \<Rightarrow> Block list \<Rightarrow> u16 \<Rightarrow> u16 \<Rightarrow> (Block list \<times> u16) option" where
  "link_block fuel bs first blk =
     (if first = 0xFFFF then Some (bs, blk)
      else case tail_block fuel bs first of
          None \<Rightarrow> None
        | Some cur \<Rightarrow> Some (bs[unat cur := (bs ! unat cur)\<lparr>bk_next := blk\<rparr>], first))"

definition append_block :: "MessageHandle \<Rightarrow> byte list \<Rightarrow> MessagePool \<Rightarrow> bool \<times> MessagePool" where
  "append_block h data p =
     (if \<not> msg_valid p h \<or> length data = 0 \<or> length data > mp_block_size p then (False, p)
      else if mp_free_block_head p = 0xFFFF then (False, p)
      else
        let blk = mp_free_block_head p;
            head' = bk_next (mp_blocks p ! unat blk);
            blocks' = (mp_blocks p)[unat blk := \<lparr>bk_in_use = True, bk_next = 0xFFFF\<rparr>];
            s = mp_slot p h
        in case link_block (mp_block_count p) blocks' (sl_first_block s) blk of
             None \<Rightarrow> (False, p)
           | Some (blocks'', first) \<Rightarrow>
               (True, p\<lparr>mp_free_block_head := head', mp_blocks := blocks'',
                        mp_block_data :=
                          write_at (unat blk * mp_block_size p) data (mp_block_data p),
                        mp_slots := (mp_slots p)[unat (slot h) :=
                          s\<lparr>sl_first_block := first, sl_block_count := sl_block_count s + 1,
                            sl_payload_len := sl_payload_len s + of_nat (length data)\<rparr>],
                        mp_blocks_allocated := mp_blocks_allocated p + 1,
                        mp_blocks_free := mp_blocks_free p - 1\<rparr>))"

text \<open>The \<open>while (offset < len)\<close> loop on the bytes that remain; every turn takes at least one.\<close>

primrec append_loop :: "nat \<Rightarrow> MessageHandle \<Rightarrow> byte list \<Rightarrow> MessagePool \<Rightarrow> bool \<times> MessagePool"
where
  "append_loop 0 h data p = (data = [], p)"
| "append_loop (Suc fuel) h data p =
     (if data = [] then (True, p)
      else
        let s = mp_slot p h;
            partial = unat (sl_payload_len s) mod mp_block_size p
        in if partial \<noteq> 0 \<and> sl_first_block s \<noteq> 0xFFFF then
             (case tail_block (mp_block_count p) (mp_blocks p) (sl_first_block s) of
                None \<Rightarrow> (False, p)
              | Some tail \<Rightarrow>
                  let chunk = min (length data) (mp_block_size p - partial);
                      p' = p\<lparr>mp_block_data :=
                               write_at (unat tail * mp_block_size p + partial) (take chunk data)
                                 (mp_block_data p),
                             mp_slots := (mp_slots p)[unat (slot h) :=
                               s\<lparr>sl_payload_len := sl_payload_len s + of_nat chunk\<rparr>]\<rparr>
                  in append_loop fuel h (drop chunk data) p')
           else
             let chunk = min (length data) (mp_block_size p);
                 (ok, p') = append_block h (take chunk data) p
             in if ok then append_loop fuel h (drop chunk data) p' else (False, p'))"

definition append_payload :: "MessageHandle \<Rightarrow> byte list \<Rightarrow> MessagePool \<Rightarrow> bool \<times> MessagePool" where
  "append_payload h data p =
     (if \<not> msg_valid p h \<or> data = [] then (False, p) else append_loop (length data) h data p)"

definition payload_size :: "MessagePool \<Rightarrow> MessageHandle \<Rightarrow> nat" where
  "payload_size p h = (if msg_valid p h then unat (sl_payload_len (mp_slot p h)) else 0)"

text \<open>\<open>remaining\<close> is \<open>to_copy - copied\<close>; the bytes copied from this block on are returned.\<close>

primrec read_chain ::
  "nat \<Rightarrow> MessagePool \<Rightarrow> u16 \<Rightarrow> nat \<Rightarrow> nat \<Rightarrow> nat \<Rightarrow> byte list option"
where
  "read_chain 0 p blk pos off remaining =
     (if blk \<noteq> 0xFFFF \<and> unat blk < mp_block_count p \<and> 0 < remaining then None else Some [])"
| "read_chain (Suc fuel) p blk pos off remaining =
     (if blk \<noteq> 0xFFFF \<and> unat blk < mp_block_count p \<and> 0 < remaining then
        let next = bk_next (mp_blocks p ! unat blk)
        in if off \<ge> pos + mp_block_size p
           then read_chain fuel p next (pos + mp_block_size p) off remaining
           else
             let start_in_block = (if off > pos then off - pos else 0);
                 chunk = min remaining (mp_block_size p - start_in_block)
             in map_option
                  (\<lambda>rest. slice (unat blk * mp_block_size p + start_in_block) chunk
                            (mp_block_data p) @ rest)
                  (read_chain fuel p next (pos + mp_block_size p) (off + chunk)
                     (remaining - chunk))
      else Some [])"

definition read_payload :: "MessagePool \<Rightarrow> MessageHandle \<Rightarrow> nat \<Rightarrow> nat \<Rightarrow> byte list" where
  "read_payload p h off cap =
     (if \<not> msg_valid p h \<or> cap = 0 then []
      else let s = mp_slot p h
        in if off \<ge> unat (sl_payload_len s) then []
           else let to_copy = min (unat (sl_payload_len s) - off) cap
             in case read_chain (mp_block_count p) p (sl_first_block s) 0 off to_copy of
                  None \<Rightarrow> [] | Some bs \<Rightarrow> bs)"

text \<open>\<open>None\<close> is the null pointer; otherwise the length written to \<open>out_len\<close> and the memory the
  pointer addresses.\<close>

definition block_data :: "MessagePool \<Rightarrow> MessageHandle \<Rightarrow> (nat \<times> byte list) option" where
  "block_data p h =
     (if \<not> msg_valid p h then None
      else if sl_first_block (mp_slot p h) = 0xFFFF then None
      else Some (unat (sl_payload_len (mp_slot p h)),
                 drop (unat (sl_first_block (mp_slot p h)) * mp_block_size p) (mp_block_data p)))"

end
