(* ===== verification/Ref_Counting.thy ===== *)
theory Ref_Counting
  imports Mqtt_Types
begin

text \<open>
  The contract of the reference-counted pools (\<open>MessagePool\<close> and \<open>TopicInternPool\<close>), as the
  broker relies on it: an acquire that succeeds adds one reference to its handle and touches no
  other, a release takes one away, and a handle is valid exactly while it has a reference.
  \<open>room\<close> is the condition under which the counter of a handle can still be incremented.
\<close>

locale ref_counted =
  fixes invar :: "'s \<Rightarrow> bool"
    and valid :: "'s \<Rightarrow> Handle \<Rightarrow> bool"
    and rc :: "'s \<Rightarrow> Handle \<Rightarrow> nat"
    and room :: "'s \<Rightarrow> Handle \<Rightarrow> bool"
    and acq :: "Handle \<Rightarrow> 's \<Rightarrow> bool \<times> 's"
    and rel :: "Handle \<Rightarrow> 's \<Rightarrow> 's"
  assumes valid_rc: "invar s \<Longrightarrow> valid s h \<longleftrightarrow> 0 < rc s h"
    and acq_ok: "invar s \<Longrightarrow> room s h \<Longrightarrow> acq h s = (True, s') \<Longrightarrow>
      invar s' \<and> valid s h \<and> rc s' k = rc s k + (if k = h then 1 else 0)"
    and acq_fail: "acq h s = (False, s') \<Longrightarrow> s' = s"
    and rel_rc: "invar s \<Longrightarrow> invar (rel h s) \<and> rc (rel h s) k = rc s k - (if k = h then 1 else 0)"
begin

text \<open>Taking a reference and giving it back leaves every count as it was.\<close>

lemma acquire_release:
  assumes "invar s" and "room s h" and "acq h s = (True, s')"
  shows "rc (rel h s') k = rc s k \<and> valid (rel h s') k = valid s k"
proof -
  have "invar s'" using acq_ok [OF assms, of k] by simp
  with rel_rc [of s' h k] acq_ok [OF assms, of k] valid_rc assms(1) show ?thesis by auto
qed

text \<open>Releases: a handle stays valid until its last reference is released.\<close>

lemma release_many:
  assumes "invar s"
  shows "invar (fold rel hs s) \<and> rc (fold rel hs s) k = rc s k - count_list hs k"
  using assms
proof (induction hs arbitrary: s)
  case (Cons h hs)
  with rel_rc [OF Cons.prems, of h k] show ?case by auto
qed simp

lemma release_valid:
  assumes "invar s"
  shows "valid (fold rel hs s) k \<longleftrightarrow> count_list hs k < rc s k"
  using release_many [OF assms, of hs k] valid_rc [of "fold rel hs s" k] by auto

end

end
