(* ===== verification/Message_Pool_Inv.thy ===== *)
theory Message_Pool_Inv
  imports Message_Pool Ref_Counting
begin

text \<open>
  The correctness of the payload pool. \<open>mp_inv\<close>: the free list and the block chains of the slots
  partition the arena, the counters are exact and a slot's length fits its chain. Every operation
  keeps it; on it, \<open>append_payload\<close> and \<open>read_payload\<close> behave as list append and slice on
  \<open>msg_content\<close>, and the reference counting satisfies the contract \<open>ref_counted\<close>
  (interpretation \<open>mp\<close>).
\<close>

section \<open>Chains and the pool invariant\<close>

text \<open>\<open>linked bs p as\<close>: following \<open>next\<close> from \<open>p\<close> visits exactly the blocks \<open>as\<close>.\<close>

primrec linked :: "Block list \<Rightarrow> u16 \<Rightarrow> nat list \<Rightarrow> bool" where
  "linked bs p [] \<longleftrightarrow> p = nil16"
| "linked bs p (a # as) \<longleftrightarrow> p = of_nat a \<and> a < length bs \<and> linked bs (bk_next (bs ! a)) as"

primrec chain_of :: "nat \<Rightarrow> Block list \<Rightarrow> u16 \<Rightarrow> nat list" where
  "chain_of 0 bs p = []"
| "chain_of (Suc fuel) bs p =
     (if unat p < length bs then unat p # chain_of fuel bs (bk_next (bs ! unat p)) else [])"

definition free_list :: "MessagePool \<Rightarrow> nat list" where
  "free_list p = chain_of (mp_block_count p) (mp_blocks p) (mp_free_block_head p)"

definition slot_chain :: "MessagePool \<Rightarrow> nat \<Rightarrow> nat list" where
  "slot_chain p i = chain_of (mp_block_count p) (mp_blocks p) (sl_first_block (mp_slots p ! i))"

text \<open>A slot and its chain: a free slot has no chain and an empty payload, a used one is
  referenced, and a payload of \<open>n\<close> bytes occupies \<open>n\<close> divided by the block size, rounded up.\<close>

definition slot_ok :: "nat \<Rightarrow> Slot \<Rightarrow> nat list \<Rightarrow> bool" where
  "slot_ok bsz s c \<longleftrightarrow>
     sl_generation s \<noteq> 0 \<and> length (sl_props s) = kMessagePropsCapacity
     \<and> (sl_in_use s \<longleftrightarrow> sl_ref_count s \<noteq> 0) \<and> (\<not> sl_in_use s \<longrightarrow> sl_payload_len s = 0)
     \<and> sl_block_count s = of_nat (length c)
     \<and> unat (sl_payload_len s) \<le> length c * bsz
     \<and> length c * bsz < unat (sl_payload_len s) + bsz"

definition pool_shape :: "MessagePool \<Rightarrow> nat list \<Rightarrow> (nat \<Rightarrow> nat list) \<Rightarrow> bool" where
  "pool_shape p fl ch \<longleftrightarrow>
     0 < mp_block_size p \<and> length (mp_blocks p) = mp_block_count p \<and> mp_block_count p \<le> 65535
     \<and> length (mp_slots p) \<le> 65535 \<and> mp_block_count p * mp_block_size p < 2 ^ 32
     \<and> length (mp_block_data p) = mp_block_count p * mp_block_size p
     \<and> linked (mp_blocks p) (mp_free_block_head p) fl \<and> distinct fl
     \<and> (\<forall>i < length (mp_slots p).
          linked (mp_blocks p) (sl_first_block (mp_slots p ! i)) (ch i)
          \<and> slot_ok (mp_block_size p) (mp_slots p ! i) (ch i)
          \<and> distinct (ch i) \<and> set (ch i) \<inter> set fl = {})
     \<and> (\<forall>i < length (mp_slots p). \<forall>j < length (mp_slots p).
          i \<noteq> j \<longrightarrow> set (ch i) \<inter> set (ch j) = {})
     \<and> length fl = mp_blocks_free p
     \<and> mp_blocks_allocated p = sum_list (map (\<lambda>i. length (ch i)) [0..<length (mp_slots p)])
     \<and> mp_blocks_allocated p + mp_blocks_free p = mp_block_count p"

definition mp_inv :: "MessagePool \<Rightarrow> bool" where
  "mp_inv p \<longleftrightarrow> pool_shape p (free_list p) (slot_chain p)"

lemma linked_in_range: "linked bs p as \<Longrightarrow> a \<in> set as \<Longrightarrow> a < length bs"
  by (induction as arbitrary: p) auto

lemma distinct_below_length: "distinct as \<Longrightarrow> \<forall>a \<in> set as. a < n \<Longrightarrow> length as \<le> n"
  by (metis card_lessThan card_mono distinct_card finite_lessThan lessThan_iff subsetI)

lemma linked_length: "linked bs p as \<Longrightarrow> distinct as \<Longrightarrow> length as \<le> length bs"
  by (rule distinct_below_length) (auto dest: linked_in_range)

lemma unat_block: "length bs \<le> 65535 \<Longrightarrow> a < length bs \<Longrightarrow> unat (of_nat a :: u16) = a"
  by (simp add: unat_of_nat_u16)

lemma block_not_nil: "length bs \<le> 65535 \<Longrightarrow> a < length bs \<Longrightarrow> (of_nat a :: u16) \<noteq> nil16"
  by (rule of_nat_u16_nil) simp

lemma chain_of_linked:
  "linked bs p as \<Longrightarrow> length bs \<le> 65535 \<Longrightarrow> length as \<le> fuel \<Longrightarrow> chain_of fuel bs p = as"
proof (induction as arbitrary: p fuel)
  case Nil
  then show ?case by (cases fuel) auto
next
  case (Cons a as)
  then show ?case by (cases fuel) (auto simp: unat_block)
qed

lemma pool_shape_cong:
  assumes "pool_shape p fl ch" and "\<And>i. i < length (mp_slots p) \<Longrightarrow> ch i = ch' i"
  shows "pool_shape p fl ch'"
proof -
  have "map (\<lambda>i. length (ch i)) [0..<length (mp_slots p)]
      = map (\<lambda>i. length (ch' i)) [0..<length (mp_slots p)]"
    using assms(2) by simp
  with assms show ?thesis
    unfolding pool_shape_def by simp
qed

lemma pool_shape_chains:
  assumes "pool_shape p fl ch"
  shows "free_list p = fl" and "i < length (mp_slots p) \<Longrightarrow> slot_chain p i = ch i"
  using assms linked_length [of "mp_blocks p"]
  by (auto simp: pool_shape_def free_list_def slot_chain_def intro!: chain_of_linked)

lemma mp_invI: "pool_shape p fl ch \<Longrightarrow> mp_inv p"
  unfolding mp_inv_def
  using pool_shape_chains [of p fl ch] pool_shape_cong [of p fl ch "slot_chain p"] by metis

text \<open>Writing to a block that is not on a chain leaves the chain alone.\<close>

lemma linked_update:
  "a \<notin> set as \<Longrightarrow> linked (bs[a := b]) p as = linked bs p as"
  by (induction as arbitrary: p) auto

lemma linked_snoc_update:
  assumes "linked bs p (as @ [a])" and "distinct (as @ [a])" and "b < length bs"
    and "b \<notin> set (as @ [a])" and "bk_next (bs ! b) = nil16"
  shows "linked (bs[a := (bs ! a)\<lparr>bk_next := of_nat b\<rparr>]) p (as @ [a, b])"
  using assms
proof (induction as arbitrary: p)
  case Nil
  then show ?case by auto
next
  case (Cons c as)
  then show ?case by auto
qed

text \<open>The walks along \<open>next\<close> end with the fuel they are given.\<close>

lemma tail_block_linked:
  assumes "linked bs p (as @ [a])" and "length bs \<le> 65535" and "length as \<le> fuel"
  shows "tail_block fuel bs p = Some (of_nat a)"
  using assms
proof (induction as arbitrary: p fuel)
  case Nil
  then show ?case by (cases fuel) (auto simp: unat_block)
next
  case (Cons c as)
  then obtain f where f: "fuel = Suc f" by (cases fuel) auto
  have "bk_next (bs ! c) \<noteq> nil16"
    using Cons.prems block_not_nil by (cases as) auto
  with Cons f show ?case
    by (auto simp: unat_block block_not_nil)
qed

lemma sum_list_update_upt:
  fixes ch :: "nat \<Rightarrow> nat list"
  assumes "i < n"
  shows "sum_list (map (\<lambda>j. length ((ch(i := c)) j)) [0..<n]) + length (ch i)
    = sum_list (map (\<lambda>j. length (ch j)) [0..<n]) + length c"
proof -
  have s: "[0..<n] = [0..<i] @ i # [Suc i..<n]"
    using upt_add_eq_append [of 0 i "n - i"] upt_conv_Cons [of i n] assms by simp
  have e: "map (\<lambda>j. length ((ch(i := c)) j)) [0..<i] = map (\<lambda>j. length (ch j)) [0..<i]"
    "map (\<lambda>j. length ((ch(i := c)) j)) [Suc i..<n] = map (\<lambda>j. length (ch j)) [Suc i..<n]"
    by auto
  show ?thesis
    unfolding s map_append list.map e fun_upd_same by simp
qed

section \<open>Every operation keeps the invariant\<close>

lemma linked_seed:
  assumes "length bs = n" and "\<And>i. i < n \<Longrightarrow>
      bk_next (bs ! i) = (if i + 1 < n then of_nat (i + 1) else nil16)" and "k < n"
  shows "linked bs (of_nat k) [k..<n]"
  using assms(3)
proof (induction "n - k" arbitrary: k)
  case 0
  then show ?case by simp
next
  case (Suc d)
  show ?case
  proof (cases "Suc k < n")
    case True
    then have "linked bs (of_nat (Suc k)) [Suc k..<n]"
      using Suc.hyps(1) [of "Suc k"] Suc.hyps(2) by simp
    with True assms show ?thesis by (simp add: upt_conv_Cons)
  next
    case False
    with Suc.prems have "[k..<n] = [k]" by (simp add: upt_conv_Cons)
    with False Suc.prems assms show ?thesis by simp
  qed
qed

lemma mp_inv_new:
  assumes "0 < bsz" and "bc \<le> 65535" and "sc \<le> 65535" and "bc * bsz < 2 ^ 32"
  shows "mp_inv (MessagePool_new bsz bc sc)"
proof (rule mp_invI)
  have z: "sum_list (map (\<lambda>i. length ((\<lambda>_. [] :: nat list) i)) [0..<n]) = 0" for n :: nat
    by (induction n) auto
  have "linked (mp_blocks (MessagePool_new bsz bc sc))
      (mp_free_block_head (MessagePool_new bsz bc sc)) [0..<bc]"
    using linked_seed [of "mp_blocks (MessagePool_new bsz bc sc)" bc 0]
    by (cases "bc = 0") (auto simp: MessagePool_new_def)
  with assms z show "pool_shape (MessagePool_new bsz bc sc) [0..<bc] (\<lambda>_. [])"
    by (auto simp: pool_shape_def MessagePool_new_def slot_ok_def slot_init_def)
qed

text \<open>Rewriting a slot that keeps its chain.\<close>

lemma pool_shape_slot:
  assumes "pool_shape p fl ch" and "i < length (mp_slots p)"
    and "sl_first_block s = sl_first_block (mp_slots p ! i)"
    and "slot_ok (mp_block_size p) s (ch i)"
  shows "pool_shape (p\<lparr>mp_slots := (mp_slots p)[i := s]\<rparr>) fl ch"
  using assms by (simp add: pool_shape_def nth_list_update)

lemma pool_shape_free_slot:
  assumes "pool_shape p fl ch" and "i < length (mp_slots p)" and "\<not> sl_in_use (mp_slots p ! i)"
  shows "ch i = []" and "sl_first_block (mp_slots p ! i) = nil16"
proof -
  have "slot_ok (mp_block_size p) (mp_slots p ! i) (ch i)"
    "linked (mp_blocks p) (sl_first_block (mp_slots p ! i)) (ch i)"
    using assms(1,2) by (auto simp: pool_shape_def)
  with assms(3) show "ch i = []" "sl_first_block (mp_slots p ! i) = nil16"
    by (auto simp: slot_ok_def)
qed

lemma pool_shape_slot_ok:
  assumes "pool_shape p fl ch" and "i < length (mp_slots p)"
  shows "slot_ok (mp_block_size p) (mp_slots p ! i) (ch i)"
    and "linked (mp_blocks p) (sl_first_block (mp_slots p ! i)) (ch i)"
    and "distinct (ch i)" and "set (ch i) \<inter> set fl = {}"
  using assms by (auto simp: pool_shape_def)

lemma msg_validD: "msg_valid p h \<Longrightarrow> unat (slot h) < length (mp_slots p) \<and> sl_in_use (mp_slot p h)"
  by (simp add: msg_valid_def)

lemma shape_acquire_empty:
  assumes "pool_shape p fl ch"
  shows "pool_shape (snd (acquire_empty p)) fl ch"
proof (cases "first_idx (\<lambda>s. \<not> sl_in_use s) (mp_slots p)")
  case None
  with assms show ?thesis by (simp add: acquire_empty_def)
next
  case (Some i)
  then have i: "i < length (mp_slots p)" "\<not> sl_in_use (mp_slots p ! i)" by auto
  with pool_shape_slot_ok [OF assms i(1)] pool_shape_free_slot [OF assms i] show ?thesis
    by (simp add: acquire_empty_def Some Let_def)
      (rule pool_shape_slot [OF assms i(1)], auto simp: slot_ok_def)
qed

lemma shape_set_props:
  assumes "pool_shape p fl ch" 
  shows "pool_shape (snd (set_props h data p)) fl ch"
proof (cases "msg_valid p h \<and> length data \<le> kMessagePropsCapacity")
  case True
  with pool_shape_slot_ok(1) [OF assms, of "unat (slot h)"] show ?thesis
    by (auto simp: set_props_def Let_def slot_ok_def dest: msg_validD
        intro!: pool_shape_slot [OF assms])
next
  case False
  with assms show ?thesis by (auto simp: set_props_def)
qed

lemma shape_set_expiry:
  assumes "pool_shape p fl ch"
  shows "pool_shape (set_expiry h interval tick p) fl ch"
proof (cases "msg_valid p h")
  case True
  with pool_shape_slot_ok(1) [OF assms, of "unat (slot h)"] show ?thesis
    by (auto simp: set_expiry_def slot_ok_def dest: msg_validD intro!: pool_shape_slot [OF assms])
qed (use assms in \<open>simp add: set_expiry_def\<close>)

lemma u16_inc_nonzero: "(x :: u16) \<noteq> 0xFFFF \<Longrightarrow> x + 1 \<noteq> 0"
  using unat_inc_u16 [of x] by auto

lemma shape_msg_acquire:
  assumes "pool_shape p fl ch"
  shows "pool_shape (snd (msg_acquire h p)) fl ch"
proof (cases "msg_valid p h \<and> sl_ref_count (mp_slot p h) \<noteq> 0xFFFF")
  case True
  with pool_shape_slot_ok(1) [OF assms, of "unat (slot h)"]
    u16_inc_nonzero [of "sl_ref_count (mp_slot p h)"] show ?thesis
    by (auto simp: msg_acquire_def Let_def slot_ok_def dest: msg_validD
        intro!: pool_shape_slot [OF assms])
next
  case False
  with assms show ?thesis by (auto simp: msg_acquire_def Let_def)
qed

text \<open>The release walk returns a chain to the free list in reverse.\<close>

lemma release_chain_linked:
  assumes "linked (mp_blocks p) blk as" and "linked (mp_blocks p) (mp_free_block_head p) fl"
    and "distinct as" and "set as \<inter> set fl = {}" and "length (mp_blocks p) \<le> 65535"
    and "length (mp_blocks p) = mp_block_count p" and "length as \<le> fuel"
    and "length as \<le> mp_blocks_allocated p"
  shows "\<exists>bl hd'. release_chain fuel blk p = Some (p\<lparr>mp_blocks := bl, mp_free_block_head := hd',
        mp_blocks_allocated := mp_blocks_allocated p - length as,
        mp_blocks_free := mp_blocks_free p + length as\<rparr>)
    \<and> length bl = length (mp_blocks p) \<and> linked bl hd' (rev as @ fl)
    \<and> (\<forall>q c. set c \<inter> set as = {} \<longrightarrow> linked bl q c = linked (mp_blocks p) q c)"
  using assms
proof (induction as arbitrary: blk p fl fuel)
  case Nil
  then show ?case
    by (cases fuel) (auto intro!: exI [of _ "mp_blocks p"] exI [of _ "mp_free_block_head p"])
next
  case (Cons a as)
  then obtain f where f: "fuel = Suc f" by (cases fuel) auto
  have a: "blk = of_nat a" "a < length (mp_blocks p)" "unat blk = a" "blk \<noteq> nil16"
    using Cons.prems unat_block [of "mp_blocks p" a] block_not_nil [of "mp_blocks p" a] by auto
  let ?p = "free_block a p"
  have l: "linked (mp_blocks ?p) (bk_next (mp_blocks p ! a)) as"
    "linked (mp_blocks ?p) (mp_free_block_head ?p) (a # fl)"
    using Cons.prems a by (auto simp: free_block_def linked_update)
  have n: "length as \<le> mp_blocks_allocated ?p" "length as \<le> f"
    using Cons.prems f by (simp_all add: free_block_def)
  from l n obtain bl hd' where ih: "release_chain f (bk_next (mp_blocks p ! a)) ?p =
        Some (?p\<lparr>mp_blocks := bl, mp_free_block_head := hd',
          mp_blocks_allocated := mp_blocks_allocated ?p - length as,
          mp_blocks_free := mp_blocks_free ?p + length as\<rparr>)"
      "length bl = length (mp_blocks ?p)" "linked bl hd' (rev as @ a # fl)"
      "\<forall>q c. set c \<inter> set as = {} \<longrightarrow> linked bl q c = linked (mp_blocks ?p) q c"
    using Cons.IH [OF l _ _ _ _ n(2,1)] Cons.prems a(2) by (auto simp: free_block_def)
  have "release_chain fuel blk p = release_chain f (bk_next (mp_blocks p ! a)) ?p"
    using a f Cons.prems(6) by simp
  moreover have "linked bl q c = linked (mp_blocks p) q c" if "set c \<inter> set (a # as) = {}" for q c
    using ih(4) that by (auto simp: free_block_def linked_update)
  ultimately show ?case
    using ih(1-3) by (intro exI [of _ bl] exI [of _ hd']) (auto simp: free_block_def)
qed

lemma shape_chain_length:
  assumes "pool_shape p fl ch" and "i < length (mp_slots p)"
  shows "length (ch i) \<le> mp_blocks_allocated p"
  using assms member_le_sum_list [of "length (ch i)" "map (\<lambda>i. length (ch i)) [0..<length (mp_slots p)]"]
  by (auto simp: pool_shape_def)

lemma pool_shape_disjoint:
  "pool_shape p fl ch \<Longrightarrow> i < length (mp_slots p) \<Longrightarrow> j < length (mp_slots p) \<Longrightarrow> i \<noteq> j \<Longrightarrow>
     set (ch i) \<inter> set (ch j) = {}"
  by (simp add: pool_shape_def)

lemma slot_ok_freed: "slot_ok bsz s c \<Longrightarrow> 0 < bsz \<Longrightarrow> slot_ok bsz (slot_freed s) []"
  by (simp add: slot_ok_def slot_freed_def)

lemma shape_release_last:
  assumes sh: "pool_shape p fl ch" and i: "i < length (mp_slots p)"
  shows "\<exists>bl hd'. release_chain (mp_block_count p) (sl_first_block (mp_slots p ! i)) p =
      Some (p\<lparr>mp_blocks := bl, mp_free_block_head := hd',
        mp_blocks_allocated := mp_blocks_allocated p - length (ch i),
        mp_blocks_free := mp_blocks_free p + length (ch i)\<rparr>)
    \<and> pool_shape (p\<lparr>mp_blocks := bl, mp_free_block_head := hd',
        mp_blocks_allocated := mp_blocks_allocated p - length (ch i),
        mp_blocks_free := mp_blocks_free p + length (ch i),
        mp_slots := (mp_slots p)[i := slot_freed (mp_slots p ! i)]\<rparr>) (rev (ch i) @ fl) (ch(i := []))"
proof -
  note ok = pool_shape_slot_ok [OF sh i]
  have len: "length (ch i) \<le> mp_blocks_allocated p"
    using shape_chain_length [OF sh i] .
  have "length (ch i) \<le> mp_block_count p"
    using len sh by (simp add: pool_shape_def)
  with ok len sh obtain bl hd' where
    r: "release_chain (mp_block_count p) (sl_first_block (mp_slots p ! i)) p =
      Some (p\<lparr>mp_blocks := bl, mp_free_block_head := hd',
        mp_blocks_allocated := mp_blocks_allocated p - length (ch i),
        mp_blocks_free := mp_blocks_free p + length (ch i)\<rparr>)"
    and bl: "length bl = length (mp_blocks p)" "linked bl hd' (rev (ch i) @ fl)"
    and oth: "\<forall>q c. set c \<inter> set (ch i) = {} \<longrightarrow> linked bl q c = linked (mp_blocks p) q c"
    using release_chain_linked [of p "sl_first_block (mp_slots p ! i)" "ch i" fl "mp_block_count p"]
    by (auto simp: pool_shape_def)
  have sum: "sum_list (map (\<lambda>j. length ((ch(i := [])) j)) [0..<length (mp_slots p)])
      = mp_blocks_allocated p - length (ch i)"
    using sum_list_update_upt [OF i, of ch "[]"] sh by (simp add: pool_shape_def)
  have ot: "linked bl (sl_first_block (mp_slots p ! j)) (ch j)"
    "slot_ok (mp_block_size p) (mp_slots p ! j) (ch j)" "distinct (ch j)"
    "set (ch j) \<inter> set (rev (ch i) @ fl) = {}"
    if "j < length (mp_slots p)" "j \<noteq> i" for j
    using pool_shape_slot_ok [OF sh that(1)] pool_shape_disjoint [OF sh that(1) i that(2)] oth
    by (auto simp: Int_Un_distrib)
  have "pool_shape (p\<lparr>mp_blocks := bl, mp_free_block_head := hd',
        mp_blocks_allocated := mp_blocks_allocated p - length (ch i),
        mp_blocks_free := mp_blocks_free p + length (ch i),
        mp_slots := (mp_slots p)[i := slot_freed (mp_slots p ! i)]\<rparr>) (rev (ch i) @ fl) (ch(i := []))"
    unfolding pool_shape_def
    using sh sum ot bl ok len slot_ok_freed [OF ok(1)] i
    by (simp add: pool_shape_def nth_list_update slot_freed_def del: set_append)
  with r show ?thesis by blast
qed

lemma shape_msg_release:
  assumes "pool_shape p fl ch"
  shows "\<exists>fl' ch'. pool_shape (msg_release h p) fl' ch'"
proof (cases "msg_valid p h \<and> sl_ref_count (mp_slot p h) \<noteq> 0")
  case True
  note v = True [THEN conjunct1, THEN msg_validD, THEN conjunct1]
  show ?thesis
  proof (cases "sl_ref_count (mp_slot p h) - 1 > 0")
    case gt: True
    with True pool_shape_slot_ok(1) [OF assms v]
    have "pool_shape (msg_release h p) fl ch"
      by (auto simp: msg_release_def Let_def slot_ok_def intro!: pool_shape_slot [OF assms v])
    then show ?thesis by blast
  next
    case False
    with True shape_release_last [OF assms v] show ?thesis
      by (auto simp: msg_release_def Let_def intro!: exI)
  qed
next
  case False
  with assms show ?thesis by (auto simp: msg_release_def Let_def)
qed

text \<open>Taking a block for a payload that fills its blocks exactly.\<close>

lemma linked_extend:
  assumes "linked bs p c" and "distinct (c @ [b])" and "b < length bs" and "length bs \<le> 65535"
  shows "\<exists>bl first. link_block (length bs) (bs[b := x]) p (of_nat b) = Some (bl, first)
       \<and> length bl = length bs
       \<and> (bk_next x = nil16 \<longrightarrow> linked bl first (c @ [b]))
       \<and> (\<forall>q d. set d \<inter> set (c @ [b]) = {} \<longrightarrow> linked bl q d = linked bs q d)"
proof (cases c rule: rev_exhaust)
  case Nil
  with assms show ?thesis by (auto simp: link_block_def linked_update)
next
  case (snoc as a)
  let ?bs = "bs[b := x]"
  have p: "p \<noteq> nil16"
    using assms(1,4) snoc block_not_nil by (cases as) auto
  have l: "linked ?bs p (as @ [a])"
    using assms snoc by (simp add: linked_update)
  have a: "a < length bs" "unat (of_nat a :: u16) = a"
    using linked_in_range [OF assms(1), of a] snoc unat_block [OF assms(4), of a] by auto
  have "length as \<le> length bs"
    using linked_length [OF assms(1)] assms(2) snoc by simp
  then have "tail_block (length bs) ?bs p = Some (of_nat a)"
    using tail_block_linked [OF l] assms(4) by simp
  moreover have "linked (?bs[a := (?bs ! a)\<lparr>bk_next := of_nat b\<rparr>]) p (as @ [a, b])"
    if "bk_next x = nil16"
    using linked_snoc_update [OF l _, of b] assms snoc that by auto
  ultimately show ?thesis
    using p a snoc assms(3) by (auto simp: link_block_def linked_update)
qed

section \<open>Payload bytes\<close>

definition block_bytes :: "MessagePool \<Rightarrow> nat \<Rightarrow> byte list" where
  "block_bytes p b = slice (b * mp_block_size p) (mp_block_size p) (mp_block_data p)"

definition slot_bytes :: "MessagePool \<Rightarrow> nat list \<Rightarrow> nat \<Rightarrow> byte list" where
  "slot_bytes p c i = take (unat (sl_payload_len (mp_slots p ! i))) (concat (map (block_bytes p) c))"

text \<open>The payload of a message, as a client sees it.\<close>

definition msg_content :: "MessagePool \<Rightarrow> MessageHandle \<Rightarrow> byte list" where
  "msg_content p h =
     (if msg_valid p h then slot_bytes p (slot_chain p (unat (slot h))) (unat (slot h)) else [])"

lemma block_range:
  assumes "b < n" shows "b * (w::nat) + w \<le> n * w"
proof -
  have "Suc b * w \<le> n * w" using assms by (intro mult_le_mono1) simp
  then show ?thesis by simp
qed

lemma length_block_bytes:
  "length (mp_block_data p) = mp_block_count p * mp_block_size p \<Longrightarrow> b < mp_block_count p \<Longrightarrow>
     length (block_bytes p b) = mp_block_size p"
  using block_range [of b "mp_block_count p" "mp_block_size p"]
  by (simp add: block_bytes_def length_slice)

lemma length_chain_bytes:
  "length (mp_block_data p) = mp_block_count p * mp_block_size p \<Longrightarrow>
     \<forall>b \<in> set c. b < mp_block_count p \<Longrightarrow>
     length (concat (map (block_bytes p) c)) = length c * mp_block_size p"
  by (induction c) (auto simp: length_block_bytes)

text \<open>A write inside one block changes that block and no other.\<close>

lemma slice_write_at_inside:
  assumes "o1 + n \<le> length xs" and "k + length d \<le> n"
  shows "slice o1 n (write_at (o1 + k) d xs) = write_at k d (slice o1 n xs)"
  using assms by (intro nth_equalityI) (auto simp: slice_def nth_write_at)

lemma block_bytes_write:
  assumes "length (mp_block_data p) = mp_block_count p * mp_block_size p"
    and "a < mp_block_count p" and "b < mp_block_count p" and "k + length d \<le> mp_block_size p"
    and "mp_block_size p' = mp_block_size p"
    and "mp_block_data p' = write_at (a * mp_block_size p + k) d (mp_block_data p)"
  shows "block_bytes p' b = (if b = a then write_at k d (block_bytes p a) else block_bytes p b)"
proof (cases "b = a")
  case True
  with assms block_range [of a "mp_block_count p" "mp_block_size p"] show ?thesis
    by (simp add: block_bytes_def slice_write_at_inside)
next
  case False
  then have "b * mp_block_size p + mp_block_size p \<le> a * mp_block_size p
      \<or> a * mp_block_size p + mp_block_size p \<le> b * mp_block_size p"
    using block_range by (meson linorder_neqE_nat)
  with False assms block_range [of a "mp_block_count p" "mp_block_size p"]
    block_range [of b "mp_block_count p" "mp_block_size p"] show ?thesis
    by (simp add: block_bytes_def) (rule slice_write_at_disjoint, auto)
qed

lemma chain_bytes_write_other:
  assumes "length (mp_block_data p) = mp_block_count p * mp_block_size p"
    and "a < mp_block_count p" and "\<forall>b \<in> set c. b < mp_block_count p" and "a \<notin> set c"
    and "k + length d \<le> mp_block_size p" and "mp_block_size p' = mp_block_size p"
    and "mp_block_data p' = write_at (a * mp_block_size p + k) d (mp_block_data p)"
  shows "map (block_bytes p') c = map (block_bytes p) c"
  using assms block_bytes_write [OF assms(1,2) _ assms(5-7)] by auto

lemma take_write_at: "k \<le> length xs \<Longrightarrow> take (k + length d) (write_at k d xs) = take k xs @ d"
  by (simp add: write_at_def)

text \<open>Filling the tail block from its first free byte on extends the payload.\<close>

lemma chain_bytes_extend:
  assumes "length (mp_block_data p) = mp_block_count p * mp_block_size p"
    and "a < mp_block_count p" and "\<forall>b \<in> set c. b < mp_block_count p" and "a \<notin> set c"
    and "k + length d \<le> mp_block_size p" and "mp_block_size p' = mp_block_size p"
    and "mp_block_data p' = write_at (a * mp_block_size p + k) d (mp_block_data p)"
  shows "take (length c * mp_block_size p + k + length d) (concat (map (block_bytes p') (c @ [a])))
    = take (length c * mp_block_size p + k) (concat (map (block_bytes p) (c @ [a]))) @ d"
proof -
  have c: "map (block_bytes p') c = map (block_bytes p) c"
    using chain_bytes_write_other [OF assms] .
  have "block_bytes p' a = write_at k d (block_bytes p a)"
    using block_bytes_write [OF assms(1,2,2,5-7)] by simp
  moreover have "length (block_bytes p a) = mp_block_size p"
    by (rule length_block_bytes [OF assms(1,2)])
  ultimately show ?thesis
    unfolding map_append concat_append c
    using length_chain_bytes [OF assms(1,3)] assms(5) take_write_at [of k "block_bytes p a" d]
    by (simp add: add.assoc)
qed

definition same_slot_meta :: "Slot \<Rightarrow> Slot \<Rightarrow> bool" where
  "same_slot_meta s s' \<longleftrightarrow>
     sl_generation s' = sl_generation s \<and> sl_ref_count s' = sl_ref_count s
     \<and> sl_in_use s' = sl_in_use s \<and> sl_props_len s' = sl_props_len s \<and> sl_props s' = sl_props s
     \<and> sl_expiry_interval s' = sl_expiry_interval s \<and> sl_publish_tick s' = sl_publish_tick s"

text \<open>
  \<open>appended p fl ch i d p' fl' ch'\<close>: the step from \<open>p\<close> to \<open>p'\<close> added the bytes \<open>d\<close> to the payload
  of slot \<open>i\<close> and left everything else as it was.
\<close>

definition appended ::
  "MessagePool \<Rightarrow> nat list \<Rightarrow> (nat \<Rightarrow> nat list) \<Rightarrow> nat \<Rightarrow> byte list \<Rightarrow>
   MessagePool \<Rightarrow> nat list \<Rightarrow> (nat \<Rightarrow> nat list) \<Rightarrow> bool"
where
  "appended p fl ch i d p' fl' ch' \<longleftrightarrow>
     pool_shape p' fl' ch'
     \<and> mp_block_size p' = mp_block_size p \<and> mp_block_count p' = mp_block_count p
     \<and> mp_slots p' = (mp_slots p)[i := mp_slots p' ! i]
     \<and> same_slot_meta (mp_slots p ! i) (mp_slots p' ! i)
     \<and> slot_bytes p' (ch' i) i = slot_bytes p (ch i) i @ d
     \<and> unat (sl_payload_len (mp_slots p' ! i)) = unat (sl_payload_len (mp_slots p ! i)) + length d
     \<and> (\<forall>j < length (mp_slots p). j \<noteq> i \<longrightarrow> slot_bytes p' (ch' j) j = slot_bytes p (ch j) j)
     \<and> length (ch' i) + length fl' = length (ch i) + length fl"

lemma appended_refl: "pool_shape p fl ch \<Longrightarrow> appended p fl ch i [] p fl ch"
  unfolding appended_def by (simp add: same_slot_meta_def)

lemma appended_trans:
  assumes "appended p fl ch i d p' fl' ch'" and "appended p' fl' ch' i e p'' fl'' ch''"
    and "i < length (mp_slots p)"
  shows "appended p fl ch i (d @ e) p'' fl'' ch''"
proof -
  have "mp_slots p'' = (mp_slots p)[i := mp_slots p'' ! i]"
    using assms unfolding appended_def by (metis list_update_overwrite)
  with assms show ?thesis
    unfolding appended_def same_slot_meta_def by simp (metis length_list_update)
qed

lemma appended_valid:
  "appended p fl ch i d p' fl' ch' \<Longrightarrow> i < length (mp_slots p) \<Longrightarrow> msg_valid p' h = msg_valid p h"
  unfolding appended_def msg_valid_def same_slot_meta_def
  by (metis length_list_update nth_list_update_neq)

lemma shape_basic:
  assumes "pool_shape p fl ch"
  shows "0 < mp_block_size p" "length (mp_blocks p) = mp_block_count p" "mp_block_count p \<le> 65535"
    "length (mp_block_data p) = mp_block_count p * mp_block_size p"
    "mp_block_count p * mp_block_size p < 2 ^ 32" "length (mp_slots p) \<le> 65535"
    "linked (mp_blocks p) (mp_free_block_head p) fl" "distinct fl" "length fl = mp_blocks_free p"
    "mp_blocks_allocated p + mp_blocks_free p = mp_block_count p"
  using assms by (auto simp: pool_shape_def)

lemma shape_chain_range:
  assumes "pool_shape p fl ch" and "i < length (mp_slots p)"
  shows "\<forall>b \<in> set (ch i). b < mp_block_count p"
  using pool_shape_slot_ok(2) [OF assms] shape_basic(2) [OF assms(1)] linked_in_range by metis

lemma shape_payload_bound:
  assumes "pool_shape p fl ch" and "i < length (mp_slots p)" and "n \<le> length (ch i) * mp_block_size p"
  shows "n < 2 ^ 32"
proof -
  have "length (ch i) \<le> mp_block_count p"
    using shape_chain_length [OF assms(1,2)] shape_basic(10) [OF assms(1)] by simp
  then have "n \<le> mp_block_count p * mp_block_size p"
    using assms(3) by (meson le_trans mult_le_mono1)
  with shape_basic(5) [OF assms(1)] show ?thesis by simp
qed

lemma unat_add_small: "unat (x :: u32) + n < 2 ^ 32 \<Longrightarrow> unat (x + of_nat n) = unat x + n"
  by (simp add: unat_word_ariths unat_of_nat_u32)

text \<open>Filling the partly used tail block.\<close>

lemma append_fill_step:
  assumes sh: "pool_shape p fl ch" and i: "i < length (mp_slots p)"
    and c: "ch i = as @ [a]"
    and k: "unat (sl_payload_len (mp_slots p ! i)) = length as * mp_block_size p + k"
    and d: "k + length d \<le> mp_block_size p"
    and p': "p' = p\<lparr>mp_block_data := write_at (a * mp_block_size p + k) d (mp_block_data p),
        mp_slots := (mp_slots p)[i := (mp_slots p ! i)\<lparr>sl_payload_len :=
          sl_payload_len (mp_slots p ! i) + of_nat (length d)\<rparr>]\<rparr>"
    and u: "sl_in_use (mp_slots p ! i)"
  shows "appended p fl ch i d p' fl ch"
proof -
  let ?s = "mp_slots p ! i" and ?w = "mp_block_size p"
  note b = shape_basic [OF sh] and ok = pool_shape_slot_ok [OF sh i]
  have rng: "a < mp_block_count p" "\<forall>x \<in> set as. x < mp_block_count p" "a \<notin> set as"
    using shape_chain_range [OF sh i] ok(3) c by auto
  have new: "unat (sl_payload_len ?s + of_nat (length d)) = length as * ?w + k + length d"
    using shape_payload_bound [OF sh i, of "length as * ?w + k + length d"] c d k
    by (subst unat_add_small) simp_all
  have len: "length (mp_block_data p') = mp_block_count p * ?w"
    using block_range [OF rng(1), of ?w] b(4) d p' by simp
  have sok: "slot_ok ?w (?s\<lparr>sl_payload_len := sl_payload_len ?s + of_nat (length d)\<rparr>) (ch i)"
    using ok(1) new k d c u unfolding slot_ok_def by simp
  have "pool_shape p' fl ch"
    using pool_shape_slot [OF sh i _ sok] len p' b(4) unfolding pool_shape_def by simp
  moreover have "slot_bytes p' (ch i) i = slot_bytes p (ch i) i @ d"
    using chain_bytes_extend [OF b(4) rng d, of p'] p' i new k c by (simp add: slot_bytes_def)
  moreover have "slot_bytes p' (ch j) j = slot_bytes p (ch j) j"
    if "j < length (mp_slots p)" "j \<noteq> i" for j
  proof -
    have "a \<notin> set (ch j)"
      using pool_shape_disjoint [OF sh that(1) i that(2)] c by auto
    then have "map (block_bytes p') (ch j) = map (block_bytes p) (ch j)"
      using chain_bytes_write_other [OF b(4) rng(1) shape_chain_range [OF sh that(1)] _ d] p'
      by simp
    with that p' show ?thesis by (simp add: slot_bytes_def del: map_eq_conv)
  qed
  ultimately show ?thesis
    unfolding appended_def same_slot_meta_def using p' new k i by simp
qed

lemma append_block_step:
  assumes sh: "pool_shape p (b # fl) ch" and v: "msg_valid p h" and i: "i = unat (slot h)"
    and full: "unat (sl_payload_len (mp_slots p ! i)) = length (ch i) * mp_block_size p"
    and d: "d \<noteq> []" "length d \<le> mp_block_size p"
  shows "\<exists>p'. append_block h d p = (True, p') \<and> appended p (b # fl) ch i d p' fl (ch(i := ch i @ [b]))"
proof -
  let ?s = "mp_slots p ! i" and ?w = "mp_block_size p"
  let ?x = "\<lparr>bk_in_use = True, bk_next = nil16\<rparr>"
  have il: "i < length (mp_slots p)" and u: "sl_in_use ?s" using msg_validD [OF v] i by auto
  note bs = shape_basic [OF sh] and ok = pool_shape_slot_ok [OF sh il]
  have b: "b < mp_block_count p" "mp_free_block_head p = of_nat b" "unat (mp_free_block_head p) = b"
    "mp_free_block_head p \<noteq> nil16" "linked (mp_blocks p) (bk_next (mp_blocks p ! b)) fl"
    using bs(2,3,7) unat_block [of "mp_blocks p" b] block_not_nil [of "mp_blocks p" b] by auto
  have dist: "distinct (ch i @ [b])" using ok(3,4) by auto
  obtain bl first where
    e: "link_block (length (mp_blocks p)) ((mp_blocks p)[b := ?x]) (sl_first_block ?s) (of_nat b)
          = Some (bl, first)"
      and bl: "length bl = length (mp_blocks p)" "linked bl first (ch i @ [b])"
      and oth: "\<forall>q e. set e \<inter> set (ch i @ [b]) = {} \<longrightarrow> linked bl q e = linked (mp_blocks p) q e"
    using linked_extend [OF ok(2) dist, of ?x] b(1) bs(2,3) by auto
  let ?s' = "?s\<lparr>sl_first_block := first, sl_block_count := sl_block_count ?s + 1,
      sl_payload_len := sl_payload_len ?s + of_nat (length d)\<rparr>"
  let ?p' = "p\<lparr>mp_free_block_head := bk_next (mp_blocks p ! b), mp_blocks := bl,
      mp_block_data := write_at (b * ?w + 0) d (mp_block_data p),
      mp_slots := (mp_slots p)[i := ?s'],
      mp_blocks_allocated := mp_blocks_allocated p + 1, mp_blocks_free := mp_blocks_free p - 1\<rparr>"
  let ?ch = "ch(i := ch i @ [b])"
  have app: "append_block h d p = (True, ?p')"
    using v d b(2-4) e i bs(2) by (simp add: append_block_def Let_def)
  have sum: "sum_list (map (\<lambda>j. length (?ch j)) [0..<length (mp_slots p)]) = mp_blocks_allocated p + 1"
    using sum_list_update_upt [OF il, of ch "ch i @ [b]"] sh by (simp add: pool_shape_def)
  have "length (ch i) < mp_block_count p"
    using shape_chain_length [OF sh il] bs(9,10) by simp
  then have "length (ch i) * ?w + ?w \<le> mp_block_count p * ?w"
    by (rule block_range)
  then have new: "unat (sl_payload_len ?s + of_nat (length d)) = length (ch i) * ?w + length d"
    using full d(2) bs(5) by (subst unat_add_small) simp_all
  have sok: "slot_ok ?w ?s' (ch i @ [b])"
    using ok(1) new d u bs(1) unfolding slot_ok_def by (simp add: add.commute)
  have fl: "linked bl (bk_next (mp_blocks p ! b)) fl"
    using oth b(5) ok(4) bs(8) by auto
  have ot: "linked bl (sl_first_block (mp_slots p ! j)) (ch j)"
    "set (ch j) \<inter> set (ch i @ [b]) = {}" if "j < length (mp_slots p)" "j \<noteq> i" for j
    using pool_shape_slot_ok [OF sh that(1)] pool_shape_disjoint [OF sh that(1) il that(2)] oth
    by (auto simp: Int_Un_distrib)
  have len: "length (mp_block_data ?p') = mp_block_count p * ?w"
    using block_range [OF b(1), of ?w] bs(4) d by simp
  have shape: "pool_shape ?p' fl ?ch"
    unfolding pool_shape_def
  proof (intro conjI allI impI, goal_cases)
    case (9 j)
    then show ?case using bl ot(1) by (simp add: nth_list_update)
  next
    case (10 j)
    then show ?case using sok pool_shape_slot_ok(1) [OF sh] by (simp add: nth_list_update)
  next
    case (11 j)
    then show ?case using dist pool_shape_slot_ok(3) [OF sh] by simp
  next
    case (12 j)
    then show ?case using ok(4) bs(8) pool_shape_slot_ok(4) [OF sh] by auto
  next
    case (13 j k)
    then show ?case using ot(2) [of j] ot(2) [of k] pool_shape_disjoint [OF sh, of j k] by auto
  qed (use bs bl fl sum len in auto)
  have "slot_bytes ?p' (ch i @ [b]) i = slot_bytes p (ch i) i @ d"
  proof -
    have "take (length (ch i) * ?w + 0 + length d) (concat (map (block_bytes ?p') (ch i @ [b])))
        = take (length (ch i) * ?w + 0) (concat (map (block_bytes p) (ch i @ [b]))) @ d"
      using chain_bytes_extend [OF bs(4) b(1) shape_chain_range [OF sh il], of 0 d ?p'] dist d by simp
    with length_chain_bytes [OF bs(4) shape_chain_range [OF sh il]] show ?thesis
      using il new full by (simp add: slot_bytes_def)
  qed
  moreover have "slot_bytes ?p' (ch j) j = slot_bytes p (ch j) j"
    if "j < length (mp_slots p)" "j \<noteq> i" for j
  proof -
    have "map (block_bytes ?p') (ch j) = map (block_bytes p) (ch j)"
      using chain_bytes_write_other [OF bs(4) b(1) shape_chain_range [OF sh that(1)], of 0 d ?p']
        ot(2) [OF that] d by simp
    with that show ?thesis by (simp add: slot_bytes_def del: map_eq_conv)
  qed
  ultimately have "appended p (b # fl) ch i d ?p' fl ?ch"
    unfolding appended_def same_slot_meta_def using shape new full il by simp
  with app show ?thesis by blast
qed

lemma nat_mod_split:
  assumes "0 < (w::nat)" and "n \<le> m * w" and "m * w < n + w" and "n mod w \<noteq> 0"
  shows "n = (m - 1) * w + n mod w"
proof -
  from assms obtain m' where m: "m = Suc m'" by (cases m) auto
  have "n div w = m'"
    using assms m by (intro div_nat_eqI) (auto simp: mult.commute dest: le_neq_implies_less)
  then show ?thesis
    using m div_mult_mod_eq [of n w] by simp
qed

lemma nat_mod_full:
  assumes "0 < (w::nat)" and "n \<le> m * w" and "m * w < n + w" and "n mod w = 0"
  shows "n = m * w"
proof -
  from assms(4) obtain k where n: "n = k * w" by (metis mod_0_imp_dvd dvd_def mult.commute)
  with assms(3) have "m * w < Suc k * w" by simp
  then have "m \<le> k" by (simp only: mult_less_cancel2 less_Suc_eq_le)
  then have "m * w \<le> n" unfolding n by (rule mult_le_mono1)
  with assms(2) show ?thesis by simp
qed

text \<open>One turn of the append loop: the tail block is filled, a block is taken, or there is none.\<close>

lemma append_turn_fill:
  assumes sh: "pool_shape p fl ch" and v: "msg_valid p h" and i: "i = unat (slot h)"
    and data: "data \<noteq> []"
    and part: "unat (sl_payload_len (mp_slots p ! i)) mod mp_block_size p \<noteq> 0"
      "sl_first_block (mp_slots p ! i) \<noteq> nil16"
  shows "\<exists>k p1. 0 < k \<and> k \<le> length data \<and> appended p fl ch i (take k data) p1 fl ch
    \<and> append_loop (Suc fuel) h data p = append_loop fuel h (drop k data) p1"
proof -
  let ?s = "mp_slots p ! i" and ?w = "mp_block_size p"
  let ?L = "unat (sl_payload_len ?s)"
  have il: "i < length (mp_slots p)" and u: "sl_in_use ?s" using msg_validD [OF v] i by auto
  note bs = shape_basic [OF sh] and ok = pool_shape_slot_ok [OF sh il]
  obtain as a where c: "ch i = as @ [a]"
    using ok(2) part(2) by (cases "ch i" rule: rev_exhaust) auto
  let ?k = "min (length data) (?w - ?L mod ?w)"
  let ?p1 = "p\<lparr>mp_block_data := write_at (a * ?w + ?L mod ?w) (take ?k data) (mp_block_data p),
    mp_slots := (mp_slots p)[i := ?s\<lparr>sl_payload_len :=
      sl_payload_len ?s + of_nat (length (take ?k data))\<rparr>]\<rparr>"
  have lt: "?L mod ?w < ?w" using bs(1) by simp
  have L: "?L = length as * ?w + ?L mod ?w"
    using nat_mod_split [OF bs(1), of ?L "length (ch i)"] ok(1) part c by (simp add: slot_ok_def)
  have a: "appended p fl ch i (take ?k data) ?p1 fl ch"
    by (rule append_fill_step [OF sh il c L _ refl u]) (use lt in simp)
  have "linked (mp_blocks p) (sl_first_block ?s) (as @ [a])"
    using ok(2) c by simp
  moreover have "a < length (mp_blocks p)" "length as \<le> mp_block_count p"
    using shape_chain_range [OF sh il] shape_chain_length [OF sh il] bs(2,10) c by auto
  ultimately have t: "tail_block (mp_block_count p) (mp_blocks p) (sl_first_block ?s) = Some (of_nat a)"
    "unat (of_nat a :: u16) = a"
    using tail_block_linked [of "mp_blocks p"] unat_block [of "mp_blocks p" a] bs(2,3) by auto
  have "append_loop (Suc fuel) h data p = append_loop fuel h (drop ?k data) ?p1"
    using data part t i by (simp add: Let_def)
  with a data lt show ?thesis by (intro exI [of _ ?k] exI [of _ ?p1]) simp
qed

lemma append_turn_block:
  assumes sh: "pool_shape p fl ch" and v: "msg_valid p h" and i: "i = unat (slot h)"
    and data: "data \<noteq> []"
    and whole: "\<not> (unat (sl_payload_len (mp_slots p ! i)) mod mp_block_size p \<noteq> 0
      \<and> sl_first_block (mp_slots p ! i) \<noteq> nil16)"
  shows "unat (sl_payload_len (mp_slots p ! i)) = length (ch i) * mp_block_size p"
    and "fl = [] \<Longrightarrow> append_loop (Suc fuel) h data p = (False, p)"
    and "fl = b # fl1 \<Longrightarrow> \<exists>k p1. 0 < k \<and> k \<le> length data
      \<and> appended p fl ch i (take k data) p1 fl1 (ch(i := ch i @ [b]))
      \<and> append_loop (Suc fuel) h data p = append_loop fuel h (drop k data) p1"
proof -
  let ?s = "mp_slots p ! i" and ?w = "mp_block_size p"
  have il: "i < length (mp_slots p)" using msg_validD [OF v] i by auto
  note bs = shape_basic [OF sh] and ok = pool_shape_slot_ok [OF sh il]
  have cap: "unat (sl_payload_len ?s) \<le> length (ch i) * ?w"
    "length (ch i) * ?w < unat (sl_payload_len ?s) + ?w"
    using ok(1) by (auto simp: slot_ok_def)
  have nil: "sl_first_block ?s = nil16 \<longleftrightarrow> ch i = []"
    using ok(2) block_not_nil [of "mp_blocks p"] bs(2,3) by (cases "ch i") auto
  show full: "unat (sl_payload_len ?s) = length (ch i) * ?w"
    using nat_mod_full [OF bs(1) cap] cap(1) whole nil by (cases "ch i = []") auto
  let ?k = "min (length data) ?w"
  show "append_loop (Suc fuel) h data p = (False, p)" if "fl = []"
  proof -
    have "append_block h (take ?k data) p = (False, p)"
      using bs(7) that by (simp add: append_block_def)
    with whole data i show ?thesis by (auto simp: Let_def)
  qed
  show "\<exists>k p1. 0 < k \<and> k \<le> length data
      \<and> appended p fl ch i (take k data) p1 fl1 (ch(i := ch i @ [b]))
      \<and> append_loop (Suc fuel) h data p = append_loop fuel h (drop k data) p1" if f: "fl = b # fl1"
  proof -
    have k: "take ?k data \<noteq> []" "length (take ?k data) \<le> ?w" using data bs(1) by auto
    obtain p1 where p1: "append_block h (take ?k data) p = (True, p1)"
        "appended p fl ch i (take ?k data) p1 fl1 (ch(i := ch i @ [b]))"
      using append_block_step [OF sh [unfolded f] v i full k] f by blast
    have "append_loop (Suc fuel) h data p = append_loop fuel h (drop ?k data) p1"
      using data whole p1(1) i by (auto simp: Let_def)
    with p1(2) data bs(1) show ?thesis by (intro exI [of _ ?k] exI [of _ p1]) simp
  qed
qed

text \<open>
  The append loop: it ends, adds a prefix of the data to the payload, and adds all of it exactly
  when the free part of the tail block and the free blocks have room.
\<close>

lemma append_loop_appended:
  assumes "pool_shape p fl ch" and "msg_valid p h" and "i = unat (slot h)" and "length data \<le> fuel"
  shows "\<exists>ok p' fl' ch' n. append_loop fuel h data p = (ok, p')
    \<and> appended p fl ch i (take n data) p' fl' ch' \<and> n \<le> length data \<and> (ok \<longleftrightarrow> n = length data)
    \<and> (ok \<longleftrightarrow> unat (sl_payload_len (mp_slots p ! i)) + length data
              \<le> (length (ch i) + length fl) * mp_block_size p)"
  using assms
proof (induction fuel arbitrary: data p fl ch)
  case 0
  moreover have "i < length (mp_slots p)" using 0 msg_validD by auto
  ultimately show ?case
    using appended_refl [of p fl ch i] pool_shape_slot_ok(1) [of p fl ch i]
    by (auto simp: slot_ok_def add_mult_distrib intro!: exI [of _ "0::nat"])
next
  case (Suc fuel)
  note sh = Suc.prems(1)
  let ?L = "unat (sl_payload_len (mp_slots p ! i))"
  have il: "i < length (mp_slots p)"
    using msg_validD [OF Suc.prems(2)] Suc.prems(3) by auto
  have step: ?case
    if a: "appended p fl ch i (take k data) p1 fl1 ch1" and k: "0 < k" "k \<le> length data"
      and e: "append_loop (Suc fuel) h data p = append_loop fuel h (drop k data) p1" for k p1 fl1 ch1
  proof -
    have "pool_shape p1 fl1 ch1" "msg_valid p1 h" "length (drop k data) \<le> fuel"
      using a appended_valid [OF a il] Suc.prems k by (auto simp: appended_def)
    from Suc.IH [OF this(1,2) Suc.prems(3) this(3)] obtain ok p' fl' ch' n where
      r: "append_loop fuel h (drop k data) p1 = (ok, p')"
      "appended p1 fl1 ch1 i (take n (drop k data)) p' fl' ch'" "n \<le> length (drop k data)"
      "ok \<longleftrightarrow> n = length (drop k data)"
      "ok \<longleftrightarrow> unat (sl_payload_len (mp_slots p1 ! i)) + length (drop k data)
              \<le> (length (ch1 i) + length fl1) * mp_block_size p1"
      by blast
    have "appended p fl ch i (take (k + n) data) p' fl' ch'"
      using appended_trans [OF a r(2) il] by (simp add: take_add)
    moreover have "unat (sl_payload_len (mp_slots p1 ! i)) = ?L + k"
      "length (ch1 i) + length fl1 = length (ch i) + length fl" "mp_block_size p1 = mp_block_size p"
      using a k by (auto simp: appended_def)
    ultimately show ?thesis
      using r e k by (intro exI [of _ ok] exI [of _ p'] exI [of _ fl'] exI [of _ ch'] exI [of _ "k + n"])
        auto
  qed
  show ?case
  proof (cases "data = []")
    case True
    then show ?thesis
      using appended_refl [OF sh, of i] pool_shape_slot_ok(1) [OF sh il]
      by (auto simp: slot_ok_def add_mult_distrib intro!: exI [of _ "0::nat"])
  next
    case ne: False
    note args = sh Suc.prems(2,3) ne
    show ?thesis
    proof (cases "?L mod mp_block_size p \<noteq> 0 \<and> sl_first_block (mp_slots p ! i) \<noteq> nil16")
      case True
      with append_turn_fill [OF args, of fuel] step show ?thesis by blast
    next
      case False
      show ?thesis
      proof (cases fl)
        case Nil
        with append_turn_block(1,2) [OF args False] appended_refl [OF sh, of i] ne show ?thesis
          by (intro exI [of _ False] exI [of _ p] exI [of _ fl] exI [of _ ch] exI [of _ 0])
            (simp del: append_loop.simps)
      next
        case (Cons b fl1)
        with append_turn_block(3) [OF args False Cons, of fuel] step show ?thesis by blast
      qed
    qed
  qed
qed

text \<open>Reading follows the chain and returns the requested part of the payload.\<close>

lemma read_chain_done [simp]: "read_chain fuel p blk pos off 0 = Some []"
  by (cases fuel) auto

lemma slice_block:
  "start + n \<le> mp_block_size p \<Longrightarrow>
     slice (b * mp_block_size p + start) n (mp_block_data p) = take n (drop start (block_bytes p b))"
  by (simp add: block_bytes_def slice_def drop_take add.commute min_def)

lemma read_chain_linked:
  assumes "linked (mp_blocks p) blk c" and "length (mp_blocks p) = mp_block_count p"
    and "mp_block_count p \<le> 65535" and "length c \<le> fuel"
    and "length (mp_block_data p) = mp_block_count p * mp_block_size p" and "pos \<le> off"
  shows "read_chain fuel p blk pos off n
    = Some (take n (drop (off - pos) (concat (map (block_bytes p) c))))"
  using assms
proof (induction c arbitrary: blk pos off n fuel)
  case Nil
  then show ?case by (cases fuel) auto
next
  case (Cons a c)
  let ?w = "mp_block_size p"
  obtain f where f: "fuel = Suc f" using Cons.prems(4) by (cases fuel) auto
  have a: "unat blk = a" "blk \<noteq> nil16" "a < mp_block_count p"
    using Cons.prems unat_block [of "mp_blocks p" a] block_not_nil [of "mp_blocks p" a] by auto
  have len: "length (block_bytes p a) = ?w"
    by (rule length_block_bytes [OF Cons.prems(5) a(3)])
  have ih: "read_chain f p (bk_next (mp_blocks p ! a)) (pos + ?w) off' m
      = Some (take m (drop (off' - (pos + ?w)) (concat (map (block_bytes p) c))))"
    if "pos + ?w \<le> off'" for off' m
    using Cons.IH [of "bk_next (mp_blocks p ! a)" f "pos + ?w" off' m] Cons.prems f that by simp
  consider "n = 0" | "0 < n" "off \<ge> pos + ?w" | "0 < n" "off < pos + ?w" by linarith
  then show ?case
  proof cases
    case 2
    with ih [of off n] a f len show ?thesis by (simp add: Let_def)
  next
    case 3
    obtain st where st: "off = pos + st" "st < ?w"
      using 3 Cons.prems(6) by (metis le_Suc_ex nat_add_left_cancel_less)
    have sl: "slice (a * ?w + st) k (mp_block_data p) = take k (drop st (block_bytes p a))"
      if "st + k \<le> ?w" for k
      using that by (rule slice_block)
    show ?thesis
    proof (cases "n \<le> ?w - st")
      case True
      then have "st + n \<le> ?w" using st(2) by simp
      from sl [OF this] 3 a f len st True show ?thesis by (cases "st = 0") (simp_all add: Let_def)
    next
      case False
      with 3 a f len st sl [of "?w - st"] ih [of "pos + ?w" "n - (?w - st)"] show ?thesis
        by (cases "st = 0") (simp_all add: Let_def)
    qed
  qed simp
qed

lemma mp_inv_shape: "mp_inv p \<Longrightarrow> pool_shape p (free_list p) (slot_chain p)"
  by (simp add: mp_inv_def)

lemma shape_content:
  "pool_shape p fl ch \<Longrightarrow> msg_valid p h \<Longrightarrow>
     msg_content p h = slot_bytes p (ch (unat (slot h))) (unat (slot h))"
  using pool_shape_chains(2) [of p fl ch "unat (slot h)"] by (simp add: msg_content_def msg_valid_def)

lemma length_msg_content: "mp_inv p \<Longrightarrow> length (msg_content p h) = payload_size p h"
proof (cases "msg_valid p h")
  case True
  assume inv: "mp_inv p"
  note sh = mp_inv_shape [OF inv]
  have i: "unat (slot h) < length (mp_slots p)" using msg_validD [OF True] by simp
  show ?thesis
    using length_chain_bytes [OF shape_basic(4) [OF sh] shape_chain_range [OF sh i]]
      pool_shape_slot_ok(1) [OF sh i] True
    by (simp add: msg_content_def slot_bytes_def payload_size_def slot_ok_def)
qed (simp add: msg_content_def payload_size_def)

lemma read_payload_content:
  assumes inv: "mp_inv p"
  shows "read_payload p h off cap = take cap (drop off (msg_content p h))"
proof (cases "msg_valid p h \<and> cap \<noteq> 0 \<and> off < payload_size p h")
  case True
  let ?i = "unat (slot h)"
  let ?L = "unat (sl_payload_len (mp_slots p ! ?i))"
  note sh = mp_inv_shape [OF inv]
  have i: "?i < length (mp_slots p)" using True msg_validD by blast
  have "length (slot_chain p ?i) \<le> mp_block_count p"
    using shape_chain_length [OF sh i] shape_basic(10) [OF sh] by simp
  then have "read_chain (mp_block_count p) p (sl_first_block (mp_slots p ! ?i)) 0 off
        (min (?L - off) cap)
      = Some (take (min (?L - off) cap) (drop off (concat (map (block_bytes p) (slot_chain p ?i)))))"
    using read_chain_linked [OF pool_shape_slot_ok(2) [OF sh i] shape_basic(2,3) [OF sh] _
        shape_basic(4) [OF sh], of "mp_block_count p" 0 off] by simp
  with True show ?thesis
    by (simp add: read_payload_def Let_def payload_size_def msg_content_def slot_bytes_def
        drop_take min.commute)
next
  case False
  then show ?thesis
    using length_msg_content [OF inv, of h]
    by (auto simp: read_payload_def msg_content_def payload_size_def Let_def)
qed

lemma append_payload_effect:
  assumes inv: "mp_inv p" and v: "msg_valid p h" and ne: "data \<noteq> []"
    and r: "append_payload h data p = (ok, p')"
  shows "mp_inv p'" and "ok \<longleftrightarrow> payload_size p h + length data
      \<le> (unat (sl_block_count (mp_slot p h)) + mp_blocks_free p) * mp_block_size p"
    and "\<exists>n \<le> length data. (ok \<longleftrightarrow> n = length data) \<and> msg_content p' h = msg_content p h @ take n data"
    and "msg_valid p' k = msg_valid p k" and "msg_ref_count p' k = msg_ref_count p k"
    and "k \<noteq> h \<Longrightarrow> msg_content p' k = msg_content p k"
    and "msg_props p' k = msg_props p k"
proof -
  let ?i = "unat (slot h)"
  note sh = mp_inv_shape [OF inv]
  have i: "?i < length (mp_slots p)" using msg_validD [OF v] by simp
  have "append_loop (length data) h data p = (ok, p')"
    using r v ne by (simp add: append_payload_def)
  then obtain fl' ch' n where
    a: "appended p (free_list p) (slot_chain p) ?i (take n data) p' fl' ch'" "n \<le> length data"
      "ok \<longleftrightarrow> n = length data"
    and ok: "ok \<longleftrightarrow> unat (sl_payload_len (mp_slot p h)) + length data
              \<le> (length (slot_chain p ?i) + length (free_list p)) * mp_block_size p"
    using append_loop_appended [OF sh v refl, of data "length data"] by auto
  have sh': "pool_shape p' fl' ch'" using a(1) by (simp add: appended_def)
  then show "mp_inv p'" by (rule mp_invI)
  have v': "msg_valid p' k = msg_valid p k" for k by (rule appended_valid [OF a(1) i])
  then show "msg_valid p' k = msg_valid p k" .
  have meta: "mp_slots p' = (mp_slots p)[?i := mp_slots p' ! ?i]"
    "same_slot_meta (mp_slots p ! ?i) (mp_slots p' ! ?i)"
    using a(1) by (auto simp: appended_def)
  have same: "same_slot_meta (mp_slots p ! j) (mp_slots p' ! j)" for j
    using meta by (cases "j = ?i") (metis, metis nth_list_update_neq same_slot_meta_def)
  then show "msg_ref_count p' k = msg_ref_count p k" "msg_props p' k = msg_props p k"
    by (auto simp: msg_ref_count_def msg_props_def v' same_slot_meta_def)
  show "\<exists>n \<le> length data. (ok \<longleftrightarrow> n = length data) \<and> msg_content p' h = msg_content p h @ take n data"
    using a(1-3) shape_content [OF sh v] shape_content [OF sh', of h] v v' [of h]
    by (auto simp: appended_def intro!: exI [of _ n])
  have "length (slot_chain p ?i) < 65536"
    using shape_chain_length [OF sh i] shape_basic(3,10) [OF sh] by simp
  then have "unat (sl_block_count (mp_slot p h)) = length (slot_chain p ?i)"
    using pool_shape_slot_ok(1) [OF sh i] by (simp add: slot_ok_def unat_of_nat_u16)
  with ok v shape_basic(9) [OF sh] show "ok \<longleftrightarrow> payload_size p h + length data
      \<le> (unat (sl_block_count (mp_slot p h)) + mp_blocks_free p) * mp_block_size p"
    by (simp add: payload_size_def)
  assume "k \<noteq> h"
  show "msg_content p' k = msg_content p k"
  proof (cases "msg_valid p k")
    case True
    then have "unat (slot k) \<noteq> ?i"
      using v \<open>k \<noteq> h\<close> by (auto simp: msg_valid_def word_unat_eq_iff [symmetric])
    with a(1) True v' [of k] shape_content [OF sh True] shape_content [OF sh', of k]
    show ?thesis by (auto simp: appended_def dest: msg_validD)
  qed (simp add: msg_content_def v')
qed

lemma msg_valid_ref_count:
  assumes "mp_inv p" shows "msg_valid p h \<longleftrightarrow> msg_ref_count p h \<noteq> 0"
  using pool_shape_slot_ok(1) [OF mp_inv_shape [OF assms], of "unat (slot h)"] msg_validD [of p h]
  by (auto simp: msg_ref_count_def slot_ok_def)

lemma mp_inv_acquire: "mp_inv p \<Longrightarrow> mp_inv (snd (msg_acquire h p))"
  using shape_msg_acquire [OF mp_inv_shape] by (rule mp_invI)

lemma mp_inv_acquire_empty: "mp_inv p \<Longrightarrow> mp_inv (snd (acquire_empty p))"
  using shape_acquire_empty [OF mp_inv_shape] by (rule mp_invI)

lemma mp_inv_release: "mp_inv p \<Longrightarrow> mp_inv (msg_release h p)"
  using shape_msg_release [OF mp_inv_shape] mp_invI by blast

lemma mp_inv_set_props: "mp_inv p \<Longrightarrow> mp_inv (snd (set_props h data p))"
  using shape_set_props [OF mp_inv_shape] by (rule mp_invI)

lemma mp_inv_set_expiry: "mp_inv p \<Longrightarrow> mp_inv (set_expiry h interval tick p)"
  using shape_set_expiry [OF mp_inv_shape] by (rule mp_invI)

lemma mp_inv_append: "mp_inv p \<Longrightarrow> mp_inv (snd (append_payload h data p))"
proof (cases "msg_valid p h \<and> data \<noteq> []")
  case True
  assume "mp_inv p"
  with True append_payload_effect(1) show ?thesis by (metis prod.collapse)
qed (auto simp: append_payload_def)

lemma slot_neq:
  "msg_valid p h \<Longrightarrow> msg_valid p k \<Longrightarrow> k \<noteq> h \<Longrightarrow> unat (slot k) \<noteq> unat (slot h)"
  by (auto simp: msg_valid_def word_unat_eq_iff [symmetric])

lemma same_generation_slot:
  "unat (slot k) = unat (slot h) \<Longrightarrow> generation k = generation h \<Longrightarrow> k = (h :: Handle)"
  by (simp add: word_unat_eq_iff [symmetric])

text \<open>Changing the reference count of a slot changes nothing else.\<close>

lemma set_ref_count_frame:
  assumes v: "msg_valid p h"
    and p': "p' = set_mp_slot h ((mp_slot p h)\<lparr>sl_ref_count := r\<rparr>) p"
  shows "msg_valid p' k = msg_valid p k"
    and "msg_ref_count p' k = (if k = h then r else msg_ref_count p k)"
    and "msg_content p' k = msg_content p k"
proof -
  have i: "unat (slot h) < length (mp_slots p)" using msg_validD [OF v] by simp
  show v': "msg_valid p' k = msg_valid p k" for k
    by (auto simp: msg_valid_def p' nth_upd)
  show "msg_ref_count p' k = (if k = h then r else msg_ref_count p k)"
    using v v' [of k] i slot_neq [OF v, of k] by (auto simp: msg_ref_count_def p' nth_upd)
  have "slot_chain p' j = slot_chain p j"
    "sl_payload_len (mp_slots p' ! j) = sl_payload_len (mp_slots p ! j)" for j
    by (auto simp: slot_chain_def p' nth_upd)
  moreover have "block_bytes p' = block_bytes p"
    by (simp add: fun_eq_iff block_bytes_def p')
  ultimately show "msg_content p' k = msg_content p k"
    by (simp add: msg_content_def v' slot_bytes_def)
qed

lemma msg_acquire_effect:
  assumes "msg_acquire h p = (True, p')"
  shows "msg_valid p h" and "msg_valid p' k = msg_valid p k"
    and "unat (msg_ref_count p' k) = unat (msg_ref_count p k) + (if k = h then 1 else 0)"
    and "msg_content p' k = msg_content p k"
proof -
  let ?s = "mp_slot p h"
  have v: "msg_valid p h" and ne: "sl_ref_count ?s \<noteq> 0xFFFF"
    and p': "p' = set_mp_slot h (?s\<lparr>sl_ref_count := sl_ref_count ?s + 1\<rparr>) p"
    using assms by (auto simp: msg_acquire_def Let_def split: if_splits)
  have "unat (sl_ref_count ?s + 1) = unat (sl_ref_count ?s) + 1"
    by (rule unat_inc_u16 [OF ne])
  with v set_ref_count_frame [OF v p', of k]
  show "msg_valid p h" "msg_valid p' k = msg_valid p k" "msg_content p' k = msg_content p k"
    "unat (msg_ref_count p' k) = unat (msg_ref_count p k) + (if k = h then 1 else 0)"
    by (auto simp: msg_ref_count_def)
qed

lemma msg_release_keep:
  assumes v: "msg_valid p h" and r: "1 < unat (msg_ref_count p h)"
  shows "msg_valid (msg_release h p) k = msg_valid p k"
    and "unat (msg_ref_count (msg_release h p) k) = unat (msg_ref_count p k) - (if k = h then 1 else 0)"
    and "msg_content (msg_release h p) k = msg_content p k"
    and "mp_blocks_free (msg_release h p) = mp_blocks_free p"
proof -
  let ?s = "mp_slot p h"
  have nz: "sl_ref_count ?s \<noteq> 0" using r v by (auto simp: msg_ref_count_def)
  then have "unat (sl_ref_count ?s - 1) \<noteq> 0"
    using r v unat_dec_u16 [OF nz] by (simp add: msg_ref_count_def)
  with nz have p': "msg_release h p = set_mp_slot h (?s\<lparr>sl_ref_count := sl_ref_count ?s - 1\<rparr>) p"
    using v by (simp add: msg_release_def Let_def word_gt_0 unat_eq_zero)
  from set_ref_count_frame [OF v p', of k] unat_dec_u16 [OF nz] v
  show "msg_valid (msg_release h p) k = msg_valid p k"
    "unat (msg_ref_count (msg_release h p) k) = unat (msg_ref_count p k) - (if k = h then 1 else 0)"
    "msg_content (msg_release h p) k = msg_content p k"
    by (auto simp: msg_ref_count_def)
  show "mp_blocks_free (msg_release h p) = mp_blocks_free p" by (simp add: p')
qed

lemma msg_release_last:
  assumes inv: "mp_inv p" and v: "msg_valid p h" and r: "msg_ref_count p h = 1"
  shows "msg_valid (msg_release h p) k \<longleftrightarrow> msg_valid p k \<and> k \<noteq> h"
    and "msg_ref_count (msg_release h p) k = (if k = h then 0 else msg_ref_count p k)"
    and "k \<noteq> h \<Longrightarrow> msg_content (msg_release h p) k = msg_content p k"
    and "mp_blocks_free (msg_release h p)
      = mp_blocks_free p + (payload_size p h + mp_block_size p - 1) div mp_block_size p"
proof -
  let ?i = "unat (slot h)"
  let ?s = "mp_slot p h" and ?q = "msg_release h p"
  note sh = mp_inv_shape [OF inv]
  have i: "?i < length (mp_slots p)" and gen: "sl_generation ?s = generation h"
    using v by (auto simp: msg_valid_def)
  obtain bl hd' where q: "?q = p\<lparr>mp_blocks := bl, mp_free_block_head := hd',
        mp_blocks_allocated := mp_blocks_allocated p - length (slot_chain p ?i),
        mp_blocks_free := mp_blocks_free p + length (slot_chain p ?i),
        mp_slots := (mp_slots p)[?i := slot_freed ?s]\<rparr>"
    and qs: "pool_shape ?q (rev (slot_chain p ?i) @ free_list p) ((slot_chain p)(?i := []))"
    using shape_release_last [OF sh i] v r by (auto simp: msg_release_def Let_def msg_ref_count_def)
  show v': "msg_valid ?q k \<longleftrightarrow> msg_valid p k \<and> k \<noteq> h" for k
    using i gen same_generation_slot [of k h]
    by (auto simp: msg_valid_def q nth_upd slot_freed_def)
  show "msg_ref_count ?q k = (if k = h then 0 else msg_ref_count p k)"
    using v' [of k] slot_neq [OF v, of k] by (auto simp: msg_ref_count_def q)
  show "msg_content ?q k = msg_content p k" if "k \<noteq> h"
  proof (cases "msg_valid p k")
    case True
    with that v have "unat (slot k) \<noteq> ?i" by (intro slot_neq)
    moreover have "block_bytes ?q = block_bytes p"
      by (simp add: fun_eq_iff block_bytes_def q)
    ultimately show ?thesis
      using shape_content [OF qs, of k] shape_content [OF sh True] v' [of k] True that
      by (simp add: slot_bytes_def) (simp add: q)
  qed (simp add: msg_content_def v')
  have "length (slot_chain p ?i) = (payload_size p h + mp_block_size p - 1) div mp_block_size p"
    using pool_shape_slot_ok(1) [OF sh i] v shape_basic(1) [OF sh]
    by (intro sym [OF div_nat_eqI]) (auto simp: slot_ok_def payload_size_def mult.commute)
  then show "mp_blocks_free ?q = mp_blocks_free p + (payload_size p h + mp_block_size p - 1) div mp_block_size p"
    by (simp add: q)
qed

lemma msg_release_stale: "\<not> msg_valid p h \<Longrightarrow> msg_release h p = p"
  by (simp add: msg_release_def)

interpretation mp: ref_counted mp_inv msg_valid "\<lambda>p h. unat (msg_ref_count p h)" "\<lambda>_ _. True"
  msg_acquire msg_release
proof
  fix p h k p' assume inv: "mp_inv p"
  show "msg_valid p h \<longleftrightarrow> 0 < unat (msg_ref_count p h)"
    using msg_valid_ref_count [OF inv] by (simp add: unat_gt_0)
  show "mp_inv p' \<and> msg_valid p h \<and>
      unat (msg_ref_count p' k) = unat (msg_ref_count p k) + (if k = h then 1 else 0)"
    if "msg_acquire h p = (True, p')"
    using msg_acquire_effect [OF that] mp_inv_acquire [OF inv, of h] that by simp
  show "mp_inv (msg_release h p) \<and>
      unat (msg_ref_count (msg_release h p) k) = unat (msg_ref_count p k) - (if k = h then 1 else 0)"
  proof (intro conjI mp_inv_release [OF inv])
    consider "\<not> msg_valid p h" | "msg_valid p h" "1 < unat (msg_ref_count p h)"
      | "msg_valid p h" "msg_ref_count p h = 1"
      using msg_valid_ref_count [OF inv, of h]
      by (metis One_nat_def less_one linorder_neqE_nat unat_1 unat_eq_zero word_unat_eq_iff)
    then show "unat (msg_ref_count (msg_release h p) k)
        = unat (msg_ref_count p k) - (if k = h then 1 else 0)"
    proof cases
      case 1
      then show ?thesis by (simp add: msg_release_stale msg_ref_count_def)
    qed (use msg_release_keep(2) msg_release_last(2) [OF inv] in auto)
  qed
next
  show "msg_acquire h p = (False, p') \<Longrightarrow> p' = p" for h p p'
    by (auto simp: msg_acquire_def Let_def split: if_splits)
qed

lemma acquire_empty_effect:
  assumes inv: "mp_inv p" and r: "acquire_empty p = (h, p')" and h: "h \<noteq> NULL_MESSAGE"
  shows "\<not> msg_valid p h" and "msg_valid p' k \<longleftrightarrow> msg_valid p k \<or> k = h"
    and "msg_ref_count p' k = (if k = h then 1 else msg_ref_count p k)"
    and "msg_content p' k = (if k = h then [] else msg_content p k)"
proof -
  note sh = mp_inv_shape [OF inv]
  obtain i where f: "first_idx (\<lambda>s. \<not> sl_in_use s) (mp_slots p) = Some i"
    using r h by (auto simp: acquire_empty_def split: option.splits)
  then have i: "i < length (mp_slots p)" "\<not> sl_in_use (mp_slots p ! i)" by auto
  define s where "s = (mp_slots p ! i)\<lparr>sl_in_use := True, sl_ref_count := 1, sl_payload_len := 0,
      sl_first_block := 0xFFFF, sl_block_count := 0, sl_props_len := 0,
      sl_expiry_interval := 0, sl_publish_tick := 0\<rparr>"
  have p': "p' = p\<lparr>mp_slots := (mp_slots p)[i := s]\<rparr>"
    and hh: "slot h = of_nat i" "generation h = sl_generation (mp_slots p ! i)"
    using r f by (auto simp: acquire_empty_def s_def Let_def)
  have u: "unat (of_nat i :: u16) = i"
    using i(1) shape_basic(6) [OF sh] by (simp add: unat_of_nat_u16)
  have hv: "message_handle_valid h" using h by (simp add: message_handle_valid_iff)
  show "\<not> msg_valid p h" using i u hh by (simp add: msg_valid_def)
  have slot_i: "k = h" if "unat (slot k) = i" "generation k = sl_generation (mp_slots p ! i)" for k
    using that u hh by (intro same_generation_slot) auto
  show v': "msg_valid p' k \<longleftrightarrow> msg_valid p k \<or> k = h" for k
    using i u hh hv slot_i [of k] by (auto simp: msg_valid_def p' nth_upd s_def)
  have not_i: "unat (slot k) \<noteq> i" if "msg_valid p k" for k
    using that i by (auto simp: msg_valid_def)
  show "msg_ref_count p' k = (if k = h then 1 else msg_ref_count p k)"
    using v' [of k] i u hh not_i [of k] by (auto simp: msg_ref_count_def p' nth_upd s_def)
  have "block_bytes p' = block_bytes p" by (simp add: fun_eq_iff block_bytes_def p')
  moreover have "slot_chain p' j = slot_chain p j" if "j \<noteq> i" for j
    using that by (simp add: slot_chain_def p')
  ultimately show "msg_content p' k = (if k = h then [] else msg_content p k)"
    using v' [of k] not_i [of k] i u hh
    by (auto simp: msg_content_def slot_bytes_def p' nth_upd s_def)
qed

text \<open>The bytes a message can hold at most: its own blocks and the free ones.\<close>

definition mp_room :: "MessagePool \<Rightarrow> MessageHandle \<Rightarrow> nat" where
  "mp_room p h = (unat (sl_block_count (mp_slot p h)) + mp_blocks_free p) * mp_block_size p"

lemma shape_room:
  assumes sh: "pool_shape p fl ch" and i: "unat (slot h) < length (mp_slots p)"
  shows "mp_room p h = (length (ch (unat (slot h))) + length fl) * mp_block_size p"
proof -
  have "length (ch (unat (slot h))) < 65536"
    using shape_chain_length [OF sh i] shape_basic(3,10) [OF sh] by simp
  then show ?thesis
    using pool_shape_slot_ok(1) [OF sh i] shape_basic(9) [OF sh]
    by (simp add: mp_room_def slot_ok_def unat_of_nat_u16)
qed

text \<open>A successful append keeps the room; \<open>acquire_empty\<close> starts with all the free blocks.\<close>

lemma append_payload_room:
  assumes inv: "mp_inv p" and v: "msg_valid p h" and ne: "data \<noteq> []"
    and r: "append_payload h data p = (ok, p')"
  shows "mp_room p' h = mp_room p h"
proof -
  note sh = mp_inv_shape [OF inv]
  have i: "unat (slot h) < length (mp_slots p)" using msg_validD [OF v] by simp
  have "append_loop (length data) h data p = (ok, p')"
    using r v ne by (simp add: append_payload_def)
  then obtain fl' ch' n where
    a: "appended p (free_list p) (slot_chain p) (unat (slot h)) (take n data) p' fl' ch'"
    using append_loop_appended [OF sh v refl, of data "length data"] by auto
  then have sh': "pool_shape p' fl' ch'" and "length (mp_slots p') = length (mp_slots p)"
    by (simp_all add: appended_def) (metis length_list_update)
  with a i shape_room [OF sh i] shape_room [OF sh', of h] show ?thesis by (simp add: appended_def)
qed

lemma append_payload_fits:
  assumes "mp_inv p" and "msg_valid p h" and "data \<noteq> []" and "append_payload h data p = (ok, p')"
    and "payload_size p h + length data \<le> mp_room p h"
  shows "ok" and "msg_content p' h = msg_content p h @ data"
    and "payload_size p' h = payload_size p h + length data"
proof -
  show ok: ok using append_payload_effect(2) [OF assms(1-4)] assms(5) by (simp add: mp_room_def)
  show c: "msg_content p' h = msg_content p h @ data"
    using append_payload_effect(3) [OF assms(1-4)] ok by auto
  show "payload_size p' h = payload_size p h + length data"
    using c length_msg_content [OF assms(1), of h] append_payload_effect(1) [OF assms(1-4)]
      length_msg_content [of p' h] by simp
qed

lemma acquire_empty_room:
  assumes inv: "mp_inv p" and free: "\<exists>s \<in> set (mp_slots p). \<not> sl_in_use s"
    and r: "acquire_empty p = (h, p')"
  shows "h \<noteq> NULL_MESSAGE" and "mp_room p' h = mp_blocks_free p * mp_block_size p"
proof -
  note sh = mp_inv_shape [OF inv]
  obtain i where f: "first_idx (\<lambda>s. \<not> sl_in_use s) (mp_slots p) = Some i"
    using free by (cases "first_idx (\<lambda>s. \<not> sl_in_use s) (mp_slots p)") (auto simp: first_idx_None_iff)
  then have i: "i < length (mp_slots p)" by auto
  then have u: "unat (of_nat i :: u16) = i" "i < 65535"
    using shape_basic(6) [OF sh] by (simp_all add: unat_of_nat_u16)
  have h: "slot h = of_nat i" using r f by (auto simp: acquire_empty_def Let_def)
  then have "unat (slot h) \<noteq> 65535" using u by simp
  then show "h \<noteq> NULL_MESSAGE" by (auto simp: NULL_HANDLE_def)
  show "mp_room p' h = mp_blocks_free p * mp_block_size p"
    using r f i u h by (auto simp: acquire_empty_def Let_def mp_room_def)
qed

section \<open>Sequences of operations\<close>

datatype PoolOp =
    AcquireEmpty
  | Acquire MessageHandle
  | Release MessageHandle
  | Append MessageHandle "byte list"
  | SetProps MessageHandle "byte list"
  | SetExpiry MessageHandle u32 u32

primrec pool_step :: "PoolOp \<Rightarrow> MessagePool \<Rightarrow> MessagePool" where
  "pool_step AcquireEmpty p = snd (acquire_empty p)"
| "pool_step (Acquire h) p = snd (msg_acquire h p)"
| "pool_step (Release h) p = msg_release h p"
| "pool_step (Append h data) p = snd (append_payload h data p)"
| "pool_step (SetProps h data) p = snd (set_props h data p)"
| "pool_step (SetExpiry h t n) p = set_expiry h t n p"

lemmas mp_inv_intros = mp_inv_acquire_empty mp_inv_acquire mp_inv_release mp_inv_append
  mp_inv_set_props mp_inv_set_expiry

lemma mp_inv_step: "mp_inv p \<Longrightarrow> mp_inv (pool_step op p)"
  by (cases op) (simp_all add: mp_inv_intros)

lemma mp_inv_steps: "mp_inv p \<Longrightarrow> mp_inv (fold pool_step ops p)"
  by (induction ops arbitrary: p) (auto simp: mp_inv_step)

section \<open>Properties\<close>

text \<open>Claim C8. The block arena is never corrupted: after any sequence of pool operations on a new
  pool, with any handles (stale and forged ones included), following the block links from the
  free head and from every slot ends, the chains found are pairwise disjoint and have no
  repetition, the two counters are exact and every block is in exactly one chain.\<close>

theorem message_pool_arena:
  assumes "0 < block_size" and "block_count \<le> 65535" and "slot_count \<le> 65535"
    and "block_count * block_size < 2 ^ 32"
    and "p = fold pool_step ops (MessagePool_new block_size block_count slot_count)"
  shows "distinct (free_list p)
    \<and> (\<forall>i < length (mp_slots p). distinct (slot_chain p i) \<and> set (slot_chain p i) \<inter> set (free_list p) = {}
         \<and> (\<forall>j < length (mp_slots p). i \<noteq> j \<longrightarrow> set (slot_chain p i) \<inter> set (slot_chain p j) = {}))
    \<and> length (free_list p) = mp_blocks_free p
    \<and> sum_list (map (\<lambda>i. length (slot_chain p i)) [0..<length (mp_slots p)]) = mp_blocks_allocated p
    \<and> mp_blocks_allocated p + mp_blocks_free p = mp_block_count p"
  using mp_inv_shape [OF mp_inv_steps [OF mp_inv_new [OF assms(1-4)], of ops]]
  unfolding assms(5) [symmetric] by (simp add: pool_shape_def)

theorem message_pool_arena_witness:
  "\<exists>p. p = fold pool_step [AcquireEmpty, Append \<lparr>slot = 0, generation = 1\<rparr> [1, 2, 3],
        AcquireEmpty, Release \<lparr>slot = 0, generation = 1\<rparr>] (MessagePool_new 2 4 3)
     \<and> mp_blocks_allocated p + mp_blocks_free p = mp_block_count p"
  using message_pool_arena [of 2 4 3 _ "[AcquireEmpty, Append \<lparr>slot = 0, generation = 1\<rparr> [1, 2, 3],
        AcquireEmpty, Release \<lparr>slot = 0, generation = 1\<rparr>]"] by (simp del: fold_simps)

text \<open>Claim C21. Appending to a payload: on a consistent pool and a live handle, the call succeeds
  exactly when the unused part of the message's tail block and the free blocks can hold the data;
  then the payload is the old payload followed by the data, otherwise it is the old payload and a
  proper prefix of the data. No other message's payload, and no reference count or stored
  property, changes.\<close>

theorem message_append:
  assumes "mp_inv p" and "msg_valid p h" and "data \<noteq> []" and "append_payload h data p = (ok, p')"
  shows "mp_inv p'
    \<and> (ok \<longleftrightarrow> payload_size p h + length data
         \<le> (unat (sl_block_count (mp_slot p h)) + mp_blocks_free p) * mp_block_size p)
    \<and> (\<exists>n \<le> length data. (ok \<longleftrightarrow> n = length data) \<and> msg_content p' h = msg_content p h @ take n data)
    \<and> (\<forall>k. k \<noteq> h \<longrightarrow> msg_content p' k = msg_content p k)
    \<and> (\<forall>k. msg_ref_count p' k = msg_ref_count p k \<and> msg_props p' k = msg_props p k)"
  using append_payload_effect [OF assms] by blast

theorem message_append_witness:
  "\<exists>p h p'. msg_valid p h \<and> append_payload h [1, 2, 3] p = (True, p')
     \<and> msg_content p' h = msg_content p h @ [1, 2, 3]"
proof -
  let ?n = "MessagePool_new 2 4 3"
  let ?p = "snd (acquire_empty ?n)" and ?h = "\<lparr>slot = 0, generation = 1\<rparr> :: Handle"
  have inv: "mp_inv ?p" by (intro mp_inv_intros mp_inv_new) simp_all
  have v: "msg_valid ?p ?h" by code_simp
  obtain ok p' where r: "append_payload ?h [1, 2, 3] ?p = (ok, p')"
    by (cases "append_payload ?h [1, 2, 3] ?p")
  have "fst (append_payload ?h [1, 2, 3] ?p)" by code_simp
  with r have ok by simp
  with message_append [OF inv v _ r] v r show ?thesis
    by (intro exI [of _ ?p] exI [of _ ?h] exI [of _ p']) auto
qed

text \<open>Claim C22. Reading a payload: on a consistent pool, \<open>read_payload\<close> returns exactly the bytes of
  the payload from the offset on, at most \<open>cap\<close> of them, for every offset (also across blocks),
  and nothing for a stale handle; \<open>payload_size\<close> is the length of the payload.\<close>

theorem message_read:
  assumes "mp_inv p"
  shows "read_payload p h off cap = take cap (drop off (msg_content p h))
    \<and> payload_size p h = length (msg_content p h)"
  using read_payload_content [OF assms] length_msg_content [OF assms] by simp

theorem message_read_witness:
  "\<exists>p h. mp_inv p \<and> msg_valid p h
     \<and> read_payload p h 1 3 = take 3 (drop 1 (msg_content p h)) \<and> read_payload p h 1 3 = [2, 3, 4]"
proof -
  let ?h = "\<lparr>slot = 0, generation = 1\<rparr> :: Handle"
  let ?p = "snd (append_payload ?h [1, 2, 3, 4, 5] (snd (acquire_empty (MessagePool_new 2 4 3))))"
  have inv: "mp_inv ?p" by (intro mp_inv_intros mp_inv_new) simp_all
  have "msg_valid ?p ?h" and "read_payload ?p ?h 1 3 = [2, 3, 4]" by code_simp+
  with message_read [OF inv, of ?h 1 3] inv show ?thesis by blast
qed

text \<open>Claim C23. Releasing a reference: the count of that handle drops by one and no other handle's
  does. While references remain, every payload is unchanged. The last release makes the handle
  invalid, returns all its blocks to the free list and leaves the other payloads unchanged.\<close>

theorem message_release:
  assumes "mp_inv p" and "msg_valid p h" and "p' = msg_release h p"
  shows "mp_inv p'
    \<and> (\<forall>k. unat (msg_ref_count p' k) = unat (msg_ref_count p k) - (if k = h then 1 else 0))
    \<and> (\<forall>k. k \<noteq> h \<longrightarrow> msg_content p' k = msg_content p k)
    \<and> (if msg_ref_count p h = 1
       then \<not> msg_valid p' h \<and> mp_blocks_free p' =
              mp_blocks_free p + (payload_size p h + mp_block_size p - 1) div mp_block_size p
       else msg_valid p' h \<and> msg_content p' h = msg_content p h
              \<and> mp_blocks_free p' = mp_blocks_free p)"
proof (cases "msg_ref_count p h = 1")
  case True
  show ?thesis
    using msg_release_last [OF assms(1,2) True] mp_inv_release [OF assms(1)] mp.rel_rc [OF assms(1)]
      True assms(3) by simp
next
  case False
  with mp.valid_rc [OF assms(1)] assms(2) have "1 < unat (msg_ref_count p h)"
    by (metis One_nat_def Suc_lessI unat_1 word_unat_eq_iff)
  from msg_release_keep [OF assms(2) this] mp_inv_release [OF assms(1)] mp.rel_rc [OF assms(1)]
    False assms(2,3) show ?thesis by simp
qed

theorem message_release_witness:
  "\<exists>p h. mp_inv p \<and> msg_valid p h \<and> \<not> msg_valid (msg_release h p) h
     \<and> mp_blocks_free (msg_release h p) = mp_blocks_free p + 3"
proof -
  let ?h = "\<lparr>slot = 0, generation = 1\<rparr> :: Handle"
  let ?p = "snd (append_payload ?h [1, 2, 3, 4, 5] (snd (acquire_empty (MessagePool_new 2 4 3))))"
  have inv: "mp_inv ?p" by (intro mp_inv_intros mp_inv_new) simp_all
  have v: "msg_valid ?p ?h" and "msg_ref_count ?p ?h = 1"
    and "payload_size ?p ?h = 5" and "mp_block_size ?p = 2" by code_simp+
  with message_release [OF inv v refl] inv show ?thesis
    by (intro exI [of _ ?p] exI [of _ ?h]) simp
qed

end
