(* ===== verification/Topic_Intern.thy ===== *)
theory Topic_Intern
  imports Topic_Names Ref_Counting
begin

text \<open>
  The intern pool of topic names (\<open>topic_intern.cpp\<close>): a table of reference-counted entries that
  point into one character arena, which is compacted whenever an entry is freed. The invariant
  \<open>ti_inv\<close> says that the live strings, each with its terminator, tile the used part of the arena
  in some order. On it, the string of a live handle survives every operation on other handles
  (the compaction included), equal topics share an entry, and the arena never leaks.
\<close>

section \<open>State and operations\<close>

record Entry =
  te_generation :: u16
  te_ref_count :: u16
  te_offset :: u16
  te_length :: u16
  te_in_use :: bool

record TopicInternPool =
  ti_entries :: "Entry list"
  ti_blob :: "byte list"
  ti_blob_cap :: nat
  ti_topic_count :: nat
  ti_bytes_used :: nat

text \<open>The fields the constructor leaves uninitialised are shown as zero.\<close>

definition TopicInternPool_new :: "nat \<Rightarrow> nat \<Rightarrow> TopicInternPool" where
  "TopicInternPool_new max_topics max_bytes =
     \<lparr>ti_entries = replicate max_topics \<lparr>te_generation = 1, te_ref_count = 0, te_offset = 0,
        te_length = 0, te_in_use = False\<rparr>,
      ti_blob = replicate max_bytes 0, ti_blob_cap = max_bytes, ti_topic_count = 0,
      ti_bytes_used = 0\<rparr>"

abbreviation ti_entry :: "TopicInternPool \<Rightarrow> TopicHandle \<Rightarrow> Entry" where
  "ti_entry p h \<equiv> ti_entries p ! unat (slot h)"

definition topic_handle_valid :: "TopicInternPool \<Rightarrow> TopicHandle \<Rightarrow> bool" where
  "topic_handle_valid p h \<longleftrightarrow>
     slot h \<noteq> 0xFFFF \<and> unat (slot h) < length (ti_entries p)
     \<and> te_in_use (ti_entry p h) \<and> te_generation (ti_entry p h) = generation h"

text \<open>The test of the deduplication scan.\<close>

definition holds_topic :: "byte list \<Rightarrow> byte list \<Rightarrow> Entry \<Rightarrow> bool" where
  "holds_topic blob topic e \<longleftrightarrow>
     te_in_use e \<and> unat (te_length e) = length topic
     \<and> slice (unat (te_offset e)) (length topic) blob = topic"

definition intern :: "byte list \<Rightarrow> TopicInternPool \<Rightarrow> TopicHandle \<times> TopicInternPool" where
  "intern topic p =
     (if \<not> topic_valid topic then (NULL_TOPIC, p)
      else let len = length topic in
        case first_idx (holds_topic (ti_blob p) topic) (ti_entries p) of
          Some i \<Rightarrow>
            let e = ti_entries p ! i
            in (\<lparr>slot = of_nat i, generation = te_generation e\<rparr>,
                p\<lparr>ti_entries := (ti_entries p)[i := e\<lparr>te_ref_count := te_ref_count e + 1\<rparr>]\<rparr>)
        | None \<Rightarrow>
            if ti_bytes_used p + len + 1 > ti_blob_cap p then (NULL_TOPIC, p)
            else case first_idx (\<lambda>e. \<not> te_in_use e) (ti_entries p) of
                None \<Rightarrow> (NULL_TOPIC, p)
              | Some i \<Rightarrow>
                  let e = ti_entries p ! i
                  in (\<lparr>slot = of_nat i, generation = te_generation e\<rparr>,
                      p\<lparr>ti_entries := (ti_entries p)[i := e\<lparr>te_in_use := True, te_ref_count := 1,
                            te_offset := of_nat (ti_bytes_used p), te_length := of_nat len\<rparr>],
                        ti_blob := write_at (ti_bytes_used p) (topic @ [0]) (ti_blob p),
                        ti_bytes_used := ti_bytes_used p + (len + 1),
                        ti_topic_count := ti_topic_count p + 1\<rparr>))"

definition topic_acquire :: "TopicHandle \<Rightarrow> TopicInternPool \<Rightarrow> bool \<times> TopicInternPool" where
  "topic_acquire h p =
     (if \<not> topic_handle_valid p h then (False, p)
      else (True, p\<lparr>ti_entries := (ti_entries p)[unat (slot h) :=
              (ti_entry p h)\<lparr>te_ref_count := te_ref_count (ti_entry p h) + 1\<rparr>]\<rparr>))"

text \<open>The entries behind the hole move down with their strings.\<close>

definition shift_entry :: "nat \<Rightarrow> nat \<Rightarrow> Entry \<Rightarrow> Entry" where
  "shift_entry hole_start hole_len e =
     (if te_in_use e \<and> unat (te_offset e) > hole_start
      then e\<lparr>te_offset := of_nat (unat (te_offset e) - hole_len)\<rparr> else e)"

definition topic_release :: "TopicHandle \<Rightarrow> TopicInternPool \<Rightarrow> TopicInternPool" where
  "topic_release h p =
     (if \<not> topic_handle_valid p h then p
      else let e = ti_entry p h in
        if te_ref_count e = 0 then p
        else if te_ref_count e - 1 > 0 then
          p\<lparr>ti_entries := (ti_entries p)[unat (slot h) := e\<lparr>te_ref_count := te_ref_count e - 1\<rparr>]\<rparr>
        else
          let e' = e\<lparr>te_ref_count := 0, te_in_use := False,
                te_generation := bump_generation (te_generation e)\<rparr>;
              hole_start = unat (te_offset e);
              hole_len = unat (te_length e) + 1;
              tail = ti_bytes_used p - (hole_start + hole_len)
          in p\<lparr>ti_entries := map (shift_entry hole_start hole_len)
                  ((ti_entries p)[unat (slot h) := e']),
               ti_topic_count := ti_topic_count p - 1,
               ti_blob := write_at hole_start (slice (hole_start + hole_len) tail (ti_blob p))
                  (ti_blob p),
               ti_bytes_used := ti_bytes_used p - hole_len\<rparr>)"

definition topic_ref_count :: "TopicInternPool \<Rightarrow> TopicHandle \<Rightarrow> u16" where
  "topic_ref_count p h = (if topic_handle_valid p h then te_ref_count (ti_entry p h) else 0)"

definition topic_c_str :: "TopicInternPool \<Rightarrow> TopicHandle \<Rightarrow> byte list" where
  "topic_c_str p h =
     (if topic_handle_valid p h then cstr (drop (unat (te_offset (ti_entry p h))) (ti_blob p))
      else [])"

section \<open>The arena invariant\<close>

text \<open>\<open>xs\<close> lists the live entries with their strings in the order in which they lie in the arena.\<close>

primrec tiled :: "Entry list \<Rightarrow> nat \<Rightarrow> (nat \<times> byte list) list \<Rightarrow> bool" where
  "tiled es base [] \<longleftrightarrow> True"
| "tiled es base (x # xs) \<longleftrightarrow>
     unat (te_offset (es ! fst x)) = base \<and> unat (te_length (es ! fst x)) = length (snd x)
     \<and> tiled es (base + length (snd x) + 1) xs"

definition flat :: "(nat \<times> byte list) list \<Rightarrow> byte list" where
  "flat xs = concat (map (\<lambda>x. snd x @ [0]) xs)"

definition ti_shape :: "TopicInternPool \<Rightarrow> (nat \<times> byte list) list \<Rightarrow> bool" where
  "ti_shape p xs \<longleftrightarrow>
     length (ti_entries p) \<le> 65535 \<and> ti_blob_cap p \<le> 65536 \<and> length (ti_blob p) = ti_blob_cap p
     \<and> ti_bytes_used p \<le> ti_blob_cap p \<and> take (ti_bytes_used p) (ti_blob p) = flat xs
     \<and> tiled (ti_entries p) 0 xs
     \<and> distinct (map fst xs) \<and> distinct (map snd xs)
     \<and> (\<forall>i. i \<in> fst ` set xs \<longleftrightarrow> i < length (ti_entries p) \<and> te_in_use (ti_entries p ! i))
     \<and> (\<forall>x \<in> set xs. topic_valid (snd x))
     \<and> ti_topic_count p = length xs
     \<and> (\<forall>e \<in> set (ti_entries p). te_generation e \<noteq> 0 \<and> (te_in_use e \<longleftrightarrow> te_ref_count e \<noteq> 0))"

definition ti_inv :: "TopicInternPool \<Rightarrow> bool" where
  "ti_inv p \<longleftrightarrow> (\<exists>xs. ti_shape p xs)"

lemma flat_simps [simp]:
  "flat [] = []" "flat (x # xs) = snd x @ 0 # flat xs" "flat (xs @ ys) = flat xs @ flat ys"
  by (simp_all add: flat_def)

lemma tiled_append:
  "tiled es base (xs @ ys) \<longleftrightarrow> tiled es base xs \<and> tiled es (base + length (flat xs)) ys"
  by (induction xs arbitrary: base) (auto simp: add.assoc)

lemma tiled_cong:
  assumes "\<And>x. x \<in> set xs \<Longrightarrow> te_offset (es ! fst x) = te_offset (es' ! fst x)
      \<and> te_length (es ! fst x) = te_length (es' ! fst x)"
  shows "tiled es base xs = tiled es' base xs"
  using assms by (induction xs arbitrary: base) auto

lemma ti_live:
  "ti_shape p xs \<Longrightarrow> (i, s) \<in> set xs \<Longrightarrow> i < length (ti_entries p) \<and> te_in_use (ti_entries p ! i)"
  "ti_shape p xs \<Longrightarrow> i < length (ti_entries p) \<Longrightarrow> te_in_use (ti_entries p ! i) \<Longrightarrow>
     \<exists>s. (i, s) \<in> set xs"
proof -
  assume sh: "ti_shape p xs"
  then have iff: "i \<in> fst ` set xs \<longleftrightarrow> i < length (ti_entries p) \<and> te_in_use (ti_entries p ! i)"
    by (simp add: ti_shape_def)
  show "i < length (ti_entries p) \<and> te_in_use (ti_entries p ! i)" if "(i, s) \<in> set xs"
    using iff image_eqI [of i fst "(i, s)"] that by simp
  show "\<exists>s. (i, s) \<in> set xs" if "i < length (ti_entries p)" "te_in_use (ti_entries p ! i)"
    using iff that by auto
qed

text \<open>Where a live entry lies.\<close>

lemma ti_shape_split:
  assumes sh: "ti_shape p xs" and i: "i < length (ti_entries p)" "te_in_use (ti_entries p ! i)"
  obtains ys s zs where "xs = ys @ (i, s) # zs" and "unat (te_offset (ti_entries p ! i)) = length (flat ys)"
    and "unat (te_length (ti_entries p ! i)) = length s" and "topic_valid s"
    and "ti_bytes_used p = length (flat ys) + length s + 1 + length (flat zs)"
    and "ti_blob p = flat ys @ s @ 0 # flat zs @ drop (ti_bytes_used p) (ti_blob p)"
proof -
  obtain s where "(i, s) \<in> set xs" using ti_live(2) [OF sh i] by blast
  then obtain ys zs where xs: "xs = ys @ (i, s) # zs" by (metis split_list)
  have t: "take (ti_bytes_used p) (ti_blob p) = flat xs" "ti_bytes_used p \<le> length (ti_blob p)"
    using sh by (auto simp: ti_shape_def)
  then have u: "ti_bytes_used p = length (flat xs)" by (metis length_take min.absorb2)
  have "tiled (ti_entries p) 0 (ys @ (i, s) # zs)" "topic_valid s"
    using sh xs by (auto simp: ti_shape_def)
  moreover have "ti_blob p = flat xs @ drop (ti_bytes_used p) (ti_blob p)"
    using t(1) by (metis append_take_drop_id)
  ultimately show ?thesis
    using u by (intro that [OF xs]) (simp_all add: tiled_append xs)
qed

lemma ti_entry_string:
  assumes sh: "ti_shape p xs" and x: "(i, s) \<in> set xs"
  shows "slice (unat (te_offset (ti_entries p ! i))) (length s) (ti_blob p) = s"
    and "cstr (drop (unat (te_offset (ti_entries p ! i))) (ti_blob p)) = s"
    and "unat (te_length (ti_entries p ! i)) = length s"
proof -
  have i: "i < length (ti_entries p)" "te_in_use (ti_entries p ! i)"
    using ti_live(1) [OF sh x] by auto
  obtain ys s' zs where xs: "xs = ys @ (i, s') # zs"
    and o: "unat (te_offset (ti_entries p ! i)) = length (flat ys)"
    and l: "unat (te_length (ti_entries p ! i)) = length s'" and v: "topic_valid s'"
    and b: "ti_blob p = flat ys @ s' @ 0 # flat zs @ drop (ti_bytes_used p) (ti_blob p)"
    using ti_shape_split [OF sh i] by metis
  have "distinct (map fst xs)" using sh by (simp add: ti_shape_def)
  then have "s' = s" using x xs by (auto simp: image_iff)
  moreover have "slice (length (flat ys)) (length s') (ti_blob p) = s'"
    by (subst b) (simp add: slice_def)
  moreover have "cstr (drop (length (flat ys)) (ti_blob p)) = s'"
    using topic_valid_no_nul [OF v] by (subst b) simp
  ultimately show "slice (unat (te_offset (ti_entries p ! i))) (length s) (ti_blob p) = s"
    "cstr (drop (unat (te_offset (ti_entries p ! i))) (ti_blob p)) = s"
    "unat (te_length (ti_entries p ! i)) = length s"
    using o l by simp_all
qed

lemma ti_shape_str:
  "ti_shape p xs \<Longrightarrow> topic_handle_valid p h \<Longrightarrow> (unat (slot h), topic_c_str p h) \<in> set xs"
  using ti_live(2) [of p xs "unat (slot h)"] ti_entry_string(2) [of p xs "unat (slot h)"]
  by (auto simp: topic_handle_valid_def topic_c_str_def)

section \<open>Every operation keeps the invariant\<close>

lemma ti_shape_ref:
  assumes sh: "ti_shape p xs" and i: "i < length (ti_entries p)" "te_in_use (ti_entries p ! i)" and "r \<noteq> 0"
  shows "ti_shape (p\<lparr>ti_entries := (ti_entries p)[i := (ti_entries p ! i)\<lparr>te_ref_count := r\<rparr>]\<rparr>) xs"
proof -
  let ?es = "(ti_entries p)[i := (ti_entries p ! i)\<lparr>te_ref_count := r\<rparr>]"
  have "tiled ?es 0 xs = tiled (ti_entries p) 0 xs"
    by (rule tiled_cong) (auto simp: nth_upd)
  moreover have "te_in_use (?es ! j) = te_in_use (ti_entries p ! j)" for j
    by (auto simp: nth_upd)
  moreover have "te_generation e \<noteq> 0 \<and> (te_in_use e \<longleftrightarrow> te_ref_count e \<noteq> 0)" if "e \<in> set ?es" for e
    using in_set_upd [OF that] sh assms(2-) nth_mem [OF i(1)] by (auto simp: ti_shape_def)
  ultimately show ?thesis
    using sh by (simp add: ti_shape_def)
qed

lemma ti_shape_insert:
  assumes sh: "ti_shape p xs" and i: "i < length (ti_entries p)" "\<not> te_in_use (ti_entries p ! i)"
    and t: "topic_valid t" "t \<notin> snd ` set xs" and cap: "ti_bytes_used p + length t + 1 \<le> ti_blob_cap p"
  shows "ti_shape (p\<lparr>ti_entries := (ti_entries p)[i := (ti_entries p ! i)\<lparr>te_in_use := True,
        te_ref_count := 1, te_offset := of_nat (ti_bytes_used p), te_length := of_nat (length t)\<rparr>],
      ti_blob := write_at (ti_bytes_used p) (t @ [0]) (ti_blob p),
      ti_bytes_used := ti_bytes_used p + (length t + 1),
      ti_topic_count := ti_topic_count p + 1\<rparr>) (xs @ [(i, t)])" (is "ti_shape ?p _")
proof -
  have b: "ti_blob_cap p \<le> 65536" "length (ti_blob p) = ti_blob_cap p"
    "take (ti_bytes_used p) (ti_blob p) = flat xs" "ti_bytes_used p \<le> ti_blob_cap p"
    using sh by (auto simp: ti_shape_def)
  then have u: "ti_bytes_used p = length (flat xs)" by (metis length_take min.absorb2)
  have i_new: "i \<notin> fst ` set xs" using sh i by (simp add: ti_shape_def)
  have "tiled (ti_entries ?p) 0 xs = tiled (ti_entries p) 0 xs"
    using i_new by (intro tiled_cong) (auto simp: nth_upd)
  moreover have "unat (of_nat (ti_bytes_used p) :: u16) = ti_bytes_used p"
    "unat (of_nat (length t) :: u16) = length t"
    using cap b(1) by (simp_all add: unat_of_nat_u16)
  ultimately have tile: "tiled (ti_entries ?p) 0 (xs @ [(i, t)])"
    using sh i u by (simp add: ti_shape_def tiled_append)
  have ref: "te_generation e \<noteq> 0 \<and> (te_in_use e \<longleftrightarrow> te_ref_count e \<noteq> 0)"
    if "e \<in> set (ti_entries ?p)" for e
    using that sh nth_mem [OF i(1)] by (auto simp: ti_shape_def dest!: in_set_upd)
  have use: "j \<in> fst ` set (xs @ [(i, t)]) \<longleftrightarrow>
      j < length (ti_entries ?p) \<and> te_in_use (ti_entries ?p ! j)" for j
    using sh i by (auto simp: ti_shape_def nth_upd)
  have blob: "take (ti_bytes_used ?p) (ti_blob ?p) = flat (xs @ [(i, t)])"
    using b(2-4) cap u by (simp add: write_at_def)
  show ?thesis
    unfolding ti_shape_def
    using sh t i_new cap b(2) tile ref use blob by (auto simp: ti_shape_def)
qed

lemma tiled_offsets:
  "tiled es base xs \<Longrightarrow> x \<in> set xs \<Longrightarrow>
     base \<le> unat (te_offset (es ! fst x)) \<and> unat (te_offset (es ! fst x)) < base + length (flat xs)"
  by (induction xs arbitrary: base) fastforce+

lemma tiled_shift:
  assumes "tiled es (base + k) xs"
    and "\<And>x. x \<in> set xs \<Longrightarrow> unat (te_offset (es' ! fst x)) = unat (te_offset (es ! fst x)) - k
      \<and> te_length (es' ! fst x) = te_length (es ! fst x)"
  shows "tiled es' base xs"
  using assms
proof (induction xs arbitrary: base)
  case (Cons x xs)
  have "tiled es (base + length (snd x) + 1 + k) xs"
    using Cons.prems(1) by (simp add: ac_simps)
  with Cons.IH [of "base + length (snd x) + 1"] Cons.prems show ?case by simp
qed simp

lemma ti_shape_remove:
  assumes sh: "ti_shape p (ys @ (i, s) # zs)" and i: "i < length (ti_entries p)"
    and e': "\<not> te_in_use e'" "te_ref_count e' = 0" "te_generation e' \<noteq> 0"
    and u: "ti_bytes_used p = length (flat ys) + length s + 1 + length (flat zs)"
    and b: "ti_blob p = flat ys @ s @ 0 # flat zs @ rest"
    and p': "p' = p\<lparr>ti_entries := map (shift_entry (length (flat ys)) (length s + 1))
          ((ti_entries p)[i := e']), ti_topic_count := ti_topic_count p - 1,
        ti_blob := write_at (length (flat ys))
          (slice (length (flat ys) + (length s + 1)) (length (flat zs)) (ti_blob p)) (ti_blob p),
        ti_bytes_used := ti_bytes_used p - (length s + 1)\<rparr>"
  shows "ti_shape p' (ys @ zs)"
proof -
  let ?h = "length (flat ys)" and ?k = "length s + 1" and ?es = "ti_entries p"
  have fresh: "i \<notin> fst ` set ys" "i \<notin> fst ` set zs"
    and tl: "tiled ?es 0 ys" "tiled ?es (?h + ?k) zs"
    using sh by (auto simp: ti_shape_def tiled_append)
  have inr: "fst x < length ?es \<and> te_in_use (?es ! fst x)" if "x \<in> set (ys @ zs)" for x
    using ti_live(1) [OF sh, of "fst x" "snd x"] that by auto
  have ne: "fst x \<noteq> i" if "x \<in> set (ys @ zs)" for x
    using that fresh by (metis UnE imageI set_append)
  have nth: "ti_entries p' ! j = shift_entry ?h ?k (?es ! j)" if "j \<noteq> i" "j < length ?es" for j
    using that by (simp add: p' nth_upd)
  have y: "te_offset (ti_entries p' ! fst x) = te_offset (?es ! fst x)
      \<and> te_length (ti_entries p' ! fst x) = te_length (?es ! fst x)" if "x \<in> set ys" for x
    using nth [of "fst x"] ne [of x] that inr [of x] tiled_offsets [OF tl(1) that]
    by (auto simp: shift_entry_def)
  have z: "unat (te_offset (ti_entries p' ! fst x)) = unat (te_offset (?es ! fst x)) - ?k
      \<and> te_length (ti_entries p' ! fst x) = te_length (?es ! fst x)" if x: "x \<in> set zs" for x
  proof -
    have "unat (te_offset (?es ! fst x)) - ?k < 65536"
      by (rule le_less_trans [OF diff_le_self]) simp
    moreover have "?h < unat (te_offset (?es ! fst x))"
      using tiled_offsets [OF tl(2) x] by simp
    ultimately show ?thesis
      using nth [of "fst x"] ne [of x] x inr [of x] by (auto simp: shift_entry_def unat_of_nat_u16)
  qed
  have tile: "tiled (ti_entries p') 0 (ys @ zs)"
    using tl(1) tiled_cong [of ys "ti_entries p'" ?es 0] y
      tiled_shift [OF tl(2), of "ti_entries p'"] z by (simp add: tiled_append)
  have use: "j \<in> fst ` set (ys @ zs) \<longleftrightarrow> j < length (ti_entries p') \<and> te_in_use (ti_entries p' ! j)" for j
  proof (cases "j = i")
    case True
    with e' fresh i show ?thesis by (auto simp: p' shift_entry_def)
  next
    case False
    from sh have "j \<in> fst ` set (ys @ (i, s) # zs) \<longleftrightarrow> j < length ?es \<and> te_in_use (?es ! j)"
      unfolding ti_shape_def by blast
    with False have "j \<in> fst ` set (ys @ zs) \<longleftrightarrow> j < length ?es \<and> te_in_use (?es ! j)"
      by simp
    with False nth [of j] show ?thesis by (auto simp: p' shift_entry_def)
  qed
  have ref: "te_generation e \<noteq> 0 \<and> (te_in_use e \<longleftrightarrow> te_ref_count e \<noteq> 0)"
    if "e \<in> set (ti_entries p')" for e
    using that sh e' in_set_upd [of _ ?es i e'] by (fastforce simp: p' ti_shape_def shift_entry_def)
  have blob: "take (ti_bytes_used p') (ti_blob p') = flat (ys @ zs)"
    "length (ti_blob p') = length (ti_blob p)"
    using u by (simp_all add: p' b slice_def write_at_def)
  have fields: "length (ti_entries p') = length ?es" "ti_blob_cap p' = ti_blob_cap p"
    "ti_topic_count p' = ti_topic_count p - 1" "ti_bytes_used p' \<le> ti_bytes_used p"
    by (simp_all add: p')
  have old: "length ?es \<le> 65535" "ti_blob_cap p \<le> 65536" "length (ti_blob p) = ti_blob_cap p"
    "ti_bytes_used p \<le> ti_blob_cap p" "distinct (map fst (ys @ zs))" "distinct (map snd (ys @ zs))"
    "\<forall>x \<in> set (ys @ zs). topic_valid (snd x)" "ti_topic_count p = length (ys @ zs) + 1"
    using sh unfolding ti_shape_def by auto
  show ?thesis
    unfolding ti_shape_def
    by (intro conjI allI ballI tile use ref [THEN conjunct1] ref [THEN conjunct2] blob(1))
      (use fields old blob(2) in auto)
qed

section \<open>Effects on handles\<close>

lemma ti_str_eq:
  "ti_shape p xs \<Longrightarrow> topic_handle_valid p h \<Longrightarrow> (unat (slot h), s) \<in> set xs \<Longrightarrow> topic_c_str p h = s"
  using ti_entry_string(2) by (simp add: topic_c_str_def)

lemma ti_same_str:
  assumes "ti_shape p xs" and "ti_shape p' xs'" and "topic_handle_valid p k" and "topic_handle_valid p' k"
    and "\<And>s. (unat (slot k), s) \<in> set xs \<Longrightarrow> (unat (slot k), s) \<in> set xs'"
  shows "topic_c_str p' k = topic_c_str p k"
  using ti_str_eq [OF assms(2,4)] ti_shape_str [OF assms(1,3)] assms(5) by blast

lemma topic_slot_neq:
  "topic_handle_valid p h \<Longrightarrow> topic_handle_valid p k \<Longrightarrow> k \<noteq> h \<Longrightarrow> unat (slot k) \<noteq> unat (slot h)"
  by (auto simp: topic_handle_valid_def word_unat_eq_iff [symmetric])

lemma topic_handle_eqI:
  "unat (slot k) = unat (slot h) \<Longrightarrow> generation k = generation h \<Longrightarrow> k = (h :: Handle)"
  by (simp add: word_unat_eq_iff [symmetric])

lemma topic_valid_ref_count:
  assumes "ti_inv p" shows "topic_handle_valid p h \<longleftrightarrow> topic_ref_count p h \<noteq> 0"
proof -
  have "te_ref_count (ti_entry p h) \<noteq> 0" if "topic_handle_valid p h"
    using assms that by (auto simp: ti_inv_def ti_shape_def topic_handle_valid_def)
  then show ?thesis by (auto simp: topic_ref_count_def)
qed

text \<open>Setting the reference count of a live entry.\<close>

lemma topic_set_ref:
  assumes sh: "ti_shape p xs" and v: "topic_handle_valid p h" and r: "r \<noteq> 0"
    and p': "p' = p\<lparr>ti_entries := (ti_entries p)[unat (slot h) := (ti_entry p h)\<lparr>te_ref_count := r\<rparr>]\<rparr>"
  shows "ti_shape p' xs" and "topic_handle_valid p' k = topic_handle_valid p k"
    and "topic_ref_count p' k = (if k = h then r else topic_ref_count p k)"
    and "topic_c_str p' k = topic_c_str p k"
proof -
  have i: "unat (slot h) < length (ti_entries p)" "te_in_use (ti_entry p h)"
    using v by (auto simp: topic_handle_valid_def)
  show "ti_shape p' xs" using ti_shape_ref [OF sh i r] p' by simp
  show v': "topic_handle_valid p' k = topic_handle_valid p k" for k
    by (auto simp: topic_handle_valid_def p' nth_upd)
  show "topic_ref_count p' k = (if k = h then r else topic_ref_count p k)"
    using v v' [of k] i topic_slot_neq [OF v, of k] by (auto simp: topic_ref_count_def p' nth_upd)
  have "te_offset (ti_entries p' ! j) = te_offset (ti_entries p ! j)" for j
    by (auto simp: p' nth_upd)
  then show "topic_c_str p' k = topic_c_str p k"
    by (simp add: topic_c_str_def v') (simp add: p')
qed

lemma topic_acquire_effect:
  assumes inv: "ti_inv p" and nw: "topic_ref_count p h \<noteq> 0xFFFF" and r: "topic_acquire h p = (True, p')"
  shows "ti_inv p'" and "topic_handle_valid p h"
    and "unat (topic_ref_count p' k) = unat (topic_ref_count p k) + (if k = h then 1 else 0)"
    and "topic_c_str p' k = topic_c_str p k"
proof -
  obtain xs where sh: "ti_shape p xs" using inv by (auto simp: ti_inv_def)
  have v: "topic_handle_valid p h"
    and p': "p' = p\<lparr>ti_entries := (ti_entries p)[unat (slot h) :=
        (ti_entry p h)\<lparr>te_ref_count := te_ref_count (ti_entry p h) + 1\<rparr>]\<rparr>"
    using r by (auto simp: topic_acquire_def split: if_splits)
  have inc: "unat (te_ref_count (ti_entry p h) + 1) = unat (te_ref_count (ti_entry p h)) + 1"
    using nw v by (intro unat_inc_u16) (simp add: topic_ref_count_def)
  then have nz: "te_ref_count (ti_entry p h) + 1 \<noteq> 0" by auto
  note f = topic_set_ref [OF sh v nz p']
  show "ti_inv p'" "topic_handle_valid p h" "topic_c_str p' k = topic_c_str p k"
    using f(1,4) v by (auto simp: ti_inv_def)
  show "unat (topic_ref_count p' k) = unat (topic_ref_count p k) + (if k = h then 1 else 0)"
    using f(3) [of k] inc v by (auto simp: topic_ref_count_def)
qed

lemma topic_release_keep:
  assumes inv: "ti_inv p" and v: "topic_handle_valid p h" and r: "1 < unat (topic_ref_count p h)"
  shows "ti_inv (topic_release h p)"
    and "unat (topic_ref_count (topic_release h p) k) = unat (topic_ref_count p k) - (if k = h then 1 else 0)"
    and "topic_c_str (topic_release h p) k = topic_c_str p k"
    and "ti_bytes_used (topic_release h p) = ti_bytes_used p"
proof -
  let ?r = "te_ref_count (ti_entry p h)"
  obtain xs where sh: "ti_shape p xs" using inv by (auto simp: ti_inv_def)
  have nz: "?r \<noteq> 0" using r v by (auto simp: topic_ref_count_def)
  have dec: "unat (?r - 1) = unat ?r - 1" by (rule unat_dec_u16 [OF nz])
  then have nz1: "?r - 1 \<noteq> 0" using r v by (auto simp: topic_ref_count_def)
  then have p': "topic_release h p = p\<lparr>ti_entries := (ti_entries p)[unat (slot h) :=
      (ti_entry p h)\<lparr>te_ref_count := ?r - 1\<rparr>]\<rparr>"
    using v nz by (simp add: topic_release_def Let_def word_gt_0)
  note f = topic_set_ref [OF sh v nz1 p']
  show "ti_inv (topic_release h p)" "topic_c_str (topic_release h p) k = topic_c_str p k"
    using f(1,4) by (auto simp: ti_inv_def)
  show "unat (topic_ref_count (topic_release h p) k) = unat (topic_ref_count p k) - (if k = h then 1 else 0)"
    using f(3) [of k] dec v by (auto simp: topic_ref_count_def)
  show "ti_bytes_used (topic_release h p) = ti_bytes_used p" by (simp add: p')
qed

lemma topic_release_last:
  assumes inv: "ti_inv p" and v: "topic_handle_valid p h" and r: "topic_ref_count p h = 1"
  shows "ti_inv (topic_release h p)"
    and "topic_handle_valid (topic_release h p) k \<longleftrightarrow> topic_handle_valid p k \<and> k \<noteq> h"
    and "topic_ref_count (topic_release h p) k = (if k = h then 0 else topic_ref_count p k)"
    and "k \<noteq> h \<Longrightarrow> topic_c_str (topic_release h p) k = topic_c_str p k"
    and "ti_bytes_used (topic_release h p) = ti_bytes_used p - (length (topic_c_str p h) + 1)"
proof -
  let ?i = "unat (slot h)" and ?e = "ti_entry p h" and ?q = "topic_release h p"
  obtain xs where sh: "ti_shape p xs" using inv by (auto simp: ti_inv_def)
  have i: "?i < length (ti_entries p)" "te_in_use ?e" and gen: "te_generation ?e = generation h"
    using v by (auto simp: topic_handle_valid_def)
  obtain ys s zs where xs: "xs = ys @ (?i, s) # zs" and o: "unat (te_offset ?e) = length (flat ys)"
    and l: "unat (te_length ?e) = length s"
    and u: "ti_bytes_used p = length (flat ys) + length s + 1 + length (flat zs)"
    and b: "ti_blob p = flat ys @ s @ 0 # flat zs @ drop (ti_bytes_used p) (ti_blob p)"
    using ti_shape_split [OF sh i] by metis
  define e' where "e' = ?e\<lparr>te_ref_count := 0, te_in_use := False,
      te_generation := bump_generation (te_generation ?e)\<rparr>"
  have q: "?q = p\<lparr>ti_entries := map (shift_entry (length (flat ys)) (length s + 1))
          ((ti_entries p)[?i := e']), ti_topic_count := ti_topic_count p - 1,
        ti_blob := write_at (length (flat ys))
          (slice (length (flat ys) + (length s + 1)) (length (flat zs)) (ti_blob p)) (ti_blob p),
        ti_bytes_used := ti_bytes_used p - (length s + 1)\<rparr>"
    using v r o l u by (simp add: topic_release_def Let_def e'_def topic_ref_count_def)
  have sh': "ti_shape ?q (ys @ zs)"
    by (rule ti_shape_remove [OF sh [unfolded xs] i(1) _ _ _ u b q]) (simp_all add: e'_def)
  then show "ti_inv ?q" by (auto simp: ti_inv_def)
  have nth: "te_in_use (ti_entries ?q ! j) = te_in_use (ti_entries p ! j)
      \<and> te_generation (ti_entries ?q ! j) = te_generation (ti_entries p ! j)
      \<and> te_ref_count (ti_entries ?q ! j) = te_ref_count (ti_entries p ! j)"
    if "j \<noteq> ?i" "j < length (ti_entries p)" for j
    using that by (simp add: q shift_entry_def)
  show v': "topic_handle_valid ?q k \<longleftrightarrow> topic_handle_valid p k \<and> k \<noteq> h" for k
  proof (cases "unat (slot k) = ?i")
    case True
    with i gen topic_handle_eqI [of k h] show ?thesis
      by (auto simp: topic_handle_valid_def q shift_entry_def e'_def)
  next
    case False
    with nth [of "unat (slot k)"] show ?thesis by (auto simp: topic_handle_valid_def) (auto simp: q)
  qed
  show "topic_ref_count ?q k = (if k = h then 0 else topic_ref_count p k)"
    using v' [of k] topic_slot_neq [OF v, of k] nth [of "unat (slot k)"]
    by (auto simp: topic_ref_count_def topic_handle_valid_def)
  show "topic_c_str ?q k = topic_c_str p k" if "k \<noteq> h"
  proof (cases "topic_handle_valid p k")
    case True
    with that topic_slot_neq [OF v True] v' [of k] xs show ?thesis
      by (intro ti_same_str [OF sh sh' True]) auto
  qed (simp add: topic_c_str_def v')
  have "topic_c_str p h = s" using ti_str_eq [OF sh v, of s] xs by simp
  then show "ti_bytes_used ?q = ti_bytes_used p - (length (topic_c_str p h) + 1)"
    by (simp add: q)
qed

lemma topic_release_stale: "\<not> topic_handle_valid p h \<Longrightarrow> topic_release h p = p"
  by (simp add: topic_release_def)

lemma topic_release_cases:
  assumes "ti_inv p"
  obtains "\<not> topic_handle_valid p h" | "topic_handle_valid p h" "1 < unat (topic_ref_count p h)"
    | "topic_handle_valid p h" "topic_ref_count p h = 1"
  using topic_valid_ref_count [OF assms, of h]
  by (metis One_nat_def less_one linorder_neqE_nat unat_1 unat_eq_zero word_unat_eq_iff)

interpretation ti: ref_counted ti_inv topic_handle_valid "\<lambda>p h. unat (topic_ref_count p h)"
  "\<lambda>p h. topic_ref_count p h \<noteq> 0xFFFF" topic_acquire topic_release
proof
  fix p h k p' assume inv: "ti_inv p"
  show "topic_handle_valid p h \<longleftrightarrow> 0 < unat (topic_ref_count p h)"
    using topic_valid_ref_count [OF inv] by (simp add: unat_gt_0)
  show "ti_inv p' \<and> topic_handle_valid p h \<and>
      unat (topic_ref_count p' k) = unat (topic_ref_count p k) + (if k = h then 1 else 0)"
    if "topic_ref_count p h \<noteq> 0xFFFF" "topic_acquire h p = (True, p')"
    using topic_acquire_effect [OF inv that] by simp
  show "ti_inv (topic_release h p) \<and>
      unat (topic_ref_count (topic_release h p) k) = unat (topic_ref_count p k) - (if k = h then 1 else 0)"
    by (cases rule: topic_release_cases [OF inv, of h])
      (use inv topic_release_keep(1,2) [OF inv] topic_release_last(1,3) [OF inv] in
        \<open>auto simp: topic_release_stale topic_ref_count_def\<close>)
next
  show "topic_acquire h p = (False, p') \<Longrightarrow> p' = p" for h p p'
    by (auto simp: topic_acquire_def split: if_splits)
qed

lemma ti_inv_new: "max_topics \<le> 65535 \<Longrightarrow> max_bytes \<le> 65536 \<Longrightarrow> ti_inv (TopicInternPool_new max_topics max_bytes)"
  by (auto simp: ti_inv_def ti_shape_def TopicInternPool_new_def intro!: exI [of _ "[]"])

text \<open>The scan of \<open>intern\<close> finds the entry of the topic exactly when it is live.\<close>

lemma intern_scan:
  assumes sh: "ti_shape p xs"
  shows "first_idx (holds_topic (ti_blob p) t) (ti_entries p) = None \<Longrightarrow> t \<notin> snd ` set xs"
    and "first_idx (holds_topic (ti_blob p) t) (ti_entries p) = Some i \<Longrightarrow> (i, t) \<in> set xs"
proof -
  show "t \<notin> snd ` set xs" if "first_idx (holds_topic (ti_blob p) t) (ti_entries p) = None"
  proof
    assume "t \<in> snd ` set xs"
    then obtain i where i: "(i, t) \<in> set xs" by auto
    then have "holds_topic (ti_blob p) t (ti_entries p ! i)" "ti_entries p ! i \<in> set (ti_entries p)"
      using ti_entry_string [OF sh i] ti_live(1) [OF sh i] by (auto simp: holds_topic_def)
    with that show False by (auto simp: first_idx_None_iff)
  qed
  assume "first_idx (holds_topic (ti_blob p) t) (ti_entries p) = Some i"
  then have "i < length (ti_entries p)" "holds_topic (ti_blob p) t (ti_entries p ! i)" by auto
  moreover from this obtain s where s: "(i, s) \<in> set xs"
    using ti_live(2) [OF sh] by (auto simp: holds_topic_def)
  ultimately have "s = t"
    using ti_entry_string(1,3) [OF sh s] unfolding holds_topic_def by metis
  with s show "(i, t) \<in> set xs" by simp
qed

lemma ti_all_in_use:
  assumes sh: "ti_shape p xs"
  shows "first_idx (\<lambda>e. \<not> te_in_use e) (ti_entries p) = None \<longleftrightarrow> ti_topic_count p = length (ti_entries p)"
proof -
  have sub: "fst ` set xs = {i. i < length (ti_entries p) \<and> te_in_use (ti_entries p ! i)}"
    and card: "card (fst ` set xs) = ti_topic_count p"
    using sh distinct_card [of "map fst xs"] by (auto simp: ti_shape_def)
  have "first_idx (\<lambda>e. \<not> te_in_use e) (ti_entries p) = None \<longleftrightarrow> fst ` set xs = {..<length (ti_entries p)}"
    unfolding sub by (auto simp: first_idx_None_iff all_set_conv_all_nth)
  also have "\<dots> \<longleftrightarrow> ti_topic_count p = length (ti_entries p)"
  proof
    show "ti_topic_count p = length (ti_entries p)" if "fst ` set xs = {..<length (ti_entries p)}"
      using card that by simp
    show "fst ` set xs = {..<length (ti_entries p)}" if "ti_topic_count p = length (ti_entries p)"
      using card that by (intro card_subset_eq) (auto simp: sub)
  qed
  finally show ?thesis .
qed

lemma intern_hit:
  assumes sh: "ti_shape p xs" and t: "topic_valid t" and k: "topic_handle_valid p k" "topic_c_str p k = t"
    and nw: "topic_ref_count p k \<noteq> 0xFFFF" and r: "intern t p = (h, p')"
  shows "h = k \<and> topic_acquire k p = (True, p')"
proof -
  have x: "(unat (slot k), t) \<in> set xs" using ti_shape_str [OF sh k(1)] k(2) by simp
  let ?P = "holds_topic (ti_blob p) t"
  obtain i where f: "first_idx ?P (ti_entries p) = Some i"
    using intern_scan(1) [OF sh, of t] x by (cases "first_idx ?P (ti_entries p)") force+
  then have "(i, t) \<in> set xs" by (rule intern_scan(2) [OF sh])
  moreover have "distinct (map snd xs)" using sh by (simp add: ti_shape_def)
  ultimately have "i = unat (slot k)"
    using x by (metis distinct_map inj_onD prod.inject snd_conv)
  with f r t k(1) show ?thesis
    by (auto simp: intern_def topic_acquire_def Let_def topic_handle_valid_def intro!: topic_handle_eqI)
qed

lemma intern_miss:
  assumes sh: "ti_shape p xs" and t: "topic_valid t"
    and no: "\<forall>k. topic_handle_valid p k \<longrightarrow> topic_c_str p k \<noteq> t" and r: "intern t p = (h, p')"
  shows "ti_bytes_used p + length t + 1 > ti_blob_cap p \<or> ti_topic_count p = length (ti_entries p) \<Longrightarrow>
      h = NULL_TOPIC \<and> p' = p"
    and "\<not> (ti_bytes_used p + length t + 1 > ti_blob_cap p \<or> ti_topic_count p = length (ti_entries p)) \<Longrightarrow>
      h \<noteq> NULL_TOPIC \<and> ti_inv p' \<and> \<not> topic_handle_valid p h \<and> topic_c_str p' h = t
      \<and> topic_ref_count p' k = (if k = h then 1 else topic_ref_count p k)
      \<and> (k \<noteq> h \<longrightarrow> topic_c_str p' k = topic_c_str p k)"
proof -
  let ?P = "holds_topic (ti_blob p) t"
  have none: "first_idx ?P (ti_entries p) = None"
  proof (cases "first_idx ?P (ti_entries p)")
    case (Some i)
    then have x: "(i, t) \<in> set xs" by (rule intern_scan(2) [OF sh])
    have i: "i < length (ti_entries p)" "te_in_use (ti_entries p ! i)" "i < 65535"
      using ti_live(1) [OF sh x] sh by (auto simp: ti_shape_def)
    let ?k = "\<lparr>slot = of_nat i, generation = te_generation (ti_entries p ! i)\<rparr>"
    have u: "unat (of_nat i :: u16) = i" using i by (simp add: unat_of_nat_u16)
    have v: "topic_handle_valid p ?k"
      using i u of_nat_u16_nil [OF i(3)] by (simp add: topic_handle_valid_def)
    with no ti_str_eq [OF sh v, of t] x u show ?thesis by simp
  qed
  show "h = NULL_TOPIC \<and> p' = p"
    if "ti_bytes_used p + length t + 1 > ti_blob_cap p \<or> ti_topic_count p = length (ti_entries p)"
    using that r t none ti_all_in_use [OF sh]
    by (auto simp: intern_def Let_def split: option.splits if_splits)
  assume room: "\<not> (ti_bytes_used p + length t + 1 > ti_blob_cap p \<or> ti_topic_count p = length (ti_entries p))"
  then obtain i where f: "first_idx (\<lambda>e. \<not> te_in_use e) (ti_entries p) = Some i"
    using ti_all_in_use [OF sh] by fastforce
  then have i: "i < length (ti_entries p)" "\<not> te_in_use (ti_entries p ! i)" by auto
  then have i': "i < 65535" "unat (of_nat i :: u16) = i"
    using sh by (auto simp: ti_shape_def unat_of_nat_u16)
  define e where "e = (ti_entries p ! i)\<lparr>te_in_use := True, te_ref_count := 1,
      te_offset := of_nat (ti_bytes_used p), te_length := of_nat (length t)\<rparr>"
  have h: "slot h = of_nat i" "generation h = te_generation (ti_entries p ! i)"
    and p': "p' = p\<lparr>ti_entries := (ti_entries p)[i := e],
        ti_blob := write_at (ti_bytes_used p) (t @ [0]) (ti_blob p),
        ti_bytes_used := ti_bytes_used p + (length t + 1), ti_topic_count := ti_topic_count p + 1\<rparr>"
    using r t none f room by (auto simp: intern_def Let_def e_def)
  have sh': "ti_shape p' (xs @ [(i, t)])"
    unfolding p' e_def
    by (rule ti_shape_insert [OF sh i t intern_scan(1) [OF sh none]]) (use room in simp)
  have hv: "topic_handle_valid p' h" "\<not> topic_handle_valid p h" "h \<noteq> NULL_TOPIC"
    using i i' h of_nat_u16_nil [OF i'(1)]
    by (auto simp: topic_handle_valid_def p' e_def NULL_HANDLE_def)
  have v': "topic_handle_valid p' k \<longleftrightarrow> topic_handle_valid p k \<or> k = h" for k
    using i i' h hv topic_handle_eqI [of k h]
    by (auto simp: topic_handle_valid_def p' nth_upd e_def)
  have nk: "unat (slot k) \<noteq> i" if "topic_handle_valid p k" for k
    using that i by (auto simp: topic_handle_valid_def)
  have "topic_c_str p' k = topic_c_str p k" if "k \<noteq> h"
  proof (cases "topic_handle_valid p k")
    case True
    with v' [of k] show ?thesis by (intro ti_same_str [OF sh sh' True]) auto
  qed (use that v' [of k] in \<open>simp add: topic_c_str_def\<close>)
  moreover have "topic_c_str p' h = t"
    by (rule ti_str_eq [OF sh' hv(1)]) (simp add: h i')
  moreover have "topic_ref_count p' k = (if k = h then 1 else topic_ref_count p k)"
    using v' [of k] nk [of k] i i' h by (auto simp: topic_ref_count_def p' nth_upd e_def)
  ultimately show "h \<noteq> NULL_TOPIC \<and> ti_inv p' \<and> \<not> topic_handle_valid p h \<and> topic_c_str p' h = t
      \<and> topic_ref_count p' k = (if k = h then 1 else topic_ref_count p k)
      \<and> (k \<noteq> h \<longrightarrow> topic_c_str p' k = topic_c_str p k)"
    using hv sh' by (auto simp: ti_inv_def)
qed

lemma ti_inv_intern:
  assumes inv: "ti_inv p" and nw: "\<forall>k. topic_ref_count p k \<noteq> 0xFFFF"
  shows "ti_inv (snd (intern t p))"
proof (cases "topic_valid t")
  case True
  obtain h p' where r: "intern t p = (h, p')" by (cases "intern t p")
  obtain xs where sh: "ti_shape p xs" using inv by (auto simp: ti_inv_def)
  show ?thesis
  proof (cases "\<exists>k. topic_handle_valid p k \<and> topic_c_str p k = t")
    case hit: True
    then obtain k where k: "topic_handle_valid p k" "topic_c_str p k = t" by blast
    from intern_hit [OF sh True k _ r] nw have "topic_acquire k p = (True, p')" by simp
    from topic_acquire_effect(1) [OF inv _ this] nw r show ?thesis by simp
  next
    case False
    with intern_miss [OF sh True _ r] inv r show ?thesis by auto
  qed
qed (simp add: intern_def inv)

lemma topic_counts_below:
  "list_all (\<lambda>e. te_ref_count e \<noteq> 0xFFFF) (ti_entries p) \<Longrightarrow> \<forall>k. topic_ref_count p k \<noteq> 0xFFFF"
  by (auto simp: topic_ref_count_def topic_handle_valid_def list_all_length)

section \<open>Properties\<close>

text \<open>Claim C24. Interning a topic: on a consistent pool with no saturated counter, a valid topic that
  is already live gets its existing handle and one more reference; otherwise a new entry is made
  exactly when a table slot and the arena space are available. The returned handle reads back the
  topic, and the strings and counts of all other handles are unchanged; on failure nothing
  changes.\<close>

theorem topic_intern_effect:
  assumes "ti_inv p" and "topic_valid t" and "\<forall>k. topic_ref_count p k \<noteq> 0xFFFF"
    and "intern t p = (h, p')"
  shows "if (\<exists>k. topic_handle_valid p k \<and> topic_c_str p k = t)
      \<or> (ti_bytes_used p + length t + 1 \<le> ti_blob_cap p \<and> ti_topic_count p \<noteq> length (ti_entries p))
    then h \<noteq> NULL_TOPIC \<and> ti_inv p' \<and> topic_c_str p' h = t
      \<and> (\<forall>k. topic_handle_valid p k \<and> topic_c_str p k = t \<longrightarrow> h = k)
      \<and> unat (topic_ref_count p' h) = unat (topic_ref_count p h) + 1
      \<and> (\<forall>k. k \<noteq> h \<longrightarrow> topic_ref_count p' k = topic_ref_count p k \<and> topic_c_str p' k = topic_c_str p k)
    else h = NULL_TOPIC \<and> p' = p"
proof -
  obtain xs where sh: "ti_shape p xs" using assms(1) by (auto simp: ti_inv_def)
  show ?thesis
  proof (cases "\<exists>k. topic_handle_valid p k \<and> topic_c_str p k = t")
    case True
    then obtain k where k: "topic_handle_valid p k" "topic_c_str p k = t" by blast
    have hk: "h = j \<and> topic_acquire j p = (True, p')"
      if "topic_handle_valid p j" "topic_c_str p j = t" for j
      using intern_hit [OF sh assms(2) that _ assms(4)] assms(3) by simp
    have h0: "h \<noteq> NULL_TOPIC" using hk [OF k] k by (auto simp: topic_handle_valid_def NULL_HANDLE_def)
    have a: "topic_acquire h p = (True, p')" "topic_c_str p h = t" using hk [OF k] k by auto
    note e = topic_acquire_effect [OF assms(1) assms(3) [rule_format] a(1)]
    have oth: "topic_ref_count p' j = topic_ref_count p j" if "j \<noteq> h" for j
      using e(3) [of j] that by (simp add: word_unat_eq_iff)
    have "topic_c_str p' h = t" "unat (topic_ref_count p' h) = unat (topic_ref_count p h) + 1"
      using e(3,4) [of h] a(2) by simp_all
    with True h0 e(1,4) oth hk show ?thesis by (subst if_P) blast+
  next
    case False
    then have no: "\<forall>k. topic_handle_valid p k \<longrightarrow> topic_c_str p k \<noteq> t" by blast
    note m = intern_miss [OF sh assms(2) no assms(4)]
    show ?thesis
    proof (cases "ti_bytes_used p + length t + 1 > ti_blob_cap p \<or> ti_topic_count p = length (ti_entries p)")
      case True
      with m(1) no show ?thesis by auto
    next
      case room: False
      note n = m(2) [OF room]
      then have "topic_ref_count p h = 0" by (simp add: topic_ref_count_def)
      with n [of h] have "unat (topic_ref_count p' h) = unat (topic_ref_count p h) + 1" by simp
      with n no room show ?thesis by (subst if_P) (simp, metis)
    qed
  qed
qed

theorem topic_intern_effect_witness:
  "\<exists>h p'. intern (ascii ''a/b'') (TopicInternPool_new 2 16) = (h, p') \<and> h \<noteq> NULL_TOPIC
     \<and> topic_c_str p' h = ascii ''a/b''"
proof -
  let ?p = "TopicInternPool_new 2 16"
  obtain h p' where r: "intern (ascii ''a/b'') ?p = (h, p')" by (cases "intern (ascii ''a/b'') ?p")
  have inv: "ti_inv ?p" by (rule ti_inv_new) simp_all
  have "\<forall>k. topic_ref_count ?p k \<noteq> 0xFFFF"
    by (auto simp: topic_ref_count_def topic_handle_valid_def TopicInternPool_new_def)
  moreover have "topic_valid (ascii ''a/b'')"
    and "ti_bytes_used ?p + length (ascii ''a/b'') + 1 \<le> ti_blob_cap ?p
      \<and> ti_topic_count ?p \<noteq> length (ti_entries ?p)" by code_simp+
  ultimately show ?thesis
    using topic_intern_effect [OF inv _ _ r] r by auto
qed

text \<open>Claim C25. Releasing a topic: the count of that handle drops by one and no other. The last
  release invalidates the handle, compacts the arena by exactly the string and its terminator, and
  every other live handle still reads the same string.\<close>

theorem topic_release_effect:
  assumes "ti_inv p" and "topic_handle_valid p h" and "p' = topic_release h p"
  shows "ti_inv p'
    \<and> (\<forall>k. unat (topic_ref_count p' k) = unat (topic_ref_count p k) - (if k = h then 1 else 0))
    \<and> (\<forall>k. k \<noteq> h \<longrightarrow> topic_c_str p' k = topic_c_str p k)
    \<and> (if topic_ref_count p h = 1
       then \<not> topic_handle_valid p' h
         \<and> ti_bytes_used p' = ti_bytes_used p - (length (topic_c_str p h) + 1)
       else topic_c_str p' h = topic_c_str p h \<and> ti_bytes_used p' = ti_bytes_used p)"
  by (cases rule: topic_release_cases [OF assms(1), of h])
    (use assms topic_release_keep [OF assms(1)] topic_release_last [OF assms(1)]
        ti.rel_rc [OF assms(1)] in auto)

theorem topic_release_effect_witness:
  "\<exists>p h k. topic_handle_valid p h \<and> topic_handle_valid p k
     \<and> topic_c_str (topic_release h p) k = topic_c_str p k \<and> \<not> topic_handle_valid (topic_release h p) h"
proof -
  let ?n = "TopicInternPool_new 2 16"
  let ?p1 = "snd (intern (ascii ''ab'') ?n)"
  let ?p = "snd (intern (ascii ''c'') ?p1)"
  let ?h = "\<lparr>slot = 0, generation = 1\<rparr> :: Handle" and ?k = "\<lparr>slot = 1, generation = 1\<rparr> :: Handle"
  have inv: "ti_inv ?p"
    by (intro ti_inv_intern ti_inv_new topic_counts_below) (simp_all, code_simp+)
  have "topic_handle_valid ?p ?h" "topic_handle_valid ?p ?k" "topic_ref_count ?p ?h = 1" "?k \<noteq> ?h"
    by code_simp+
  with topic_release_effect [OF inv, of ?h "topic_release ?h ?p"] show ?thesis
    by (intro exI [of _ ?p] exI [of _ ?h] exI [of _ ?k]) simp
qed



end
