(* ===== verification/Retained_Store.thy ===== *)
theory Retained_Store
  imports Message_Pool_Inv Topic_Intern
begin

text \<open>
  The retained-message table (\<open>retained_store.cpp\<close>), keyed by interned topic handles. The payload
  pool and the intern pool it works on are passed through the operations. A failed \<open>nothrow\<close>
  allocation behaves as a table of no entries. Lengths are \<open>size_t\<close>; their sums are taken to fit it.
  The store implements a partial map from topics to messages (\<open>latest_store\<close>).
\<close>

section \<open>State and operations\<close>

record RetainedEntry =
  re_topic :: TopicHandle
  re_message :: MessageHandle
  re_in_use :: bool

record RetainedStore =
  rs_entries :: "RetainedEntry list"
  rs_count :: nat
  rs_bytes_used :: u32
  rs_byte_limit :: u32

type_synonym pools = "MessagePool \<times> TopicInternPool"

definition RetainedStore_new :: "nat \<Rightarrow> u32 \<Rightarrow> RetainedStore" where
  "RetainedStore_new max_entries max_bytes =
     \<lparr>rs_entries = replicate max_entries \<lparr>re_topic = NULL_TOPIC, re_message = NULL_MESSAGE,
        re_in_use = False\<rparr>,
      rs_count = 0, rs_bytes_used = 0, rs_byte_limit = max_bytes\<rparr>"

definition retained_for :: "TopicHandle \<Rightarrow> RetainedEntry \<Rightarrow> bool" where
  "retained_for topic e \<longleftrightarrow> re_in_use e \<and> slot (re_topic e) = slot topic
     \<and> generation (re_topic e) = generation topic"

definition retained_replace ::
  "nat \<Rightarrow> MessageHandle \<Rightarrow> RetainedStore \<Rightarrow> pools \<Rightarrow> bool \<times> RetainedStore \<times> pools"
where
  "retained_replace i msg rs ps =
     (let (pool, intern) = ps; e = rs_entries rs ! i;
          payload_len = payload_size pool msg; old_len = payload_size pool (re_message e)
      in if payload_len > old_len
            \<and> unat (rs_bytes_used rs) + payload_len - old_len > unat (rs_byte_limit rs)
         then (False, rs, ps)
         else
           let (ok, pool2) = msg_acquire msg (msg_release (re_message e) pool)
           in if \<not> ok
              then (False, rs\<lparr>rs_entries := (rs_entries rs)[i := e\<lparr>re_in_use := False\<rparr>],
                             rs_count := rs_count rs - 1\<rparr>, (pool2, intern))
              else
                let used = (if unat (rs_bytes_used rs) \<ge> old_len
                            then rs_bytes_used rs - of_nat old_len else rs_bytes_used rs)
                in (True, rs\<lparr>rs_entries := (rs_entries rs)[i := e\<lparr>re_message := msg\<rparr>],
                            rs_bytes_used := used + of_nat payload_len\<rparr>, (pool2, intern)))"

definition retained_insert ::
  "TopicHandle \<Rightarrow> MessageHandle \<Rightarrow> RetainedStore \<Rightarrow> pools \<Rightarrow> bool \<times> RetainedStore \<times> pools"
where
  "retained_insert topic msg rs ps =
     (let (pool, intern) = ps; payload_len = payload_size pool msg
      in if unat (rs_bytes_used rs) + payload_len > unat (rs_byte_limit rs) then (False, rs, ps)
         else case first_idx (\<lambda>e. \<not> re_in_use e) (rs_entries rs) of
             None \<Rightarrow> (False, rs, ps)
           | Some free \<Rightarrow>
               let (ok, pool1) = msg_acquire msg pool
               in if \<not> ok then (False, rs, (pool1, intern))
                  else
                    let (ok2, intern1) = topic_acquire topic intern
                    in if \<not> ok2 then (False, rs, (msg_release msg pool1, intern1))
                       else (True, rs\<lparr>rs_entries := (rs_entries rs)[free :=
                                 \<lparr>re_topic = topic, re_message = msg, re_in_use = True\<rparr>],
                               rs_count := rs_count rs + 1,
                               rs_bytes_used := rs_bytes_used rs + of_nat payload_len\<rparr>,
                             (pool1, intern1)))"

definition retained_put ::
  "TopicHandle \<Rightarrow> MessageHandle \<Rightarrow> RetainedStore \<Rightarrow> pools \<Rightarrow> bool \<times> RetainedStore \<times> pools"
where
  "retained_put topic msg rs ps =
     (if \<not> topic_handle_valid (snd ps) topic \<or> \<not> msg_valid (fst ps) msg then (False, rs, ps)
      else case first_idx (retained_for topic) (rs_entries rs) of
          Some i \<Rightarrow> retained_replace i msg rs ps
        | None \<Rightarrow> retained_insert topic msg rs ps)"

definition retained_get :: "RetainedStore \<Rightarrow> TopicHandle \<Rightarrow> MessageHandle" where
  "retained_get rs topic =
     (case first_idx (retained_for topic) (rs_entries rs) of
        Some i \<Rightarrow> re_message (rs_entries rs ! i)
      | None \<Rightarrow> NULL_MESSAGE)"

definition retained_entry_at :: "RetainedStore \<Rightarrow> nat \<Rightarrow> (TopicHandle \<times> MessageHandle) option" where
  "retained_entry_at rs index =
     (if index \<ge> length (rs_entries rs) then None
      else if \<not> re_in_use (rs_entries rs ! index) then None
      else Some (re_topic (rs_entries rs ! index), re_message (rs_entries rs ! index)))"

definition retained_remove :: "TopicHandle \<Rightarrow> RetainedStore \<Rightarrow> pools \<Rightarrow> RetainedStore \<times> pools" where
  "retained_remove topic rs ps =
     (case first_idx (retained_for topic) (rs_entries rs) of
        None \<Rightarrow> (rs, ps)
      | Some i \<Rightarrow>
          let (pool, intern) = ps; e = rs_entries rs ! i; len = payload_size pool (re_message e)
          in (rs\<lparr>rs_entries := (rs_entries rs)[i := \<lparr>re_topic = NULL_TOPIC,
                   re_message = NULL_MESSAGE, re_in_use = False\<rparr>],
                 rs_count := (if rs_count rs > 0 then rs_count rs - 1 else rs_count rs),
                 rs_bytes_used := (if unat (rs_bytes_used rs) \<ge> len
                   then rs_bytes_used rs - of_nat len else rs_bytes_used rs)\<rparr>,
              (msg_release (re_message e) pool, topic_release (re_topic e) intern)))"

section \<open>The contract of a store of latest values\<close>

text \<open>A partial map from topics to messages behind operations that may refuse.\<close>

locale latest_store =
  fixes invar :: "'s \<Rightarrow> bool"
    and contents :: "'s \<Rightarrow> TopicHandle \<Rightarrow> MessageHandle option"
    and put :: "TopicHandle \<Rightarrow> MessageHandle \<Rightarrow> 's \<Rightarrow> bool \<times> 's"
    and del :: "TopicHandle \<Rightarrow> 's \<Rightarrow> 's"
  assumes put_stores: "invar s \<Longrightarrow> put t m s = (True, s') \<Longrightarrow> invar s' \<and> contents s' = (contents s)(t \<mapsto> m)"
    and put_refuses: "invar s \<Longrightarrow> put t m s = (False, s') \<Longrightarrow>
      invar s' \<and> (contents s' = contents s \<or> contents s' = (contents s)(t := None))"
    and del_removes: "invar s \<Longrightarrow> invar (del t s) \<and> contents (del t s) = (contents s)(t := None)"
begin

lemma put_invar: "invar s \<Longrightarrow> invar (snd (put t m s))"
proof -
  assume "invar s"
  moreover obtain ok s' where "put t m s = (ok, s')" by (rule prod.exhaust)
  ultimately show ?thesis using put_stores [of s t m s'] put_refuses [of s t m s'] by (cases ok) simp_all
qed

lemma put_other: "invar s \<Longrightarrow> u \<noteq> t \<Longrightarrow> contents (snd (put t m s)) u = contents s u"
proof -
  assume "invar s" and "u \<noteq> t"
  moreover obtain ok s' where "put t m s = (ok, s')" by (rule prod.exhaust)
  ultimately show ?thesis using put_stores [of s t m s'] put_refuses [of s t m s'] by (cases ok) auto
qed

text \<open>Whatever else is stored and deleted, the last message stored for a topic is the one that is found.\<close>

lemma last_put:
  assumes "invar s" and "put t m s = (True, s')" and "\<forall>op \<in> set ops. fst op \<noteq> t"
  shows "invar (fold (\<lambda>(u, n) s. case n of Some k \<Rightarrow> snd (put u k s) | None \<Rightarrow> del u s) ops s')
    \<and> contents (fold (\<lambda>(u, n) s. case n of Some k \<Rightarrow> snd (put u k s) | None \<Rightarrow> del u s) ops s') t = Some m"
proof -
  let ?run = "\<lambda>ops. fold (\<lambda>(u, n) s. case n of Some k \<Rightarrow> snd (put u k s) | None \<Rightarrow> del u s) ops s'"
  have "invar (?run ops) \<and> contents (?run ops) t = contents s' t"
    using assms(3)
  proof (induction ops rule: rev_induct)
    case Nil
    show ?case using put_stores [OF assms(1,2)] by simp
  next
    case (snoc op ops)
    then show ?case
      by (cases op; cases "snd op") (auto simp: put_invar put_other del_removes)
  qed
  with put_stores [OF assms(1,2)] show ?thesis by simp
qed

end

section \<open>The retained messages as a map\<close>

text \<open>At most one entry per topic, and the counter counts the entries in use.\<close>

definition rs_inv :: "RetainedStore \<Rightarrow> bool" where
  "rs_inv rs \<longleftrightarrow>
     (\<forall>i < length (rs_entries rs). \<forall>j < length (rs_entries rs).
        re_in_use (rs_entries rs ! i) \<longrightarrow> re_in_use (rs_entries rs ! j) \<longrightarrow>
        re_topic (rs_entries rs ! i) = re_topic (rs_entries rs ! j) \<longrightarrow> i = j)
     \<and> rs_count rs = length (filter re_in_use (rs_entries rs))"

definition rs_map :: "RetainedStore \<Rightarrow> TopicHandle \<Rightarrow> MessageHandle option" where
  "rs_map rs t = map_option (\<lambda>i. re_message (rs_entries rs ! i)) (first_idx (retained_for t) (rs_entries rs))"

lemma retained_for_iff: "retained_for t e \<longleftrightarrow> re_in_use e \<and> re_topic e = t"
  by (cases t; cases "re_topic e") (auto simp: retained_for_def)

lemma retained_idx:
  assumes "rs_inv rs"
  shows "first_idx (retained_for t) (rs_entries rs) = Some i \<longleftrightarrow>
    i < length (rs_entries rs) \<and> re_in_use (rs_entries rs ! i) \<and> re_topic (rs_entries rs ! i) = t"
proof
  assume "i < length (rs_entries rs) \<and> re_in_use (rs_entries rs ! i) \<and> re_topic (rs_entries rs ! i) = t"
  with assms show "first_idx (retained_for t) (rs_entries rs) = Some i"
    by (intro first_idx_unique) (auto simp: retained_for_iff rs_inv_def)
qed (auto simp: retained_for_iff dest: first_idx_Some_in)

lemma rs_map_Some:
  assumes "rs_inv rs"
  shows "rs_map rs t = Some m \<longleftrightarrow> (\<exists>i < length (rs_entries rs). re_in_use (rs_entries rs ! i)
    \<and> re_topic (rs_entries rs ! i) = t \<and> re_message (rs_entries rs ! i) = m)"
  by (auto simp: rs_map_def retained_idx [OF assms])

text \<open>Two stores with the same entries up to those of one topic.\<close>

lemma rs_map_eqI:
  assumes "rs_inv rs" and "rs_inv rs'"
    and "\<And>i. i < length (rs_entries rs') \<Longrightarrow> re_in_use (rs_entries rs' ! i) \<Longrightarrow> re_topic (rs_entries rs' ! i) \<noteq> t \<Longrightarrow>
      i < length (rs_entries rs) \<and> rs_entries rs ! i = rs_entries rs' ! i"
    and "\<And>i. i < length (rs_entries rs) \<Longrightarrow> re_in_use (rs_entries rs ! i) \<Longrightarrow> re_topic (rs_entries rs ! i) \<noteq> t \<Longrightarrow>
      i < length (rs_entries rs') \<and> rs_entries rs' ! i = rs_entries rs ! i"
    and "rs_map rs' t = x"
  shows "rs_map rs' = (rs_map rs)(t := x)"
proof
  fix u
  have "rs_map rs' u = Some m \<longleftrightarrow> rs_map rs u = Some m" if "u \<noteq> t" for m
    unfolding rs_map_Some [OF assms(1)] rs_map_Some [OF assms(2)] using that assms(3,4) by metis
  then have "u \<noteq> t \<Longrightarrow> rs_map rs' u = rs_map rs u" by (metis not_Some_eq)
  with assms(5) show "rs_map rs' u = ((rs_map rs)(t := x)) u" by simp
qed

text \<open>The three ways an entry changes: it is overwritten, filled or freed.\<close>

lemma retained_overwrite:
  assumes inv: "rs_inv rs" and i: "first_idx (retained_for t) (rs_entries rs) = Some i"
    and rs': "rs_entries rs' = (rs_entries rs)[i := (rs_entries rs ! i)\<lparr>re_message := m\<rparr>]" "rs_count rs' = rs_count rs"
  shows "rs_inv rs' \<and> rs_map rs' = (rs_map rs)(t \<mapsto> m)"
proof -
  have e: "i < length (rs_entries rs)" "re_in_use (rs_entries rs ! i)" "re_topic (rs_entries rs ! i) = t"
    using i retained_idx [OF inv] by auto
  have "rs_count rs' = length (filter re_in_use (rs_entries rs'))"
    using inv e rs' by (simp add: rs_inv_def length_filter_update)
  moreover have "i1 = j" if "i1 < length (rs_entries rs')" "j < length (rs_entries rs')" "re_in_use (rs_entries rs' ! i1)"
    "re_in_use (rs_entries rs' ! j)" "re_topic (rs_entries rs' ! i1) = re_topic (rs_entries rs' ! j)" for i1 j
    using inv that e rs' unfolding rs_inv_def by (auto simp: nth_upd split: if_splits)
  ultimately have inv': "rs_inv rs'" by (auto simp: rs_inv_def)
  have "rs_map rs' t = Some m"
    using e rs' by (auto simp: rs_map_Some [OF inv'] intro!: exI [of _ i])
  with inv inv' e rs' show ?thesis
    by (intro conjI rs_map_eqI) (auto simp: nth_upd split: if_splits)
qed

lemma retained_fill:
  assumes inv: "rs_inv rs" and new: "first_idx (retained_for t) (rs_entries rs) = None"
    and i: "first_idx (\<lambda>e. \<not> re_in_use e) (rs_entries rs) = Some i"
    and rs': "rs_entries rs' = (rs_entries rs)[i := \<lparr>re_topic = t, re_message = m, re_in_use = True\<rparr>]" "rs_count rs' = rs_count rs + 1"
  shows "rs_inv rs' \<and> rs_map rs' = (rs_map rs)(t \<mapsto> m)"
proof -
  have e: "i < length (rs_entries rs)" "\<not> re_in_use (rs_entries rs ! i)" using i by auto
  have n: "re_topic (rs_entries rs ! j) \<noteq> t" if "j < length (rs_entries rs)" "re_in_use (rs_entries rs ! j)" for j
    using new that by (auto simp: first_idx_None_iff retained_for_iff all_set_conv_all_nth)
  have "rs_count rs' = length (filter re_in_use (rs_entries rs'))"
    using inv e rs' by (simp add: rs_inv_def length_filter_update)
  moreover have "i1 = j" if "i1 < length (rs_entries rs')" "j < length (rs_entries rs')" "re_in_use (rs_entries rs' ! i1)"
    "re_in_use (rs_entries rs' ! j)" "re_topic (rs_entries rs' ! i1) = re_topic (rs_entries rs' ! j)" for i1 j
    using inv that e n rs' unfolding rs_inv_def by (auto simp: nth_upd split: if_splits)
  ultimately have inv': "rs_inv rs'" by (auto simp: rs_inv_def)
  have "rs_map rs' t = Some m"
    using e rs' by (auto simp: rs_map_Some [OF inv'] intro!: exI [of _ i])
  with inv inv' e rs' show ?thesis
    by (intro conjI rs_map_eqI) (auto simp: nth_upd split: if_splits)
qed

lemma retained_free:
  assumes inv: "rs_inv rs" and i: "first_idx (retained_for t) (rs_entries rs) = Some i"
    and rs': "rs_entries rs' = (rs_entries rs)[i := x]" "rs_count rs' = rs_count rs - 1" and x: "\<not> re_in_use x"
  shows "rs_inv rs' \<and> rs_map rs' = (rs_map rs)(t := None)"
proof -
  have e: "i < length (rs_entries rs)" "re_in_use (rs_entries rs ! i)" "re_topic (rs_entries rs ! i) = t"
    using i retained_idx [OF inv] by auto
  have "rs_count rs' = length (filter re_in_use (rs_entries rs'))"
    using inv e rs' x by (simp add: rs_inv_def length_filter_update)
  with inv x rs' have inv': "rs_inv rs'" unfolding rs_inv_def by (auto simp: nth_upd split: if_splits)
  have "rs_map rs' t \<noteq> Some m" for m
    using inv e rs' x unfolding rs_map_Some [OF inv'] rs_inv_def by (auto simp: nth_upd split: if_splits)
  then have "rs_map rs' t = None" by (cases "rs_map rs' t") auto
  with inv inv' e rs' x show ?thesis
    by (intro conjI rs_map_eqI) (auto simp: nth_upd split: if_splits)
qed

text \<open>The store together with the two pools it works on.\<close>

definition rs_put :: "TopicHandle \<Rightarrow> MessageHandle \<Rightarrow> RetainedStore \<times> pools \<Rightarrow> bool \<times> RetainedStore \<times> pools" where
  "rs_put t m s = retained_put t m (fst s) (snd s)"

definition rs_del :: "TopicHandle \<Rightarrow> RetainedStore \<times> pools \<Rightarrow> RetainedStore \<times> pools" where
  "rs_del t s = retained_remove t (fst s) (snd s)"

lemma rs_put_stores:
  assumes inv: "rs_inv (fst s)" and r: "rs_put t m s = (True, s')"
  shows "rs_inv (fst s') \<and> rs_map (fst s') = (rs_map (fst s))(t \<mapsto> m)"
proof (cases "first_idx (retained_for t) (rs_entries (fst s))")
  case (Some i)
  with r have "rs_entries (fst s') = (rs_entries (fst s))[i := (rs_entries (fst s) ! i)\<lparr>re_message := m\<rparr>]"
      "rs_count (fst s') = rs_count (fst s)"
    by (auto simp: rs_put_def retained_put_def retained_replace_def Let_def split: if_splits prod.splits)
  then show ?thesis by (rule retained_overwrite [OF inv Some])
next
  case None
  with r obtain i where i: "first_idx (\<lambda>e. \<not> re_in_use e) (rs_entries (fst s)) = Some i"
    by (auto simp: rs_put_def retained_put_def retained_insert_def Let_def split: if_splits prod.splits option.splits)
  with r None have "rs_entries (fst s') = (rs_entries (fst s))[i := \<lparr>re_topic = t, re_message = m, re_in_use = True\<rparr>]"
      "rs_count (fst s') = rs_count (fst s) + 1"
    by (auto simp: rs_put_def retained_put_def retained_insert_def Let_def split: if_splits prod.splits)
  then show ?thesis by (rule retained_fill [OF inv None i])
qed

lemma rs_put_refuses:
  assumes inv: "rs_inv (fst s)" and r: "rs_put t m s = (False, s')"
  shows "rs_inv (fst s') \<and> (rs_map (fst s') = rs_map (fst s) \<or> rs_map (fst s') = (rs_map (fst s))(t := None))"
proof (cases "fst s' = fst s")
  case False
  obtain rs mp ti where s: "s = (rs, mp, ti)" by (rule prod_cases3)
  obtain i where i: "first_idx (retained_for t) (rs_entries rs) = Some i"
    using False r s by (auto simp: rs_put_def retained_put_def retained_insert_def Let_def split: if_splits prod.splits option.splits)
  have "fst s' = rs\<lparr>rs_entries := (rs_entries rs)[i := (rs_entries rs ! i)\<lparr>re_in_use := False\<rparr>], rs_count := rs_count rs - 1\<rparr>"
    using False r s i by (auto simp: rs_put_def retained_put_def retained_replace_def Let_def split: if_splits prod.splits)
  then show ?thesis
    using retained_free [of rs t i "fst s'" "(rs_entries rs ! i)\<lparr>re_in_use := False\<rparr>"] inv i s by simp
qed (use inv in simp)

lemma rs_del_removes:
  assumes inv: "rs_inv (fst s)"
  shows "rs_inv (fst (rs_del t s)) \<and> rs_map (fst (rs_del t s)) = (rs_map (fst s))(t := None)"
proof (cases "first_idx (retained_for t) (rs_entries (fst s))")
  case None
  then have "rs_map (fst s) t = None" by (simp add: rs_map_def)
  then have "(rs_map (fst s))(t := None) = rs_map (fst s)" by auto
  with None inv show ?thesis by (simp add: rs_del_def retained_remove_def)
next
  case (Some i)
  let ?x = "\<lparr>re_topic = NULL_TOPIC, re_message = NULL_MESSAGE, re_in_use = False\<rparr>"
  have "rs_entries (fst (rs_del t s)) = (rs_entries (fst s))[i := ?x]" "rs_count (fst (rs_del t s)) = rs_count (fst s) - 1"
    using Some by (auto simp: rs_del_def retained_remove_def Let_def split: prod.splits)
  then show ?thesis by (rule retained_free [OF inv Some]) simp
qed

interpretation rs: latest_store "\<lambda>s. rs_inv (fst s)" "\<lambda>s. rs_map (fst s)" rs_put rs_del
  by unfold_locales (rule rs_put_stores rs_put_refuses rs_del_removes; assumption)+

lemma retained_get_map: "retained_get rs t = (case rs_map rs t of None \<Rightarrow> NULL_MESSAGE | Some m \<Rightarrow> m)"
  by (simp add: retained_get_def rs_map_def split: option.split)

lemma rs_inv_new: "rs_inv (RetainedStore_new n limit)"
  by (simp add: rs_inv_def RetainedStore_new_def)

text \<open>Claim C16. The retained store is a map from topics to their latest message: after a message was stored for
  a topic, \<open>get\<close> returns it, whatever is stored and removed for other topics in between, and
  after \<open>remove\<close> the topic has none.\<close>

theorem retained_latest:
  assumes "rs_inv rs" and "retained_put t m rs ps = (True, rs1, ps1)" and "list_all (\<lambda>op. fst op \<noteq> t) ops"
  shows "let (rs2, ps2) = fold (\<lambda>(u, n) s. case n of Some k \<Rightarrow> snd (rs_put u k s) | None \<Rightarrow> rs_del u s) ops (rs1, ps1)
    in retained_get rs2 t = m \<and> retained_get (fst (retained_remove t rs2 ps2)) t = NULL_MESSAGE"
proof -
  let ?step = "\<lambda>(u, n) s. case n of Some k \<Rightarrow> snd (rs_put u k s) | None \<Rightarrow> rs_del u s"
  obtain rs2 ps2 where r: "fold ?step ops (rs1, ps1) = (rs2, ps2)" by (rule prod.exhaust)
  have put: "rs_put t m (rs, ps) = (True, rs1, ps1)" by (simp add: rs_put_def assms(2))
  have "rs_inv (fst (fold ?step ops (rs1, ps1))) \<and> rs_map (fst (fold ?step ops (rs1, ps1))) t = Some m"
    using assms(1,3) by (intro rs.last_put [OF _ put]) (simp_all add: list_all_iff)
  then show ?thesis
    using rs.del_removes [of "(rs2, ps2)" t] by (simp add: r retained_get_map rs_del_def)
qed

definition sample_pools :: pools where
  "sample_pools = (snd (acquire_empty (MessagePool_new 2 4 2)), snd (intern [116] (TopicInternPool_new 2 8)))"

theorem retained_latest_witness:
  "\<exists>rs1 ps1 rs2 ps2. retained_put \<lparr>slot = 0, generation = 1\<rparr> \<lparr>slot = 0, generation = 1\<rparr> (RetainedStore_new 2 16) sample_pools = (True, rs1, ps1)
     \<and> rs_del \<lparr>slot = 1, generation = 1\<rparr> (rs1, ps1) = (rs2, ps2)
     \<and> retained_get rs2 \<lparr>slot = 0, generation = 1\<rparr> = \<lparr>slot = 0, generation = 1\<rparr>"
proof -
  let ?h = "\<lparr>slot = 0, generation = 1\<rparr> :: Handle"
  have "fst (retained_put ?h ?h (RetainedStore_new 2 16) sample_pools)" by code_simp
  then obtain rs1 ps1 where p: "retained_put ?h ?h (RetainedStore_new 2 16) sample_pools = (True, rs1, ps1)"
    by (cases "retained_put ?h ?h (RetainedStore_new 2 16) sample_pools") auto
  obtain rs2 ps2 where d: "rs_del \<lparr>slot = 1, generation = 1\<rparr> (rs1, ps1) = (rs2, ps2)" by (rule prod.exhaust)
  have "retained_get rs2 ?h = ?h"
    using retained_latest [OF rs_inv_new p, of "[(\<lparr>slot = 1, generation = 1\<rparr>, None)]"] by (simp add: d)
  with p d show ?thesis by blast
qed

end
