(* ===== verification/Inflight.thy ===== *)
theory Inflight
  imports Message_Pool_Inv Topic_Intern
begin

text \<open>
  The per-session tables of unacknowledged deliveries (\<open>inflight.cpp\<close>): outbound QoS 1/2 messages
  keyed by the packet identifier the broker chose, inbound QoS 2 messages keyed by the client's.
  A table is the list of its \<open>QosInflightPerClient\<close> entries. \<open>find\<close> returns the index of the entry
  the code points at.
\<close>

section \<open>Outbound\<close>

datatype OutboundQoS2Phase = PhaseNone | AwaitingPubrec | AwaitingPubcomp

text \<open>\<open>PhaseNone\<close> is the value 0 of a cleared entry, which is no enumerator of the source.\<close>

record OutboundInflightEntry =
  oi_in_use :: bool
  oi_packet_id :: u16
  oi_message :: MessageHandle
  oi_topic :: TopicHandle
  oi_delivery_qos :: u8
  oi_retain_flag :: bool
  oi_qos2_phase :: OutboundQoS2Phase

record SessionOutboundInflight =
  ob_entries :: "OutboundInflightEntry list"
  ob_next_id :: u16

definition oi_zero :: OutboundInflightEntry where
  "oi_zero = \<lparr>oi_in_use = False, oi_packet_id = 0, oi_message = \<lparr>slot = 0, generation = 0\<rparr>,
     oi_topic = \<lparr>slot = 0, generation = 0\<rparr>, oi_delivery_qos = 0, oi_retain_flag = False,
     oi_qos2_phase = PhaseNone\<rparr>"

definition SessionOutboundInflight_new :: "nat \<Rightarrow> SessionOutboundInflight" where
  "SessionOutboundInflight_new n = \<lparr>ob_entries = replicate n oi_zero, ob_next_id = 1\<rparr>"

text \<open>The references an entry holds are given back.\<close>

definition oi_release ::
  "OutboundInflightEntry \<Rightarrow> MessagePool \<times> TopicInternPool \<Rightarrow> MessagePool \<times> TopicInternPool"
where
  "oi_release e ps =
     ((if msg_valid (fst ps) (oi_message e) then msg_release (oi_message e) (fst ps) else fst ps),
      topic_release (oi_topic e) (snd ps))"

definition ob_clear ::
  "SessionOutboundInflight \<Rightarrow> MessagePool \<times> TopicInternPool
     \<Rightarrow> SessionOutboundInflight \<times> MessagePool \<times> TopicInternPool"
where
  "ob_clear t ps =
     (t\<lparr>ob_entries := map (\<lambda>e. if oi_in_use e then oi_zero else e) (ob_entries t)\<rparr>,
      fold oi_release (filter oi_in_use (ob_entries t)) ps)"

definition ob_count :: "SessionOutboundInflight \<Rightarrow> nat" where
  "ob_count t = length (filter oi_in_use (ob_entries t))"

definition ob_at_capacity :: "SessionOutboundInflight \<Rightarrow> bool" where
  "ob_at_capacity t \<longleftrightarrow> ob_count t \<ge> length (ob_entries t)"

definition ob_find :: "SessionOutboundInflight \<Rightarrow> u16 \<Rightarrow> nat option" where
  "ob_find t packet_id = first_idx (\<lambda>e. oi_in_use e \<and> oi_packet_id e = packet_id) (ob_entries t)"

text \<open>The loop of \<open>next_packet_id\<close> with the attempts that remain.\<close>

primrec next_packet_id_loop :: "nat \<Rightarrow> SessionOutboundInflight \<Rightarrow> u16 \<times> SessionOutboundInflight" where
  "next_packet_id_loop 0 t = (0, t)"
| "next_packet_id_loop (Suc attempts) t =
     (let id = (if ob_next_id t = 0 then 1 else ob_next_id t);
          t' = t\<lparr>ob_next_id := id + 1\<rparr>
      in if ob_find t' id = None then (id, t') else next_packet_id_loop attempts t')"

definition next_packet_id :: "SessionOutboundInflight \<Rightarrow> u16 \<times> SessionOutboundInflight" where
  "next_packet_id t = next_packet_id_loop 65535 t"

definition reset_packet_ids :: "SessionOutboundInflight \<Rightarrow> SessionOutboundInflight" where
  "reset_packet_ids t = t\<lparr>ob_next_id := 1\<rparr>"

definition ob_insert ::
  "u16 \<Rightarrow> MessageHandle \<Rightarrow> TopicHandle \<Rightarrow> u8 \<Rightarrow> bool \<Rightarrow> OutboundQoS2Phase
     \<Rightarrow> SessionOutboundInflight \<Rightarrow> bool \<times> SessionOutboundInflight"
where
  "ob_insert packet_id msg topic delivery_qos retain_flag qos2_phase t =
     (if packet_id = 0 \<or> ob_find t packet_id \<noteq> None \<or> ob_at_capacity t then (False, t)
      else case first_idx (\<lambda>e. \<not> oi_in_use e) (ob_entries t) of
          None \<Rightarrow> (False, t)
        | Some i \<Rightarrow>
            (True, t\<lparr>ob_entries := (ob_entries t)[i := \<lparr>oi_in_use = True, oi_packet_id = packet_id,
               oi_message = msg, oi_topic = topic, oi_delivery_qos = delivery_qos,
               oi_retain_flag = retain_flag,
               oi_qos2_phase = (if delivery_qos \<ge> 2 then qos2_phase else AwaitingPubrec)\<rparr>]\<rparr>))"

definition ob_remove ::
  "u16 \<Rightarrow> SessionOutboundInflight \<Rightarrow> MessagePool \<times> TopicInternPool
     \<Rightarrow> bool \<times> SessionOutboundInflight \<times> MessagePool \<times> TopicInternPool"
where
  "ob_remove packet_id t ps =
     (case ob_find t packet_id of
        None \<Rightarrow> (False, t, ps)
      | Some i \<Rightarrow> (True, t\<lparr>ob_entries := (ob_entries t)[i := oi_zero]\<rparr>,
                   oi_release (ob_entries t ! i) ps))"

definition ob_entry_at :: "SessionOutboundInflight \<Rightarrow> nat \<Rightarrow> OutboundInflightEntry option" where
  "ob_entry_at t index = (if index < length (ob_entries t) then Some (ob_entries t ! index) else None)"

section \<open>Inbound QoS 2\<close>

record InboundQoS2Entry =
  ii_in_use :: bool
  ii_packet_id :: u16
  ii_topic :: "byte list"
  ii_payload :: MessageHandle
  ii_payload_len :: nat
  ii_retain :: bool
  ii_qos :: u8
  ii_dup :: bool
  ii_pubrec_sent :: bool

type_synonym SessionInboundQoS2 = "InboundQoS2Entry list"

definition ii_zero :: InboundQoS2Entry where
  "ii_zero = \<lparr>ii_in_use = False, ii_packet_id = 0, ii_topic = [],
     ii_payload = \<lparr>slot = 0, generation = 0\<rparr>, ii_payload_len = 0, ii_retain = False, ii_qos = 0,
     ii_dup = False, ii_pubrec_sent = False\<rparr>"

definition SessionInboundQoS2_new :: "nat \<Rightarrow> SessionInboundQoS2" where
  "SessionInboundQoS2_new n = replicate n ii_zero"

definition ii_release :: "InboundQoS2Entry \<Rightarrow> MessagePool \<Rightarrow> MessagePool" where
  "ii_release e pool =
     (if msg_valid pool (ii_payload e) then msg_release (ii_payload e) pool else pool)"

definition ib_clear :: "SessionInboundQoS2 \<Rightarrow> MessagePool \<Rightarrow> SessionInboundQoS2 \<times> MessagePool" where
  "ib_clear t pool =
     (map (\<lambda>e. if ii_in_use e then ii_zero else e) t, fold ii_release (filter ii_in_use t) pool)"

definition ib_at_capacity :: "SessionInboundQoS2 \<Rightarrow> bool" where
  "ib_at_capacity t \<longleftrightarrow> length (filter ii_in_use t) \<ge> length t"

definition ib_find :: "SessionInboundQoS2 \<Rightarrow> u16 \<Rightarrow> nat option" where
  "ib_find t packet_id = first_idx (\<lambda>e. ii_in_use e \<and> ii_packet_id e = packet_id) t"

text \<open>\<open>None\<close> is the null pointer, \<open>Some i\<close> the entry that holds the packet identifier.\<close>

definition ib_insert ::
  "u16 \<Rightarrow> byte list \<Rightarrow> MessageHandle \<Rightarrow> nat \<Rightarrow> bool \<Rightarrow> u8 \<Rightarrow> bool \<Rightarrow> SessionInboundQoS2
     \<Rightarrow> nat option \<times> SessionInboundQoS2"
where
  "ib_insert packet_id topic payload payload_len retain qos dup t =
     (if packet_id = 0 then (None, t)
      else case ib_find t packet_id of
          Some i \<Rightarrow> (Some i, t)
        | None \<Rightarrow>
            if ib_at_capacity t then (None, t)
            else case first_idx (\<lambda>e. \<not> ii_in_use e) t of
                None \<Rightarrow> (None, t)
              | Some i \<Rightarrow>
                  (Some i, t[i := \<lparr>ii_in_use = True, ii_packet_id = packet_id,
                     ii_topic = take 255 topic, ii_payload = payload, ii_payload_len = payload_len,
                     ii_retain = retain, ii_qos = qos, ii_dup = dup, ii_pubrec_sent = False\<rparr>]))"

definition ib_remove :: "u16 \<Rightarrow> SessionInboundQoS2 \<Rightarrow> MessagePool \<Rightarrow> bool \<times> SessionInboundQoS2 \<times> MessagePool"
where
  "ib_remove packet_id t pool =
     (case ib_find t packet_id of
        None \<Rightarrow> (False, t, pool)
      | Some i \<Rightarrow> (True, t[i := ii_zero], ii_release (t ! i) pool))"

definition effective_receive_maximum :: "BrokerLimits \<Rightarrow> u16 \<Rightarrow> u16" where
  "effective_receive_maximum L client_receive_maximum =
     (let cap = of_nat (QosInflightPerClient L);
          connack = ConnackCaps_ReceiveMaximum L;
          client = (if client_receive_maximum = 0 then connack else client_receive_maximum)
      in min cap (min client connack))"


section \<open>The contract of an identifier table\<close>

text \<open>
  What the broker relies on of both tables: a bounded finite map from nonzero packet identifiers.
  \<open>contents\<close> is the map, \<open>mk\<close> the entry that an insertion creates.
\<close>

locale id_table =
  fixes invar :: "'t \<Rightarrow> bool"
    and contents :: "'t \<Rightarrow> u16 \<Rightarrow> 'e option"
    and cap :: "'t \<Rightarrow> nat"
    and used :: "'t \<Rightarrow> nat"
    and mk :: "u16 \<Rightarrow> 'v \<Rightarrow> 'e"
    and ins :: "u16 \<Rightarrow> 'v \<Rightarrow> 't \<Rightarrow> bool \<times> 't"
    and rem :: "u16 \<Rightarrow> 't \<Rightarrow> 't"
  assumes ins_ok: "invar t \<Longrightarrow> k \<noteq> 0 \<Longrightarrow> contents t k = None \<Longrightarrow> used t < cap t \<Longrightarrow>
      fst (ins k v t)"
    and ins_effect: "invar t \<Longrightarrow> ins k v t = (True, t') \<Longrightarrow>
      invar t' \<and> k \<noteq> 0 \<and> contents t k = None \<and> contents t' = (contents t)(k \<mapsto> mk k v)
      \<and> used t' = used t + 1 \<and> cap t' = cap t"
    and ins_refuse: "ins k v t = (False, t') \<Longrightarrow> t' = t"
    and rem_effect: "invar t \<Longrightarrow> invar (rem k t) \<and> contents (rem k t) = (contents t)(k := None)
      \<and> cap (rem k t) = cap t \<and> used (rem k t) = used t - (if contents t k = None then 0 else 1)"
begin

text \<open>A message that was accepted and acknowledged leaves no trace.\<close>

lemma rem_after_ins:
  assumes "invar t" and "ins k v t = (True, t')"
  shows "contents (rem k t') = contents t \<and> used (rem k t') = used t"
proof -
  have i: "invar t'" "contents t k = None" "contents t' = (contents t)(k \<mapsto> mk k v)" "used t' = used t + 1"
    using ins_effect [OF assms] by auto
  have "(contents t)(k := None) = contents t"
    using i(2) by auto
  with rem_effect [OF i(1), of k] i show ?thesis by simp
qed

text \<open>A duplicate is refused until the identifier is removed.\<close>

lemma no_duplicate:
  "invar t \<Longrightarrow> ins k v t = (True, t') \<Longrightarrow> \<not> fst (ins k w t') \<and> snd (ins k w t') = t'"
proof -
  assume t: "invar t" "ins k v t = (True, t')"
  obtain ok t'' where w: "ins k w t' = (ok, t'')" by (cases "ins k w t'")
  have "\<not> ok"
    using ins_effect [OF t] ins_effect [of t' k w t''] w by (cases ok) auto
  with w ins_refuse [of k w t' t''] show ?thesis by simp
qed

lemma rem_rem: "invar t \<Longrightarrow> contents (rem k (rem k t)) = contents (rem k t)"
  using rem_effect [of t k] rem_effect [of "rem k t" k] by simp

end

text \<open>The facts about tables that are scanned for a key.\<close>

definition keyed :: "('e \<Rightarrow> bool) \<Rightarrow> ('e \<Rightarrow> u16) \<Rightarrow> 'e list \<Rightarrow> bool" where
  "keyed live key es \<longleftrightarrow>
     (\<forall>i < length es. live (es ! i) \<longrightarrow> key (es ! i) \<noteq> 0)
     \<and> (\<forall>i < length es. \<forall>j < length es. live (es ! i) \<longrightarrow> live (es ! j) \<longrightarrow>
           key (es ! i) = key (es ! j) \<longrightarrow> i = j)"

definition lookup :: "('e \<Rightarrow> bool) \<Rightarrow> ('e \<Rightarrow> u16) \<Rightarrow> 'e list \<Rightarrow> u16 \<Rightarrow> nat option" where
  "lookup live key es k = first_idx (\<lambda>e. live e \<and> key e = k) es"

lemma lookup_Some_iff:
  assumes "keyed live key es"
  shows "lookup live key es k = Some i \<longleftrightarrow> i < length es \<and> live (es ! i) \<and> key (es ! i) = k"
proof
  assume "i < length es \<and> live (es ! i) \<and> key (es ! i) = k"
  with assms show "lookup live key es k = Some i"
    unfolding lookup_def by (intro first_idx_unique) (auto simp: keyed_def)
qed (auto simp: lookup_def)

lemma lookup_None_iff: "lookup live key es k = None \<longleftrightarrow> (\<forall>i < length es. live (es ! i) \<longrightarrow> key (es ! i) \<noteq> k)"
  by (auto simp: lookup_def first_idx_None_iff all_set_conv_all_nth)

lemma lookup_zero: "keyed live key es \<Longrightarrow> lookup live key es 0 = None"
  by (auto simp: lookup_None_iff keyed_def)

lemma keyed_insert:
  assumes k: "keyed live key es" and i: "i < length es" "\<not> live (es ! i)" and "live e"
    and new: "key e \<noteq> 0" "lookup live key es (key e) = None"
  shows "keyed live key (es[i := e])"
    and "map_option (\<lambda>j. es[i := e] ! j) (lookup live key (es[i := e]) n)
      = (if n = key e then Some e else map_option (\<lambda>j. es ! j) (lookup live key es n))"
proof -
  show k': "keyed live key (es[i := e])"
    using assms by (auto simp: keyed_def nth_upd lookup_None_iff)
  show "map_option (\<lambda>j. es[i := e] ! j) (lookup live key (es[i := e]) n)
      = (if n = key e then Some e else map_option (\<lambda>j. es ! j) (lookup live key es n))"
  proof (cases "n = key e")
    case True
    then have "lookup live key (es[i := e]) n = Some i"
      using i \<open>live e\<close> by (simp add: lookup_Some_iff [OF k'])
    with True i show ?thesis by simp
  next
    case False
    have "lookup live key (es[i := e]) n = Some j \<longleftrightarrow> lookup live key es n = Some j" for j
      using False i by (auto simp: lookup_Some_iff [OF k'] lookup_Some_iff [OF k] nth_upd)
    then have eq: "lookup live key (es[i := e]) n = lookup live key es n"
      by (metis not_Some_eq)
    show ?thesis
    proof (cases "lookup live key es n")
      case (Some j)
      then have "j \<noteq> i" using i by (auto simp: lookup_Some_iff [OF k])
      with Some False show ?thesis by (simp add: eq)
    qed (simp add: eq False)
  qed
qed

lemma keyed_remove:
  assumes k: "keyed live key es" and i: "lookup live key es n = Some i" and "\<not> live e"
  shows "keyed live key (es[i := e])"
    and "map_option (\<lambda>j. es[i := e] ! j) (lookup live key (es[i := e]) m)
      = (if m = n then None else map_option (\<lambda>j. es ! j) (lookup live key es m))"
proof -
  have i': "i < length es" "live (es ! i)" "key (es ! i) = n"
    using i by (auto simp: lookup_Some_iff [OF k])
  show k': "keyed live key (es[i := e])"
    using assms by (auto simp: keyed_def nth_upd)
  have "lookup live key (es[i := e]) m = Some j \<longleftrightarrow> m \<noteq> n \<and> lookup live key es m = Some j" for j
    using i' k \<open>\<not> live e\<close>
    by (auto simp: lookup_Some_iff [OF k'] lookup_Some_iff [OF k] nth_upd) (auto simp: keyed_def)
  then have eq: "lookup live key (es[i := e]) m = (if m = n then None else lookup live key es m)"
    by (metis not_Some_eq)
  show "map_option (\<lambda>j. es[i := e] ! j) (lookup live key (es[i := e]) m)
      = (if m = n then None else map_option (\<lambda>j. es ! j) (lookup live key es m))"
  proof (cases "m = n \<or> lookup live key es m = None")
    case False
    then obtain j where j: "lookup live key es m = Some j" "m \<noteq> n" by auto
    then have "j \<noteq> i" using i' by (auto simp: lookup_Some_iff [OF k])
    with j show ?thesis by (simp add: eq)
  qed (auto simp: eq)
qed

lemma length_filter_insert:
  "i < length es \<Longrightarrow> \<not> live (es ! i) \<Longrightarrow> live e \<Longrightarrow>
     length (filter live (es[i := e])) = Suc (length (filter live es))"
  by (simp add: length_filter_update)

lemma length_filter_remove:
  "i < length es \<Longrightarrow> live (es ! i) \<Longrightarrow> \<not> live e \<Longrightarrow>
     length (filter live (es[i := e])) = length (filter live es) - 1"
  by (simp add: length_filter_update)

section \<open>Both tables keep the contract\<close>

definition ob_inv :: "SessionOutboundInflight \<Rightarrow> bool" where
  "ob_inv t \<longleftrightarrow> keyed oi_in_use oi_packet_id (ob_entries t)"

definition ob_get :: "SessionOutboundInflight \<Rightarrow> u16 \<Rightarrow> OutboundInflightEntry option" where
  "ob_get t k = map_option (\<lambda>i. ob_entries t ! i) (ob_find t k)"

definition ib_inv :: "SessionInboundQoS2 \<Rightarrow> bool" where
  "ib_inv t \<longleftrightarrow> keyed ii_in_use ii_packet_id t"

definition ib_get :: "SessionInboundQoS2 \<Rightarrow> u16 \<Rightarrow> InboundQoS2Entry option" where
  "ib_get t k = map_option (\<lambda>i. t ! i) (ib_find t k)"

lemma ob_find_lookup: "ob_find t k = lookup oi_in_use oi_packet_id (ob_entries t) k"
  by (simp add: ob_find_def lookup_def)

lemma ib_find_lookup: "ib_find t k = lookup ii_in_use ii_packet_id t k"
  by (simp add: ib_find_def lookup_def)

lemma ob_inv_new: "ob_inv (SessionOutboundInflight_new n)"
  by (simp add: ob_inv_def keyed_def SessionOutboundInflight_new_def oi_zero_def)

lemma ib_inv_new: "ib_inv (SessionInboundQoS2_new n)"
  by (simp add: ib_inv_def keyed_def SessionInboundQoS2_new_def ii_zero_def)

text \<open>The outbound operations on the arguments \<open>(message, topic, qos, retain, phase)\<close>.\<close>

type_synonym ob_args = "MessageHandle \<times> TopicHandle \<times> u8 \<times> bool \<times> OutboundQoS2Phase"

definition ob_entry :: "u16 \<Rightarrow> ob_args \<Rightarrow> OutboundInflightEntry" where
  "ob_entry k v = (case v of (msg, topic, qos, retain, phase) \<Rightarrow>
     \<lparr>oi_in_use = True, oi_packet_id = k, oi_message = msg, oi_topic = topic, oi_delivery_qos = qos,
      oi_retain_flag = retain, oi_qos2_phase = (if qos \<ge> 2 then phase else AwaitingPubrec)\<rparr>)"

definition ob_put :: "u16 \<Rightarrow> ob_args \<Rightarrow> SessionOutboundInflight \<Rightarrow> bool \<times> SessionOutboundInflight" where
  "ob_put k v t = (case v of (msg, topic, qos, retain, phase) \<Rightarrow> ob_insert k msg topic qos retain phase t)"

definition ob_drop :: "u16 \<Rightarrow> SessionOutboundInflight \<Rightarrow> SessionOutboundInflight" where
  "ob_drop k t = (case ob_find t k of None \<Rightarrow> t | Some i \<Rightarrow> t\<lparr>ob_entries := (ob_entries t)[i := oi_zero]\<rparr>)"

lemma ob_remove_drop:
  "ob_remove k t ps = (ob_find t k \<noteq> None, ob_drop k t,
     (case ob_get t k of None \<Rightarrow> ps | Some e \<Rightarrow> oi_release e ps))"
  by (auto simp: ob_remove_def ob_drop_def ob_get_def split: option.splits)

lemma free_entry_exists:
  "length (filter live es) < length es \<Longrightarrow> \<exists>i. first_idx (\<lambda>e. \<not> live e) es = Some i"
  using length_filter_less_ex [of live es] first_idx_exists [of _ es "\<lambda>e. \<not> live e"] by blast

lemma ob_put_effect:
  assumes "ob_inv t" and "ob_put k v t = (True, t')"
  shows "ob_inv t' \<and> k \<noteq> 0 \<and> ob_get t k = None \<and> ob_get t' = (ob_get t)(k \<mapsto> ob_entry k v)
    \<and> ob_count t' = ob_count t + 1 \<and> length (ob_entries t') = length (ob_entries t)"
proof -
  obtain i where i: "first_idx (\<lambda>e. \<not> oi_in_use e) (ob_entries t) = Some i"
    and t': "t' = t\<lparr>ob_entries := (ob_entries t)[i := ob_entry k v]\<rparr>"
    and k: "k \<noteq> 0" "ob_find t k = None"
    using assms(2) by (auto simp: ob_put_def ob_insert_def ob_entry_def split: prod.splits option.splits if_splits)
  have e: "oi_in_use (ob_entry k v)" "oi_packet_id (ob_entry k v) = k"
    by (auto simp: ob_entry_def split: prod.splits)
  from i have i': "i < length (ob_entries t)" "\<not> oi_in_use (ob_entries t ! i)" by auto
  note ki = keyed_insert [of oi_in_use oi_packet_id "ob_entries t" i "ob_entry k v", OF _ i' e(1)]
  have "ob_get t' = (ob_get t)(k \<mapsto> ob_entry k v)"
    using ki(2) assms(1) k e by (auto simp: ob_get_def t' ob_inv_def ob_find_lookup fun_eq_iff)
  with ki(1) assms(1) k e length_filter_insert [of i "ob_entries t" oi_in_use, OF i'] show ?thesis
    by (simp add: ob_inv_def t' ob_find_lookup ob_get_def ob_count_def)
qed

lemma ob_drop_effect:
  assumes "ob_inv t"
  shows "ob_inv (ob_drop k t) \<and> ob_get (ob_drop k t) = (ob_get t)(k := None)
    \<and> length (ob_entries (ob_drop k t)) = length (ob_entries t)
    \<and> ob_count (ob_drop k t) = ob_count t - (if ob_get t k = None then 0 else 1)"
proof (cases "ob_find t k")
  case None
  with assms show ?thesis by (auto simp: ob_drop_def ob_get_def)
next
  case (Some i)
  have z: "\<not> oi_in_use oi_zero" by (simp add: oi_zero_def)
  have i: "i < length (ob_entries t)" "oi_in_use (ob_entries t ! i)"
    using Some by (auto simp: ob_find_def)
  note kr = keyed_remove [of oi_in_use oi_packet_id "ob_entries t" k i oi_zero, OF _ _ z]
  have "ob_get (ob_drop k t) = (ob_get t)(k := None)"
    using kr(2) assms Some by (auto simp: ob_get_def ob_drop_def ob_inv_def ob_find_lookup fun_eq_iff)
  with kr(1) assms Some length_filter_remove [of i "ob_entries t" oi_in_use, OF i z] show ?thesis
    by (simp add: ob_inv_def ob_drop_def ob_find_lookup ob_get_def ob_count_def)
qed

interpretation ob: id_table ob_inv ob_get "\<lambda>t. length (ob_entries t)" ob_count ob_entry ob_put ob_drop
proof
  fix t k v
  assume a: "ob_inv t" "k \<noteq> 0" "ob_get t k = None" "ob_count t < length (ob_entries t)"
  then obtain i where "first_idx (\<lambda>e. \<not> oi_in_use e) (ob_entries t) = Some i"
    using free_entry_exists [of oi_in_use "ob_entries t"] by (auto simp: ob_count_def)
  with a show "fst (ob_put k v t)"
    by (auto simp: ob_put_def ob_insert_def ob_get_def ob_at_capacity_def split: prod.splits)
next
  show "ob_put k v t = (False, t') \<Longrightarrow> t' = t" for k v t t'
    by (auto simp: ob_put_def ob_insert_def split: prod.splits option.splits if_splits)
qed (use ob_put_effect ob_drop_effect in auto)

text \<open>The inbound operations on \<open>(topic, payload, length, retain, qos, dup)\<close>. The code's \<open>insert\<close> also
  answers with the entry that is already there; a new entry is one it did not have.\<close>

type_synonym ib_args = "byte list \<times> MessageHandle \<times> nat \<times> bool \<times> u8 \<times> bool"

definition ib_entry :: "u16 \<Rightarrow> ib_args \<Rightarrow> InboundQoS2Entry" where
  "ib_entry k v = (case v of (topic, payload, len, retain, qos, dup) \<Rightarrow>
     \<lparr>ii_in_use = True, ii_packet_id = k, ii_topic = take 255 topic, ii_payload = payload,
      ii_payload_len = len, ii_retain = retain, ii_qos = qos, ii_dup = dup, ii_pubrec_sent = False\<rparr>)"

definition ib_put :: "u16 \<Rightarrow> ib_args \<Rightarrow> SessionInboundQoS2 \<Rightarrow> bool \<times> SessionInboundQoS2" where
  "ib_put k v t = (case v of (topic, payload, len, retain, qos, dup) \<Rightarrow>
     let r = ib_insert k topic payload len retain qos dup t
     in (ib_find t k = None \<and> fst r \<noteq> None, snd r))"

definition ib_drop :: "u16 \<Rightarrow> SessionInboundQoS2 \<Rightarrow> SessionInboundQoS2" where
  "ib_drop k t = (case ib_find t k of None \<Rightarrow> t | Some i \<Rightarrow> t[i := ii_zero])"

lemma ib_remove_drop:
  "ib_remove k t pool = (ib_find t k \<noteq> None, ib_drop k t,
     (case ib_get t k of None \<Rightarrow> pool | Some e \<Rightarrow> ii_release e pool))"
  by (auto simp: ib_remove_def ib_drop_def ib_get_def split: option.splits)

abbreviation ib_used :: "SessionInboundQoS2 \<Rightarrow> nat" where
  "ib_used t \<equiv> length (filter ii_in_use t)"

lemma ib_put_effect:
  assumes "ib_inv t" and "ib_put k v t = (True, t')"
  shows "ib_inv t' \<and> k \<noteq> 0 \<and> ib_get t k = None \<and> ib_get t' = (ib_get t)(k \<mapsto> ib_entry k v)
    \<and> ib_used t' = ib_used t + 1 \<and> length t' = length t"
proof -
  obtain i where i: "first_idx (\<lambda>e. \<not> ii_in_use e) t = Some i" and t': "t' = t[i := ib_entry k v]"
    and k: "k \<noteq> 0" "ib_find t k = None"
    using assms(2) by (auto simp: ib_put_def ib_insert_def ib_entry_def Let_def split: prod.splits option.splits if_splits)
  have e: "ii_in_use (ib_entry k v)" "ii_packet_id (ib_entry k v) = k"
    by (auto simp: ib_entry_def split: prod.splits)
  from i have i': "i < length t" "\<not> ii_in_use (t ! i)" by auto
  note ki = keyed_insert [of ii_in_use ii_packet_id t i "ib_entry k v", OF _ i' e(1)]
  have "ib_get t' = (ib_get t)(k \<mapsto> ib_entry k v)"
    using ki(2) assms(1) k e by (auto simp: ib_get_def t' ib_inv_def ib_find_lookup fun_eq_iff)
  with ki(1) assms(1) k e length_filter_insert [of i t ii_in_use, OF i'] show ?thesis
    by (simp add: ib_inv_def t' ib_find_lookup ib_get_def)
qed

lemma ib_drop_effect:
  assumes "ib_inv t"
  shows "ib_inv (ib_drop k t) \<and> ib_get (ib_drop k t) = (ib_get t)(k := None)
    \<and> length (ib_drop k t) = length t
    \<and> ib_used (ib_drop k t) = ib_used t - (if ib_get t k = None then 0 else 1)"
proof (cases "ib_find t k")
  case None
  with assms show ?thesis by (auto simp: ib_drop_def ib_get_def)
next
  case (Some i)
  have z: "\<not> ii_in_use ii_zero" by (simp add: ii_zero_def)
  have i: "i < length t" "ii_in_use (t ! i)"
    using Some by (auto simp: ib_find_def)
  note kr = keyed_remove [of ii_in_use ii_packet_id t k i ii_zero, OF _ _ z]
  have "ib_get (ib_drop k t) = (ib_get t)(k := None)"
    using kr(2) assms Some by (auto simp: ib_get_def ib_drop_def ib_inv_def ib_find_lookup fun_eq_iff)
  with kr(1) assms Some length_filter_remove [of i t ii_in_use, OF i z] show ?thesis
    by (simp add: ib_inv_def ib_drop_def ib_find_lookup ib_get_def)
qed

interpretation ib: id_table ib_inv ib_get length ib_used ib_entry ib_put ib_drop
proof
  fix t k v
  assume a: "ib_inv t" "k \<noteq> 0" "ib_get t k = None" "ib_used t < length t"
  then obtain i where "first_idx (\<lambda>e. \<not> ii_in_use e) t = Some i"
    using free_entry_exists [of ii_in_use t] by auto
  with a show "fst (ib_put k v t)"
    by (auto simp: ib_put_def ib_insert_def ib_get_def ib_at_capacity_def split: prod.splits)
next
  show "ib_put k v t = (False, t') \<Longrightarrow> t' = t" for k v t t'
    by (auto simp: ib_put_def ib_insert_def Let_def split: prod.splits option.splits if_splits)
qed (use ib_put_effect ib_drop_effect in auto)

section \<open>Packet identifiers\<close>

text \<open>The identifiers \<open>next_packet_id\<close> tries: it counts up from \<open>next_id\<close> and skips 0.\<close>

definition norm_id :: "u16 \<Rightarrow> u16" where
  "norm_id k = (if k = 0 then 1 else k)"

definition candidate :: "u16 \<Rightarrow> nat \<Rightarrow> u16" where
  "candidate k n = of_nat ((unat (norm_id k) - 1 + n) mod 65535 + 1)"

lemma unat_candidate: "unat (candidate k n) = (unat (norm_id k) - 1 + n) mod 65535 + 1"
proof -
  have "(unat (norm_id k) - 1 + n) mod 65535 < 65535" by simp
  then have "(unat (norm_id k) - 1 + n) mod 65535 + 1 < 65536" by linarith
  then show ?thesis
    unfolding candidate_def unat_of_nat_u16 by (rule mod_less)
qed

lemma norm_id_pos: "0 < unat (norm_id k)"
  by (auto simp: norm_id_def unat_gt_0)

lemma candidate_0: "candidate k 0 = norm_id k"
proof -
  have "unat (norm_id k) - 1 < 65535"
    using unat_u16_less [of "norm_id k"] norm_id_pos [of k] by linarith
  then show ?thesis
    using norm_id_pos [of k] by (simp add: u16_eq_iff_unat unat_candidate)
qed

lemma unat_norm_id_Suc: "unat (norm_id (norm_id k + 1)) = unat (norm_id k) mod 65535 + 1"
proof (cases "norm_id k = nil16")
  case True
  then show ?thesis by (simp add: norm_id_def)
next
  case False
  have "unat (norm_id k) < 65536" "unat (norm_id k) \<noteq> 65535"
    using False by (simp_all add: u16_nil_iff)
  then have "unat (norm_id k) < 65535" by linarith
  moreover have "norm_id k + 1 \<noteq> 0"
    using unat_inc_u16 [OF False] by (auto simp: u16_eq_iff_unat)
  ultimately show ?thesis
    using unat_inc_u16 [OF False] by (simp add: norm_id_def [of "norm_id k + 1"])
qed

lemma candidate_Suc: "candidate k (Suc n) = candidate (norm_id k + 1) n"
proof -
  have "unat (candidate k (Suc n)) = (unat (norm_id k) + n) mod 65535 + 1"
    using norm_id_pos [of k] by (simp add: unat_candidate)
  moreover have "unat (candidate (norm_id k + 1) n) = (unat (norm_id k) mod 65535 + n) mod 65535 + 1"
    by (simp add: unat_candidate unat_norm_id_Suc)
  ultimately show ?thesis by (simp add: u16_eq_iff_unat mod_add_left_eq)
qed

lemma candidate_nonzero: "candidate k n \<noteq> 0"
  using unat_candidate [of k n] by (auto simp: u16_eq_iff_unat)

lemma candidate_cong: "ob_entries t = ob_entries t' \<Longrightarrow> ob_find t k = ob_find t' k"
  by (simp add: ob_find_def)

lemma next_packet_id_loop_spec:
  assumes "next_packet_id_loop n t = (k, t')"
  shows "ob_entries t' = ob_entries t
    \<and> (k = 0 \<and> (\<forall>i < n. ob_find t (candidate (ob_next_id t) i) \<noteq> None)
       \<or> k \<noteq> 0 \<and> ob_find t k = None \<and> (\<exists>i < n. k = candidate (ob_next_id t) i
            \<and> (\<forall>j < i. ob_find t (candidate (ob_next_id t) j) \<noteq> None)))"
  using assms
proof (induction n arbitrary: t)
  case 0
  then show ?case by simp
next
  case (Suc n)
  let ?id = "norm_id (ob_next_id t)" and ?t = "t\<lparr>ob_next_id := norm_id (ob_next_id t) + 1\<rparr>"
  have f: "ob_find ?t j = ob_find t j" for j by (simp add: ob_find_def)
  show ?case
  proof (cases "ob_find t ?id = None")
    case True
    with Suc.prems f have "k = ?id" "t' = ?t"
      by (auto simp: norm_id_def Let_def)
    with True show ?thesis
      using candidate_0 [of "ob_next_id t"] candidate_nonzero [of "ob_next_id t" 0] by force
  next
    case False
    with Suc.prems f have "next_packet_id_loop n ?t = (k, t')"
      by (auto simp: norm_id_def Let_def)
    from Suc.IH [OF this] have ih: "ob_entries t' = ob_entries t
      \<and> (k = 0 \<and> (\<forall>i < n. ob_find t (candidate (ob_next_id t) (Suc i)) \<noteq> None)
         \<or> k \<noteq> 0 \<and> ob_find t k = None \<and> (\<exists>i < n. k = candidate (ob_next_id t) (Suc i)
              \<and> (\<forall>j < i. ob_find t (candidate (ob_next_id t) (Suc j)) \<noteq> None)))"
      by (simp add: f candidate_Suc)
    have all: "(\<forall>i < Suc m. ob_find t (candidate (ob_next_id t) i) \<noteq> None)
        \<longleftrightarrow> (\<forall>i < m. ob_find t (candidate (ob_next_id t) (Suc i)) \<noteq> None)" for m
      using False candidate_0 [of "ob_next_id t"] by (auto simp: less_Suc_eq_0_disj)
    from ih show ?thesis
      using all by (metis Suc_less_eq)
  qed
qed

text \<open>Every nonzero identifier is among the 65535 candidates.\<close>

lemma candidates_cover: "k \<noteq> 0 \<Longrightarrow> \<exists>i < 65535. candidate s i = k"
proof -
  assume "k \<noteq> 0"
  define a b where "a = unat (norm_id s) - 1" and "b = unat k - 1"
  have b: "b < 65535" "unat k = b + 1"
    using \<open>k \<noteq> 0\<close> unat_u16_less [of k] unat_gt_0 [of k] unfolding b_def by linarith+
  define i where "i = (b + 65535 - a mod 65535) mod 65535"
  have "a mod 65535 < 65535" by simp
  then have "(a + i) mod 65535 = (a mod 65535 + (b + 65535 - a mod 65535)) mod 65535"
    unfolding i_def by (simp only: mod_add_right_eq mod_add_left_eq)
  also have "\<dots> = b"
    using b \<open>a mod 65535 < 65535\<close> by simp
  finally have "unat (candidate s i) = unat k"
    using b by (simp add: unat_candidate a_def)
  moreover have "i < 65535" by (simp add: i_def)
  ultimately show ?thesis by (auto simp: u16_eq_iff_unat)
qed

lemma used_ids_card:
  "card {k. ob_find t k \<noteq> None} \<le> ob_count t"
proof -
  let ?live = "filter oi_in_use (ob_entries t)"
  have "{k. ob_find t k \<noteq> None} \<subseteq> oi_packet_id ` set ?live"
    by (auto simp: ob_find_def first_idx_None_iff)
  then have "card {k. ob_find t k \<noteq> None} \<le> card (oi_packet_id ` set ?live)"
    by (intro card_mono) auto
  also have "\<dots> \<le> length ?live"
    using card_image_le [of "set ?live" oi_packet_id] card_length [of ?live] by simp
  finally show ?thesis by (simp add: ob_count_def)
qed

lemma card_nonzero_u16: "card {k :: u16. k \<noteq> 0} = 65535"
proof -
  have "{k :: u16. k \<noteq> 0} = UNIV - {0}" by auto
  then show ?thesis by (simp add: card_Diff_singleton card_word)
qed

section \<open>Properties\<close>


definition sample_table :: SessionOutboundInflight where
  "sample_table = snd (ob_insert 0xFFFF \<lparr>slot = 1, generation = 1\<rparr> \<lparr>slot = 2, generation = 1\<rparr> 1 False
     AwaitingPubrec ((SessionOutboundInflight_new 2)\<lparr>ob_next_id := 0xFFFF\<rparr>))"

lemma sample_next_id: "next_packet_id_loop (Suc (Suc n)) sample_table = (1, sample_table\<lparr>ob_next_id := 2\<rparr>)"
proof -
  have "ob_next_id sample_table = 0xFFFF" "ob_find sample_table 0xFFFF = Some 0"
    "ob_find sample_table 1 = None"
    by code_simp+
  then show ?thesis
    by (simp add: Let_def ob_find_def)
qed




text \<open>Claim C30. The inbound QoS 2 table keeps a message exactly once: a packet identifier that is not
  in the table is stored (when there is room); a repeated PUBLISH with that identifier finds the
  stored entry and changes nothing; and after \<open>remove\<close> the table is what it was and the payload
  reference is given back.\<close>

theorem inbound_table:
  assumes "ib_inv t" and "k \<noteq> 0" and "ib_find t k = None" and "\<not> ib_at_capacity t"
    and "ib_insert k topic payload len retain qos dup t = (r, t')"
  shows "(\<exists>i. r = Some i \<and> t' ! i = ib_entry k (topic, payload, len, retain, qos, dup)
       \<and> ib_insert k topic2 payload2 len2 retain2 qos2 dup2 t' = (Some i, t'))
    \<and> ib_inv t' \<and> ib_get t' = (ib_get t)(k \<mapsto> ib_entry k (topic, payload, len, retain, qos, dup))
    \<and> (\<exists>t''. ib_remove k t' pool
           = (True, t'', ii_release (ib_entry k (topic, payload, len, retain, qos, dup)) pool)
         \<and> ib_inv t'' \<and> ib_get t'' = ib_get t)"
proof -
  let ?v = "(topic, payload, len, retain, qos, dup)"
  have p: "ib_put k ?v t = (r \<noteq> None, t')" using assms(3,5) by (simp add: ib_put_def)
  have "r \<noteq> None"
    using ib.ins_ok [of t k ?v] assms p by (simp add: ib_get_def ib_at_capacity_def)
  with p have e: "ib_put k ?v t = (True, t')" by simp
  note eff = ib.ins_effect [OF assms(1) e]
  then have get: "ib_get t' k = Some (ib_entry k ?v)" by simp
  then obtain i where i: "ib_find t' k = Some i" "t' ! i = ib_entry k ?v"
    by (auto simp: ib_get_def)
  obtain j where j: "r = Some j" "j < length t" "t' = t[j := ib_entry k ?v]"
    using assms(2,3,5) \<open>r \<noteq> None\<close>
    by (auto simp: ib_insert_def ib_entry_def split: option.splits if_splits)
  then have "ib_find t' k = Some j"
    using eff by (subst ib_find_lookup, subst lookup_Some_iff) (auto simp: ib_inv_def ib_entry_def)
  with i have "j = i" by simp
  moreover have "ib_insert k topic2 payload2 len2 retain2 qos2 dup2 t' = (Some i, t')"
    using assms(2) i by (simp add: ib_insert_def)
  ultimately show ?thesis
    using eff i j get ib.rem_after_ins [OF assms(1) e] ib.rem_effect [of t' k]
    by (auto simp: ib_remove_drop)
qed

theorem inbound_table_witness:
  "\<exists>i t'. ib_insert 9 [97] NULL_MESSAGE 0 False 2 False (SessionInboundQoS2_new 2) = (Some i, t')
     \<and> ib_insert 9 [98] NULL_MESSAGE 1 True 2 True t' = (Some i, t') \<and> ib_get t' 9 \<noteq> None"
proof -
  let ?t = "SessionInboundQoS2_new 2"
  obtain r t' where i: "ib_insert 9 [97] NULL_MESSAGE 0 False 2 False ?t = (r, t')"
    by (cases "ib_insert 9 [97] NULL_MESSAGE 0 False 2 False ?t")
  have "ib_find ?t 9 = None" "\<not> ib_at_capacity ?t" by code_simp+
  with inbound_table [OF ib_inv_new _ _ _ i, of "[98]" NULL_MESSAGE 1 True 2 True] i
  show ?thesis by auto
qed

end
