(* ===== verification/Wire.thy ===== *)
theory Wire
  imports Broker_Prelude
begin

text \<open>
  Wire primitives (\<open>wire.cpp\<close>): big-endian 16- and 32-bit integers and length-prefixed UTF-8
  strings. A function that fills an output buffer returns the bytes it writes from the start of
  that buffer; the result 0 of the C++ functions (overflow, truncation) is \<open>None\<close>.
  The theorems: reading back what was written, for every value; the length prefix cannot wrap;
  a decoded string is exactly the encoded one when the caller's buffer holds it, and otherwise
  the truncated prefix, while the number of wire bytes consumed stays the same.
\<close>

section \<open>Definitions\<close>

definition read_u16_be :: "byte list \<Rightarrow> u16" where
  "read_u16_be p = push_bit 8 (ucast (p ! 0)) OR ucast (p ! 1)"

definition read_u32_be :: "byte list \<Rightarrow> u32" where
  "read_u32_be p =
     push_bit 24 (ucast (p ! 0)) OR push_bit 16 (ucast (p ! 1))
       OR push_bit 8 (ucast (p ! 2)) OR ucast (p ! 3)"

definition write_u16_be :: "u16 \<Rightarrow> byte list" where
  "write_u16_be v = [ucast (drop_bit 8 v AND 0xFF), ucast (v AND 0xFF)]"

definition write_u32_be :: "u32 \<Rightarrow> byte list" where
  "write_u32_be v =
     [ucast (drop_bit 24 v AND 0xFF), ucast (drop_bit 16 v AND 0xFF),
      ucast (drop_bit 8 v AND 0xFF), ucast (v AND 0xFF)]"

text \<open>\<open>str\<close> is the argument up to its NUL, so \<open>strlen (str)\<close> is its length.\<close>

definition encode_utf8_string :: "byte list \<Rightarrow> nat \<Rightarrow> byte list option" where
  "encode_utf8_string str out_cap =
     (if out_cap < 2 then None
      else if length str > 0xFFFF \<or> out_cap < 2 + length str then None
      else Some (write_u16_be (of_nat (length str)) @ str))"

text \<open>The pair is the number of wire bytes consumed and the bytes put before the NUL in \<open>out\<close>.\<close>

definition decode_utf8_string :: "byte list \<Rightarrow> nat \<Rightarrow> (nat \<times> byte list) option" where
  "decode_utf8_string inp out_cap =
     (if length inp < 2 \<or> out_cap = 0 then None
      else let slen = unat (read_u16_be inp)
        in if slen + 2 > length inp then None
           else let copy = (if slen \<ge> out_cap then out_cap - 1 else slen)
             in Some (2 + slen, take copy (drop 2 inp)))"

section \<open>Round trips\<close>

lemma length_write_u16_be [simp]: "length (write_u16_be v) = 2"
  by (simp add: write_u16_be_def)

lemma length_write_u32_be [simp]: "length (write_u32_be v) = 4"
  by (simp add: write_u32_be_def)

lemma and_FF: "(x :: 'a::len word) AND 0xFF = take_bit 8 x"
  by (simp add: take_bit_eq_mask mask_numeral)

lemma read_u16_be_append [simp]: "read_u16_be (write_u16_be v @ rest) = v"
proof (rule bit_word_eqI)
  fix n :: nat
  assume "n < LENGTH(16)"
  then show "bit (read_u16_be (write_u16_be v @ rest)) n = bit v n"
    by (cases "n < 8")
      (auto simp: read_u16_be_def write_u16_be_def and_FF bit_simps)
qed

lemma read_u32_be_append [simp]: "read_u32_be (write_u32_be v @ rest) = v"
proof (rule bit_word_eqI)
  fix n :: nat
  assume "n < LENGTH(32)"
  then consider "n < 8" | "8 \<le> n" "n < 16" | "16 \<le> n" "n < 24" | "24 \<le> n" "n < 32"
    by force
  then show "bit (read_u32_be (write_u32_be v @ rest)) n = bit v n"
    by cases
      (auto simp: read_u32_be_def write_u32_be_def and_FF bit_simps less_diff_conv2)
qed

lemma read_u16_be_of_write [simp]: "read_u16_be (write_u16_be v) = v"
  using read_u16_be_append [of v "[]"] by simp

lemma read_u32_be_of_write [simp]: "read_u32_be (write_u32_be v) = v"
  using read_u32_be_append [of v "[]"] by simp

lemma drop_write_u16_be [simp]: "drop 2 (write_u16_be v @ rest) = rest"
  by (simp add: write_u16_be_def)

lemma read_u16_be_cong:
  "p ! 0 = q ! 0 \<Longrightarrow> p ! 1 = q ! 1 \<Longrightarrow> read_u16_be p = read_u16_be q"
  by (simp add: read_u16_be_def)

lemma read_u16_be_take [simp]: "2 \<le> n \<Longrightarrow> read_u16_be (take n p) = read_u16_be p"
  by (simp add: read_u16_be_def)

lemma encode_utf8_string_Some:
  "encode_utf8_string str cap = Some w \<longleftrightarrow>
     length str \<le> 0xFFFF \<and> 2 + length str \<le> cap
       \<and> w = write_u16_be (of_nat (length str)) @ str"
  by (auto simp: encode_utf8_string_def)

lemma decode_of_encoded:
  assumes "length str \<le> 0xFFFF" and "0 < cap"
  shows "decode_utf8_string (write_u16_be (of_nat (length str)) @ str @ rest) cap =
    Some (2 + length str, take (cap - 1) str)"
  using assms
  by (auto simp: decode_utf8_string_def Let_def width_simps take_Suc)

text \<open>Big-endian integers round trip: what \<open>read_u16_be\<close>/\<open>read_u32_be\<close> return on the bytes
  \<open>write_u16_be\<close>/\<open>write_u32_be\<close> stored is the stored value, for every value and whatever bytes
  follow in the buffer.\<close>

theorem wire_scalar_roundtrip:
  "read_u16_be (write_u16_be v @ rest) = v \<and> read_u32_be (write_u32_be w @ rest) = w"
  by simp

text \<open>A string that \<open>encode_utf8_string\<close> accepted decodes, from any longer buffer, with
  exactly the encoded number of wire bytes consumed; the copied text is the string cut at the
  caller's capacity minus the NUL, so it is the string itself whenever it fits.\<close>

theorem wire_string_roundtrip:
  assumes "encode_utf8_string str cap = Some w" and "0 < out_cap"
  shows "decode_utf8_string (w @ rest) out_cap = Some (length w, take (out_cap - 1) str)
    \<and> (length str < out_cap \<longrightarrow> take (out_cap - 1) str = str)"
proof -
  from assms(1) have len: "length str \<le> 0xFFFF"
    and w: "w = write_u16_be (of_nat (length str)) @ str"
    by (simp_all add: encode_utf8_string_Some)
  have "decode_utf8_string (w @ rest) out_cap = Some (length w, take (out_cap - 1) str)"
    using decode_of_encoded [OF len assms(2), of rest] by (simp add: w)
  moreover have "length str < out_cap \<longrightarrow> take (out_cap - 1) str = str"
    by auto
  ultimately show ?thesis by blast
qed

theorem wire_string_roundtrip_witness:
  "encode_utf8_string (ascii ''MQTT'') 16 = Some [0, 4, 0x4D, 0x51, 0x54, 0x54]
    \<and> decode_utf8_string ([0, 4, 0x4D, 0x51, 0x54, 0x54] @ [7]) 4 = Some (6, [0x4D, 0x51, 0x54])
    \<and> decode_utf8_string ([0, 4, 0x4D, 0x51, 0x54, 0x54] @ [7]) 16
        = Some (6, [0x4D, 0x51, 0x54, 0x54])"
proof -
  have enc: "encode_utf8_string (ascii ''MQTT'') 16 = Some [0, 4, 0x4D, 0x51, 0x54, 0x54]"
    by (simp add: encode_utf8_string_def ascii_def write_u16_be_def)
  have str: "ascii ''MQTT'' = [0x4D, 0x51, 0x54, 0x54]"
    by (simp add: ascii_def)
  from wire_string_roundtrip [OF enc, of 4 "[7]"] wire_string_roundtrip [OF enc, of 16 "[7]"]
  show ?thesis using enc by (simp add: str)
qed

end
