(* ===== verification/Property_Pool.thy ===== *)
theory Property_Pool
  imports Wire Mqtt_Types
begin

text \<open>
  The pool of parsed property sets (\<open>property_pool.cpp\<close>): slots with a fixed partition of records
  and a shared, append-only blob of value bytes. \<open>prop_values\<close> reads the values of a set back from
  the blob; the properties state what a set holds after it is built and that the blob is never
  reclaimed.
\<close>

definition kPropsPerSlot :: nat where
  "kPropsPerSlot = 16"

datatype PropertyValueKind = KByte | KU16 | KU32 | KUtf8String | KBinary | KVarint | KUserProperty

record PropertyRecord =
  pr_id :: PropertyId
  pr_kind :: PropertyValueKind
  pr_offset :: u16
  pr_length :: u16
  pr_key_offset :: u16
  pr_key_length :: u16

record PropertySlot =
  ps_generation :: u16
  ps_property_count :: u16
  ps_first_record :: u16
  ps_in_use :: bool

record PropertyPool =
  pp_slots :: "PropertySlot list"
  pp_records :: "PropertyRecord list"
  pp_blob :: "byte list"
  pp_bytes_used :: nat

definition record_zero :: PropertyRecord where
  "record_zero = \<lparr>pr_id = 0, pr_kind = KByte, pr_offset = 0, pr_length = 0, pr_key_offset = 0,
     pr_key_length = 0\<rparr>"

text \<open>The allocations are assumed to succeed; uninitialised memory is shown as zero.\<close>

definition PropertyPool_new :: "nat \<Rightarrow> nat \<Rightarrow> PropertyPool" where
  "PropertyPool_new max_slots max_blob_bytes =
     \<lparr>pp_slots = map (\<lambda>i. \<lparr>ps_generation = 1, ps_property_count = 0,
        ps_first_record = of_nat (i * kPropsPerSlot), ps_in_use = False\<rparr>) [0..<max_slots],
      pp_records = replicate (max_slots * kPropsPerSlot) record_zero,
      pp_blob = replicate max_blob_bytes 0, pp_bytes_used = 0\<rparr>"

abbreviation pp_slot :: "PropertyPool \<Rightarrow> PropertyHandle \<Rightarrow> PropertySlot" where
  "pp_slot p h \<equiv> pp_slots p ! unat (slot h)"

definition props_valid :: "PropertyPool \<Rightarrow> PropertyHandle \<Rightarrow> bool" where
  "props_valid p h \<longleftrightarrow>
     slot h \<noteq> 0xFFFF \<and> unat (slot h) < length (pp_slots p)
     \<and> ps_in_use (pp_slot p h) \<and> ps_generation (pp_slot p h) = generation h"

definition props_acquire :: "PropertyPool \<Rightarrow> PropertyHandle \<times> PropertyPool" where
  "props_acquire p =
     (case first_idx (\<lambda>s. \<not> ps_in_use s) (pp_slots p) of
        None \<Rightarrow> (NULL_PROPERTY, p)
      | Some i \<Rightarrow>
          (\<lparr>slot = of_nat i, generation = ps_generation (pp_slots p ! i)\<rparr>,
           p\<lparr>pp_slots := (pp_slots p)[i := (pp_slots p ! i)\<lparr>ps_in_use := True,
               ps_property_count := 0\<rparr>]\<rparr>))"

definition props_release :: "PropertyHandle \<Rightarrow> PropertyPool \<Rightarrow> PropertyPool" where
  "props_release h p =
     (if \<not> props_valid p h then p
      else p\<lparr>pp_slots := (pp_slots p)[unat (slot h) := (pp_slot p h)\<lparr>ps_in_use := False,
               ps_property_count := 0,
               ps_generation := bump_generation (ps_generation (pp_slot p h))\<rparr>]\<rparr>)"

text \<open>\<open>None\<close>: \<open>append_blob\<close> returned false.\<close>

definition append_blob :: "byte list \<Rightarrow> PropertyPool \<Rightarrow> (u16 \<times> PropertyPool) option" where
  "append_blob data p =
     (if pp_bytes_used p + length data > length (pp_blob p) \<or> length data > 0xFFFF then None
      else Some (of_nat (pp_bytes_used p),
                 p\<lparr>pp_blob := write_at (pp_bytes_used p) data (pp_blob p),
                   pp_bytes_used := pp_bytes_used p + length data\<rparr>))"

definition add_record :: "PropertyHandle \<Rightarrow> PropertyRecord \<Rightarrow> PropertyPool \<Rightarrow> bool \<times> PropertyPool" where
  "add_record h r p =
     (if \<not> props_valid p h then (False, p)
      else
        let s = pp_slot p h
        in if unat (ps_property_count s) \<ge> kPropsPerSlot then (False, p)
           else
             let rec_index = unat (slot h) * kPropsPerSlot + unat (ps_property_count s)
             in if rec_index \<ge> length (pp_records p) then (False, p)
                else (True, p\<lparr>pp_records := (pp_records p)[rec_index := r],
                              pp_slots := (pp_slots p)[unat (slot h) :=
                                s\<lparr>ps_property_count := ps_property_count s + 1\<rparr>]\<rparr>))"

definition add_value ::
  "PropertyHandle \<Rightarrow> PropertyId \<Rightarrow> PropertyValueKind \<Rightarrow> byte list \<Rightarrow> PropertyPool \<Rightarrow> bool \<times> PropertyPool"
where
  "add_value h pid kind data p =
     (case append_blob data p of
        None \<Rightarrow> (False, p)
      | Some (off, p') \<Rightarrow>
          add_record h \<lparr>pr_id = pid, pr_kind = kind, pr_offset = off,
            pr_length = of_nat (length data), pr_key_offset = 0, pr_key_length = 0\<rparr> p')"

definition add_byte :: "PropertyHandle \<Rightarrow> PropertyId \<Rightarrow> u8 \<Rightarrow> PropertyPool \<Rightarrow> bool \<times> PropertyPool" where
  "add_byte h pid val p = add_value h pid KByte [val] p"

definition add_u16 :: "PropertyHandle \<Rightarrow> PropertyId \<Rightarrow> u16 \<Rightarrow> PropertyPool \<Rightarrow> bool \<times> PropertyPool" where
  "add_u16 h pid val p =
     add_value h pid KU16 [ucast (drop_bit 8 val AND 0xFF), ucast (val AND 0xFF)] p"

definition add_u32 :: "PropertyHandle \<Rightarrow> PropertyId \<Rightarrow> u32 \<Rightarrow> PropertyPool \<Rightarrow> bool \<times> PropertyPool" where
  "add_u32 h pid val p =
     add_value h pid KU32 [ucast (drop_bit 24 val AND 0xFF), ucast (drop_bit 16 val AND 0xFF),
       ucast (drop_bit 8 val AND 0xFF), ucast (val AND 0xFF)] p"

text \<open>The \<open>do ... while\<close> loop of \<open>add_varint\<close>, which stops after four bytes.\<close>

primrec varint_bytes :: "nat \<Rightarrow> u32 \<Rightarrow> byte list" where
  "varint_bytes 0 v = []"
| "varint_bytes (Suc n) v =
     (let b = ucast (v mod 128) :: u8; v' = v div 128
      in (if v' > 0 then b OR 0x80 else b) # (if v' > 0 then varint_bytes n v' else []))"

definition add_varint :: "PropertyHandle \<Rightarrow> PropertyId \<Rightarrow> u32 \<Rightarrow> PropertyPool \<Rightarrow> bool \<times> PropertyPool" where
  "add_varint h pid val p = add_value h pid KVarint (varint_bytes 4 val) p"

definition add_utf8 :: "PropertyHandle \<Rightarrow> PropertyId \<Rightarrow> byte list \<Rightarrow> PropertyPool \<Rightarrow> bool \<times> PropertyPool" where
  "add_utf8 h pid str p = add_value h pid KUtf8String str p"

definition add_binary :: "PropertyHandle \<Rightarrow> PropertyId \<Rightarrow> byte list \<Rightarrow> PropertyPool \<Rightarrow> bool \<times> PropertyPool" where
  "add_binary h pid data p = add_value h pid KBinary data p"

definition add_user_property ::
  "PropertyHandle \<Rightarrow> byte list \<Rightarrow> byte list \<Rightarrow> PropertyPool \<Rightarrow> bool \<times> PropertyPool"
where
  "add_user_property h key val p =
     (case append_blob key p of
        None \<Rightarrow> (False, p)
      | Some (key_off, p1) \<Rightarrow>
          (case append_blob val p1 of
             None \<Rightarrow> (False, p1)
           | Some (val_off, p2) \<Rightarrow>
               add_record h \<lparr>pr_id = UserProperty, pr_kind = KUserProperty, pr_offset = val_off,
                 pr_length = of_nat (length val), pr_key_offset = key_off,
                 pr_key_length = of_nat (length key)\<rparr> p2))"

definition props_count :: "PropertyPool \<Rightarrow> PropertyHandle \<Rightarrow> nat" where
  "props_count p h = (if props_valid p h then unat (ps_property_count (pp_slot p h)) else 0)"

text \<open>The records a client reads: \<open>out_count\<close> of them from the returned pointer.\<close>

definition props_records :: "PropertyPool \<Rightarrow> PropertyHandle \<Rightarrow> PropertyRecord list" where
  "props_records p h =
     (if \<not> props_valid p h then []
      else take (unat (ps_property_count (pp_slot p h)))
             (drop (unat (slot h) * kPropsPerSlot) (pp_records p)))"

text \<open>The value bytes of a record, and the key bytes of a user property.\<close>

definition record_value :: "PropertyPool \<Rightarrow> PropertyRecord \<Rightarrow> byte list" where
  "record_value p r = slice (unat (pr_offset r)) (unat (pr_length r)) (pp_blob p)"

definition record_key :: "PropertyPool \<Rightarrow> PropertyRecord \<Rightarrow> byte list" where
  "record_key p r = slice (unat (pr_key_offset r)) (unat (pr_key_length r)) (pp_blob p)"


section \<open>The pool invariant\<close>

text \<open>Record \<open>r\<close> points into the used part of the blob.\<close>

definition in_blob :: "PropertyPool \<Rightarrow> PropertyRecord \<Rightarrow> bool" where
  "in_blob p r \<longleftrightarrow> unat (pr_offset r) + unat (pr_length r) \<le> pp_bytes_used p
     \<and> unat (pr_key_offset r) + unat (pr_key_length r) \<le> pp_bytes_used p"

definition pp_inv :: "PropertyPool \<Rightarrow> bool" where
  "pp_inv p \<longleftrightarrow>
     length (pp_records p) = length (pp_slots p) * kPropsPerSlot \<and> length (pp_slots p) \<le> 65535
     \<and> length (pp_blob p) \<le> 65535 \<and> pp_bytes_used p \<le> length (pp_blob p)
     \<and> (\<forall>s \<in> set (pp_slots p). unat (ps_property_count s) \<le> kPropsPerSlot \<and> ps_generation s \<noteq> 0)
     \<and> (\<forall>h. \<forall>r \<in> set (props_records p h). in_blob p r)"

lemma pp_inv_new:
  "n \<le> 65535 \<Longrightarrow> m \<le> 65535 \<Longrightarrow> pp_inv (PropertyPool_new n m)"
  by (auto simp: pp_inv_def PropertyPool_new_def props_records_def props_valid_def)

lemma rec_index_bound:
  assumes "pp_inv p" and "props_valid p h"
  shows "unat (slot h) * kPropsPerSlot + kPropsPerSlot \<le> length (pp_records p)"
proof -
  have "Suc (unat (slot h)) * kPropsPerSlot \<le> length (pp_slots p) * kPropsPerSlot"
    using assms(2) by (intro mult_le_mono1) (simp add: props_valid_def Suc_le_eq)
  with assms(1) show ?thesis by (simp add: pp_inv_def add.commute)
qed

lemma props_count_bound:
  "pp_inv p \<Longrightarrow> props_valid p h \<Longrightarrow> unat (ps_property_count (pp_slot p h)) \<le> kPropsPerSlot"
  by (auto simp: pp_inv_def props_valid_def)

lemma length_props_records:
  "pp_inv p \<Longrightarrow> props_valid p h \<Longrightarrow> length (props_records p h) = unat (ps_property_count (pp_slot p h))"
  using rec_index_bound [of p h] props_count_bound [of p h]
  by (simp add: props_records_def min_def) linarith

lemma props_records_slice:
  "props_valid p h \<Longrightarrow> props_records p h
     = slice (unat (slot h) * kPropsPerSlot) (unat (ps_property_count (pp_slot p h))) (pp_records p)"
  by (simp add: props_records_def slice_def)

text \<open>The blob only grows: what was stored is still there.\<close>

lemma append_blob_effect:
  assumes "pp_inv p" and "append_blob data p = Some (off, p')"
  shows "pp_inv p'" and "pp_bytes_used p' = pp_bytes_used p + length data"
    and "unat off = pp_bytes_used p" and "slice (unat off) (length data) (pp_blob p') = data"
    and "in_blob p r \<Longrightarrow> in_blob p' r \<and> record_value p' r = record_value p r \<and> record_key p' r = record_key p r"
    and "props_valid p' k = props_valid p k" and "props_records p' k = props_records p k"
    and "pp_slots p' = pp_slots p" and "pp_records p' = pp_records p"
    and "length (pp_blob p') = length (pp_blob p)"
proof -
  have fits: "pp_bytes_used p + length data \<le> length (pp_blob p)"
    and off: "off = of_nat (pp_bytes_used p)"
    and p': "p' = p\<lparr>pp_blob := write_at (pp_bytes_used p) data (pp_blob p),
      pp_bytes_used := pp_bytes_used p + length data\<rparr>"
    using assms(2) by (auto simp: append_blob_def split: if_splits)
  have cap: "length (pp_blob p) \<le> 65535" using assms(1) by (simp add: pp_inv_def)
  show o: "unat off = pp_bytes_used p"
    using fits cap by (simp add: off unat_of_nat_u16)
  show "pp_bytes_used p' = pp_bytes_used p + length data" "pp_slots p' = pp_slots p"
    "pp_records p' = pp_records p" "length (pp_blob p') = length (pp_blob p)"
    using fits by (simp_all add: p')
  show "slice (unat off) (length data) (pp_blob p') = data"
    using slice_write_at_same [OF fits] by (simp add: o p')
  have old: "slice a n (write_at (pp_bytes_used p) data (pp_blob p)) = slice a n (pp_blob p)"
    if "a + n \<le> pp_bytes_used p" for a n
    using that fits by (intro slice_write_at_disjoint) auto
  show keep: "in_blob p r \<Longrightarrow> in_blob p' r \<and> record_value p' r = record_value p r \<and> record_key p' r = record_key p r"
    for r using old by (auto simp: in_blob_def p' record_value_def record_key_def)
  show "props_valid p' k = props_valid p k" "props_records p' k = props_records p k" for k
    by (simp_all add: p' props_valid_def props_records_def)
  then show "pp_inv p'"
    using assms(1) fits keep by (auto simp: pp_inv_def p')
qed

lemma props_valid_same_slot:
  "props_valid p h \<Longrightarrow> props_valid p k \<Longrightarrow> unat (slot k) = unat (slot h) \<Longrightarrow> k = h"
  by (simp add: props_valid_def word_unat_eq_iff [symmetric])

lemma add_record_effect:
  assumes inv: "pp_inv p" and v: "props_valid p h" and "in_blob p r"
    and a: "add_record h r p = (True, p')"
  shows "pp_inv p'" and "props_records p' h = props_records p h @ [r]"
    and "k \<noteq> h \<Longrightarrow> props_records p' k = props_records p k" and "props_valid p' k = props_valid p k"
    and "pp_blob p' = pp_blob p" and "pp_bytes_used p' = pp_bytes_used p"
proof -
  let ?i = "unat (slot h)" and ?s = "pp_slot p h"
  let ?c = "unat (ps_property_count ?s)"
  let ?ri = "?i * kPropsPerSlot + ?c"
  have c: "?c < kPropsPerSlot" and ri: "?ri < length (pp_records p)"
    and p': "p' = p\<lparr>pp_records := (pp_records p)[?ri := r],
      pp_slots := (pp_slots p)[?i := ?s\<lparr>ps_property_count := ps_property_count ?s + 1\<rparr>]\<rparr>"
    using a v by (auto simp: add_record_def Let_def not_le split: if_splits)
  have i: "?i < length (pp_slots p)" using v by (simp add: props_valid_def)
  have inc: "unat (ps_property_count ?s + 1) = ?c + 1"
    using c by (intro unat_inc_u16) (auto simp: kPropsPerSlot_def)
  show valid: "props_valid p' k = props_valid p k" for k
    using i by (auto simp: props_valid_def p' nth_upd)
  show blob: "pp_blob p' = pp_blob p" "pp_bytes_used p' = pp_bytes_used p" by (simp_all add: p')
  have "take (?c + 1) (drop (?i * kPropsPerSlot) ((pp_records p)[?ri := r]))
      = take ?c (drop (?i * kPropsPerSlot) (pp_records p)) @ [r]"
    using ri by (simp add: drop_update_swap take_update_swap take_Suc_conv_app_nth list_update_append)
  then show mine: "props_records p' h = props_records p h @ [r]"
    using v valid [of h] i by (simp add: props_records_def inc p')
  have block: "slice (j * kPropsPerSlot) n ((pp_records p)[?ri := r]) = slice (j * kPropsPerSlot) n (pp_records p)"
    if "j \<noteq> ?i" "n \<le> kPropsPerSlot" for j n
  proof -
    have "?ri < j * kPropsPerSlot \<or> (j + 1) * kPropsPerSlot \<le> ?ri"
      using that(1) c mult_le_mono1 [of "Suc ?i" j kPropsPerSlot] mult_le_mono1 [of "Suc j" ?i kPropsPerSlot]
      by (cases "j < ?i") auto
    then show ?thesis
      using that(2) by (auto simp: slice_def drop_update_swap take_update_swap not_less list_update_beyond)
  qed
  show other: "props_records p' k = props_records p k" if "k \<noteq> h" for k
  proof (cases "props_valid p k")
    case True
    then have "unat (slot k) \<noteq> ?i" using that props_valid_same_slot [OF v] by blast
    moreover from this have "pp_slot p' k = pp_slot p k" by (simp add: p' nth_upd)
    ultimately show ?thesis
      using True valid [of k] block props_count_bound [OF inv True]
      by (simp add: props_records_slice) (simp add: p')
  qed (simp add: props_records_def valid)
  have "in_blob p' x = in_blob p x" for x by (simp add: in_blob_def p')
  moreover have "\<forall>x \<in> set (props_records p' k). in_blob p x" for k
    using mine other [of k] inv \<open>in_blob p r\<close> by (cases "k = h") (auto simp: pp_inv_def)
  ultimately show "pp_inv p'"
    using inv c inc i by (auto simp: pp_inv_def p' dest!: in_set_upd)
qed

lemma in_blob_keep: "pp_inv p \<Longrightarrow> r \<in> set (props_records p k) \<Longrightarrow> in_blob p r"
  by (auto simp: pp_inv_def)

lemma add_record_refused: "add_record h r p = (False, p') \<Longrightarrow> p' = p"
  by (auto simp: add_record_def Let_def split: if_splits)

lemma unat_of_nat_length: "append_blob data p = Some (off, p') \<Longrightarrow> unat (of_nat (length data) :: u16) = length data"
  by (auto simp: append_blob_def unat_of_nat_u16 split: if_splits)

text \<open>A property with one value: the record is added at the end of the set and reads back.\<close>

lemma add_value_effect:
  assumes inv: "pp_inv p" and v: "props_valid p h" and a: "add_value h pid kind data p = (True, p')"
  shows "pp_inv p'"
    and "\<exists>r. props_records p' h = props_records p h @ [r] \<and> pr_id r = pid \<and> pr_kind r = kind
       \<and> record_value p' r = data"
    and "k \<noteq> h \<Longrightarrow> props_records p' k = props_records p k" and "props_valid p' k = props_valid p k"
    and "r \<in> set (props_records p k) \<Longrightarrow> record_value p' r = record_value p r \<and> record_key p' r = record_key p r"
    and "pp_bytes_used p' = pp_bytes_used p + length data"
proof -
  obtain off p1 where b: "append_blob data p = Some (off, p1)"
    and r: "add_record h \<lparr>pr_id = pid, pr_kind = kind, pr_offset = off,
        pr_length = of_nat (length data), pr_key_offset = 0, pr_key_length = 0\<rparr> p1 = (True, p')"
      (is "add_record h ?r p1 = _")
    using a by (auto simp: add_value_def split: option.splits prod.splits)
  note be = append_blob_effect [OF inv b]
  have len: "unat (pr_length ?r) = length data" using unat_of_nat_length [OF b] by simp
  have in1: "in_blob p1 ?r" using be(2,3) len by (simp add: in_blob_def)
  note re = add_record_effect [OF be(1) _ in1 r]
  have v1: "props_valid p1 h" using v be(6) by simp
  have val: "record_value p' x = record_value p1 x" "record_key p' x = record_key p1 x" for x
    using re(5) [OF v1] by (simp_all add: record_value_def record_key_def)
  have "record_value p' ?r = data"
    using be(4) len by (simp only: val) (simp add: record_value_def)
  then show "\<exists>r. props_records p' h = props_records p h @ [r] \<and> pr_id r = pid \<and> pr_kind r = kind
      \<and> record_value p' r = data"
    using re(2) [OF v1] be(7) by force
  show "r \<in> set (props_records p k) \<Longrightarrow> record_value p' r = record_value p r \<and> record_key p' r = record_key p r"
    using be(5) in_blob_keep [OF inv] by (simp add: val)
  show "pp_inv p'" "k \<noteq> h \<Longrightarrow> props_records p' k = props_records p k" "props_valid p' k = props_valid p k"
    "pp_bytes_used p' = pp_bytes_used p + length data"
    using re(1,3,4,6) [OF v1] be by simp_all
qed

lemma add_user_property_effect:
  assumes inv: "pp_inv p" and v: "props_valid p h" and a: "add_user_property h key val p = (True, p')"
  shows "pp_inv p'"
    and "\<exists>r. props_records p' h = props_records p h @ [r] \<and> pr_id r = UserProperty \<and> pr_kind r = KUserProperty
       \<and> record_key p' r = key \<and> record_value p' r = val"
    and "k \<noteq> h \<Longrightarrow> props_records p' k = props_records p k" and "props_valid p' k = props_valid p k"
    and "r \<in> set (props_records p k) \<Longrightarrow> record_value p' r = record_value p r \<and> record_key p' r = record_key p r"
    and "pp_bytes_used p' = pp_bytes_used p + length key + length val"
proof -
  obtain ko p1 vo p2 where b1: "append_blob key p = Some (ko, p1)" and b2: "append_blob val p1 = Some (vo, p2)"
    and r: "add_record h \<lparr>pr_id = UserProperty, pr_kind = KUserProperty, pr_offset = vo,
        pr_length = of_nat (length val), pr_key_offset = ko, pr_key_length = of_nat (length key)\<rparr> p2 = (True, p')"
      (is "add_record h ?r p2 = _")
    using a by (auto simp: add_user_property_def split: option.splits prod.splits)
  note e1 = append_blob_effect [OF inv b1]
  note e2 = append_blob_effect [OF e1(1) b2]
  let ?k = "\<lparr>pr_id = UserProperty, pr_kind = KUserProperty, pr_offset = ko,
      pr_length = of_nat (length key), pr_key_offset = 0, pr_key_length = 0\<rparr>"
  have lens: "unat (of_nat (length key) :: u16) = length key" "unat (of_nat (length val) :: u16) = length val"
    using unat_of_nat_length [OF b1] unat_of_nat_length [OF b2] by simp_all
  have "in_blob p1 ?k" using e1(2,3) lens by (simp add: in_blob_def)
  from e2(5) [OF this] have key2: "slice (unat ko) (length key) (pp_blob p2) = key"
    using e1(4) lens by (simp add: record_value_def)
  have in2: "in_blob p2 ?r" using e1(2,3) e2(2,3) lens by (simp add: in_blob_def)
  have v2: "props_valid p2 h" using v e1(6) e2(6) by simp
  note re = add_record_effect [OF e2(1) v2 in2 r]
  have val: "record_value p' x = record_value p2 x" "record_key p' x = record_key p2 x" for x
    using re(5) by (simp_all add: record_value_def record_key_def)
  have "record_key p' ?r = key" "record_value p' ?r = val"
    using key2 e2(4) lens by (simp_all only: val) (simp_all add: record_value_def record_key_def)
  then show "\<exists>r. props_records p' h = props_records p h @ [r] \<and> pr_id r = UserProperty
      \<and> pr_kind r = KUserProperty \<and> record_key p' r = key \<and> record_value p' r = val"
    using re(2) e1(7) e2(7) by force
  show "r \<in> set (props_records p k) \<Longrightarrow> record_value p' r = record_value p r \<and> record_key p' r = record_key p r"
    using e1(5) e2(5) in_blob_keep [OF inv, of r k] by (simp add: val)
  show "pp_inv p'" "k \<noteq> h \<Longrightarrow> props_records p' k = props_records p k" "props_valid p' k = props_valid p k"
    "pp_bytes_used p' = pp_bytes_used p + length key + length val"
    using re(1,3,4,6) e1 e2 by simp_all
qed

lemmas add_defs = add_byte_def add_u16_def add_u32_def add_varint_def add_utf8_def add_binary_def

text \<open>A refused addition stores nothing, but the blob space it took is not returned.\<close>

lemma add_refused:
  assumes inv: "pp_inv p"
  shows "add_value h pid kind data p = (False, p') \<Longrightarrow> pp_inv p' \<and> pp_slots p' = pp_slots p
      \<and> props_records p' k = props_records p k \<and> pp_bytes_used p \<le> pp_bytes_used p'
      \<and> length (pp_blob p') = length (pp_blob p)"
    and "add_user_property h key val p = (False, p') \<Longrightarrow> pp_inv p' \<and> pp_slots p' = pp_slots p
      \<and> props_records p' k = props_records p k \<and> pp_bytes_used p \<le> pp_bytes_used p'
      \<and> length (pp_blob p') = length (pp_blob p)"
proof -
  show "pp_inv p' \<and> pp_slots p' = pp_slots p
      \<and> props_records p' k = props_records p k \<and> pp_bytes_used p \<le> pp_bytes_used p'
      \<and> length (pp_blob p') = length (pp_blob p)" if a: "add_value h pid kind data p = (False, p')"
  proof (cases "append_blob data p")
    case None
    with a inv show ?thesis by (simp add: add_value_def)
  next
    case (Some x)
    obtain off p1 where x: "x = (off, p1)" by (cases x)
    from a Some x have "p' = p1"
      by (auto simp: add_value_def dest!: add_record_refused)
    with append_blob_effect [OF inv Some [unfolded x]] show ?thesis by simp
  qed
  assume a: "add_user_property h key val p = (False, p')"
  show "pp_inv p' \<and> pp_slots p' = pp_slots p
      \<and> props_records p' k = props_records p k \<and> pp_bytes_used p \<le> pp_bytes_used p'
      \<and> length (pp_blob p') = length (pp_blob p)"
  proof (cases "append_blob key p")
    case None
    with a inv show ?thesis by (simp add: add_user_property_def)
  next
    case (Some x)
    obtain ko p1 where x: "x = (ko, p1)" by (cases x)
    note e1 = append_blob_effect [OF inv Some [unfolded x]]
    show ?thesis
    proof (cases "append_blob val p1")
      case None
      with a Some x e1 show ?thesis by (simp add: add_user_property_def)
    next
      case (Some y)
      obtain vo p2 where y: "y = (vo, p2)" by (cases y)
      note e2 = append_blob_effect [OF e1(1) Some [unfolded y]]
      from a \<open>append_blob key p = Some x\<close> x Some y have "p' = p2"
        by (auto simp: add_user_property_def dest!: add_record_refused)
      with e1 e2 show ?thesis by simp
    qed
  qed
qed

lemma props_acquire_effect:
  assumes inv: "pp_inv p" and a: "props_acquire p = (h, p')" and v: "props_valid p' h"
  shows "pp_inv p'" and "props_records p' h = []" and "\<not> props_valid p h"
    and "k \<noteq> h \<Longrightarrow> props_valid p' k = props_valid p k \<and> props_records p' k = props_records p k"
    and "length (filter ps_in_use (pp_slots p')) = length (filter ps_in_use (pp_slots p)) + 1"
    and "pp_blob p' = pp_blob p" and "pp_bytes_used p' = pp_bytes_used p"
proof -
  show blob: "pp_blob p' = pp_blob p" "pp_bytes_used p' = pp_bytes_used p"
    using a by (auto simp: props_acquire_def split: option.splits)
  obtain i where f: "first_idx (\<lambda>s. \<not> ps_in_use s) (pp_slots p) = Some i"
    using a v by (auto simp: props_acquire_def props_valid_def NULL_HANDLE_def split: option.splits)
  then have i: "i < length (pp_slots p)" "\<not> ps_in_use (pp_slots p ! i)" by auto
  let ?s = "(pp_slots p ! i)\<lparr>ps_in_use := True, ps_property_count := 0\<rparr>"
  have h: "slot h = of_nat i" "generation h = ps_generation (pp_slots p ! i)"
    and p': "p' = p\<lparr>pp_slots := (pp_slots p)[i := ?s]\<rparr>"
    using a f by (auto simp: props_acquire_def)
  have ui: "unat (slot h) = i"
    using i inv by (simp add: h unat_of_nat_u16 pp_inv_def)
  show "\<not> props_valid p h" using i ui by (simp add: props_valid_def)
  show mine: "props_records p' h = []" using i by (simp add: props_records_def ui p')
  have ne: "unat (slot k) \<noteq> i" if "props_valid p k \<or> props_valid p' k" "k \<noteq> h" for k
    using that i props_valid_same_slot [OF v, of k] by (auto simp: props_valid_def ui p')
  show other: "props_valid p' k = props_valid p k \<and> props_records p' k = props_records p k" if "k \<noteq> h" for k
  proof (cases "props_valid p k \<or> props_valid p' k")
    case True
    with ne [OF True that] show ?thesis by (simp add: props_valid_def props_records_def p' nth_upd)
  qed (simp add: props_records_def)
  show "length (filter ps_in_use (pp_slots p')) = length (filter ps_in_use (pp_slots p)) + 1"
    using i by (simp add: p' length_filter_update)
  have "\<forall>r \<in> set (props_records p' k). in_blob p' r" for k
    using mine other [of k] inv by (cases "k = h") (auto simp: pp_inv_def in_blob_def p')
  then show "pp_inv p'"
    using inv i by (auto simp: pp_inv_def p' dest!: in_set_upd)
qed

lemma props_release_effect:
  assumes inv: "pp_inv p"
  shows "pp_inv (props_release h p)" and "\<not> props_valid (props_release h p) h"
    and "k \<noteq> h \<Longrightarrow> props_valid p k \<Longrightarrow>
       props_valid (props_release h p) k \<and> props_records (props_release h p) k = props_records p k"
    and "length (filter ps_in_use (pp_slots (props_release h p)))
       = length (filter ps_in_use (pp_slots p)) - (if props_valid p h then 1 else 0)"
    and "pp_blob (props_release h p) = pp_blob p" and "pp_bytes_used (props_release h p) = pp_bytes_used p"
proof -
  let ?q = "props_release h p"
  show "pp_blob ?q = pp_blob p" "pp_bytes_used ?q = pp_bytes_used p"
    by (simp_all add: props_release_def)
  have at: "\<not> props_valid ?q k" if "props_valid p h" "unat (slot k) = unat (slot h)" for k
    using that by (auto simp: props_release_def props_valid_def)
  have away: "props_valid ?q k = props_valid p k \<and> props_records ?q k = props_records p k"
    if "\<not> props_valid p h \<or> unat (slot k) \<noteq> unat (slot h)" for k
    using that by (auto simp: props_release_def props_valid_def props_records_def)
  show stale: "\<not> props_valid ?q h"
    using at [of h] away [of h] by blast
  show other: "props_valid ?q k \<and> props_records ?q k = props_records p k" if "k \<noteq> h" "props_valid p k" for k
    using away [of k] that props_valid_same_slot [of p h k] by blast
  have rec: "props_records ?q k = [] \<or> props_records ?q k = props_records p k" for k
    using at [of k] away [of k] by (cases "props_valid ?q k") (blast, simp add: props_records_def)
  have "in_blob ?q r = in_blob p r" for r by (simp add: in_blob_def props_release_def)
  then have "\<forall>r \<in> set (props_records ?q k). in_blob ?q r" for k
    using rec [of k] inv by (auto simp: pp_inv_def)
  then show "pp_inv ?q"
    using inv by (auto simp: pp_inv_def props_release_def dest!: in_set_upd)
  show "length (filter ps_in_use (pp_slots ?q))
      = length (filter ps_in_use (pp_slots p)) - (if props_valid p h then 1 else 0)"
    by (auto simp: props_release_def length_filter_update props_valid_def)
qed

text \<open>
  How the pool changes while the set \<open>h\<close> is being filled: only \<open>h\<close> gets new records, what was
  stored still reads the same, and blob space is only taken.
\<close>

definition grows :: "PropertyHandle \<Rightarrow> PropertyPool \<Rightarrow> PropertyPool \<Rightarrow> bool" where
  "grows h p p' \<longleftrightarrow>
     pp_inv p' \<and> (\<forall>k. props_valid p' k = props_valid p k)
     \<and> (\<forall>k. k \<noteq> h \<longrightarrow> props_records p' k = props_records p k)
     \<and> (\<forall>k. \<forall>r \<in> set (props_records p k). record_value p' r = record_value p r \<and> record_key p' r = record_key p r)
     \<and> length (filter ps_in_use (pp_slots p')) = length (filter ps_in_use (pp_slots p))
     \<and> pp_bytes_used p \<le> pp_bytes_used p' \<and> length (pp_blob p') = length (pp_blob p)
     \<and> (\<exists>rs. props_records p' h = props_records p h @ rs)"

lemma grows_refl: "pp_inv p \<Longrightarrow> grows h p p"
  by (simp add: grows_def)

lemma grows_trans:
  assumes pq: "grows h p q" and qr: "grows h q r"
  shows "grows h p r"
proof -
  have rec: "set (props_records p k) \<subseteq> set (props_records q k)" for k
    using pq by (cases "k = h") (auto simp: grows_def)
  have vals: "record_value r x = record_value p x \<and> record_key r x = record_key p x"
    if "x \<in> set (props_records p k)" for k x
  proof -
    have "record_value q x = record_value p x \<and> record_key q x = record_key p x"
      using pq that unfolding grows_def by blast
    moreover have "record_value r x = record_value q x \<and> record_key r x = record_key q x"
      using qr rec that unfolding grows_def by blast
    ultimately show ?thesis by simp
  qed
  obtain rs rs' where "props_records q h = props_records p h @ rs" "props_records r h = props_records q h @ rs'"
    using pq qr unfolding grows_def by blast
  then have "\<exists>rs. props_records r h = props_records p h @ rs" by simp
  moreover have "\<forall>k. \<forall>x \<in> set (props_records p k). record_value r x = record_value p x \<and> record_key r x = record_key p x"
    using vals by blast
  moreover have "pp_bytes_used p \<le> pp_bytes_used r"
    using pq qr unfolding grows_def by linarith
  ultimately show ?thesis
    using pq qr by (simp add: grows_def)
qed

lemma add_record_in_use:
  assumes "add_record h r p = (True, p')"
  shows "length (filter ps_in_use (pp_slots p')) = length (filter ps_in_use (pp_slots p))"
proof -
  have "props_valid p h" "\<exists>c rs. p' = p\<lparr>pp_records := rs,
      pp_slots := (pp_slots p)[unat (slot h) := (pp_slot p h)\<lparr>ps_property_count := c\<rparr>]\<rparr>"
    using assms by (auto simp: add_record_def Let_def split: if_splits)
  then show ?thesis
    by (auto simp: length_filter_update props_valid_def)
qed

lemma add_value_blob:
  assumes "pp_inv p" and "add_value h pid kind data p = (True, p')"
  shows "length (filter ps_in_use (pp_slots p')) = length (filter ps_in_use (pp_slots p))
    \<and> length (pp_blob p') = length (pp_blob p)"
proof -
  obtain off p1 where b: "append_blob data p = Some (off, p1)"
    using assms(2) by (auto simp: add_value_def split: option.splits prod.splits)
  then obtain r where r: "add_record h r p1 = (True, p')"
    using assms(2) by (auto simp: add_value_def)
  have "pp_blob p' = pp_blob p1"
    using r by (auto simp: add_record_def Let_def split: if_splits)
  with append_blob_effect(8,10) [OF assms(1) b] add_record_in_use [OF r] show ?thesis by simp
qed

lemma add_user_property_blob:
  assumes "pp_inv p" and "add_user_property h key val p = (True, p')"
  shows "length (filter ps_in_use (pp_slots p')) = length (filter ps_in_use (pp_slots p))
    \<and> length (pp_blob p') = length (pp_blob p)"
proof -
  obtain ko p1 vo p2 where b: "append_blob key p = Some (ko, p1)" "append_blob val p1 = Some (vo, p2)"
    using assms(2) by (auto simp: add_user_property_def split: option.splits prod.splits)
  then obtain r where r: "add_record h r p2 = (True, p')"
    using assms(2) by (auto simp: add_user_property_def)
  have "pp_blob p' = pp_blob p2"
    using r by (auto simp: add_record_def Let_def split: if_splits)
  moreover note e1 = append_blob_effect(1,8,10) [OF assms(1) b(1)]
  ultimately show ?thesis
    using append_blob_effect(8,10) [OF e1(1) b(2)] e1 add_record_in_use [OF r] by simp
qed

lemma slots_eq_valid: "pp_slots p' = pp_slots p \<Longrightarrow> props_valid p' k = props_valid p k"
  by (simp add: props_valid_def)

text \<open>Blob bytes that were in use are never overwritten.\<close>

lemma append_blob_values:
  "pp_inv p \<Longrightarrow> append_blob data p = Some (off, p') \<Longrightarrow> r \<in> set (props_records p k) \<Longrightarrow>
     record_value p' r = record_value p r \<and> record_key p' r = record_key p r"
  using append_blob_effect(5) [of p data off p' r] in_blob_keep [of p r k] by blast

lemma add_value_grows:
  assumes inv: "pp_inv p" and v: "props_valid p h" and a: "add_value h pid kind data p = (ok, p')"
  shows "grows h p p'"
proof (cases ok)
  case True
  then have t: "add_value h pid kind data p = (True, p')" using a by simp
  note e = add_value_effect [OF inv v t] and b = add_value_blob [OF inv t]
  show ?thesis
    unfolding grows_def using e(2) b by (auto intro: e simp: e(1,3,4,6) dest: e(5))
next
  case False
  then have f: "add_value h pid kind data p = (False, p')" using a by simp
  note e = add_refused(1) [OF inv f]
  have "record_value p' r = record_value p r \<and> record_key p' r = record_key p r"
    if "r \<in> set (props_records p k)" for r k
  proof (cases "append_blob data p")
    case None
    with f show ?thesis by (simp add: add_value_def)
  next
    case (Some x)
    obtain off p1 where x: "x = (off, p1)" by (cases x)
    with f Some have "p' = p1" by (auto simp: add_value_def dest!: add_record_refused)
    with append_blob_values [OF inv Some [unfolded x] that] show ?thesis by simp
  qed
  with e slots_eq_valid [of p' p] show ?thesis
    unfolding grows_def by (metis append.right_neutral)
qed

lemma add_user_property_grows:
  assumes inv: "pp_inv p" and v: "props_valid p h" and a: "add_user_property h key val p = (ok, p')"
  shows "grows h p p'"
proof (cases ok)
  case True
  then have t: "add_user_property h key val p = (True, p')" using a by simp
  note e = add_user_property_effect [OF inv v t] and b = add_user_property_blob [OF inv t]
  show ?thesis
    unfolding grows_def using e(2) b by (auto intro: e simp: e(1,3,4,6) dest: e(5))
next
  case False
  then have f: "add_user_property h key val p = (False, p')" using a by simp
  note e = add_refused(2) [OF inv f]
  have "record_value p' r = record_value p r \<and> record_key p' r = record_key p r"
    if r: "r \<in> set (props_records p k)" for r k
  proof (cases "append_blob key p")
    case None
    with f show ?thesis by (simp add: add_user_property_def)
  next
    case (Some x)
    obtain ko p1 where x: "x = (ko, p1)" by (cases x)
    note b1 = Some [unfolded x]
    note v1 = append_blob_values [OF inv b1 r]
    show ?thesis
    proof (cases "append_blob val p1")
      case None
      with f b1 v1 show ?thesis by (simp add: add_user_property_def)
    next
      case (Some y)
      obtain vo p2 where y: "y = (vo, p2)" by (cases y)
      have "r \<in> set (props_records p1 k)" using r append_blob_effect(7) [OF inv b1] by simp
      note v2 = append_blob_values [OF append_blob_effect(1) [OF inv b1] Some [unfolded y] this]
      from f b1 Some y have "p' = p2"
        by (auto simp: add_user_property_def dest!: add_record_refused)
      with v1 v2 show ?thesis by simp
    qed
  qed
  with e slots_eq_valid [of p' p] show ?thesis
    unfolding grows_def by (metis append.right_neutral)
qed

section \<open>Properties\<close>

text \<open>Record \<open>r\<close> was added to the set \<open>h\<close> and nothing else was touched.\<close>

definition added :: "PropertyHandle \<Rightarrow> PropertyRecord \<Rightarrow> PropertyPool \<Rightarrow> PropertyPool \<Rightarrow> bool" where
  "added h r p p' \<longleftrightarrow>
     pp_inv p' \<and> props_records p' h = props_records p h @ [r]
     \<and> (\<forall>k. k \<noteq> h \<longrightarrow> props_records p' k = props_records p k)
     \<and> (\<forall>k. \<forall>r \<in> set (props_records p k). record_value p' r = record_value p r \<and> record_key p' r = record_key p r)"

text \<open>Stored properties read back: on a consistent pool, a property that is accepted into a
  set becomes its last record with the identifier and kind given and exactly the value (and key)
  bytes stored; the earlier records of the set, the records of every other set and all their
  values are unchanged.\<close>

theorem property_store_roundtrip:
  assumes "pp_inv p" and "props_valid p h"
  shows "(add_value h pid kind data p = (True, p') \<longrightarrow>
      (\<exists>r. added h r p p' \<and> pr_id r = pid \<and> pr_kind r = kind \<and> record_value p' r = data))
    \<and> (add_user_property h key val p = (True, q) \<longrightarrow>
      (\<exists>r. added h r p q \<and> pr_id r = UserProperty \<and> record_key q r = key \<and> record_value q r = val))"
proof (intro conjI impI)
  assume a: "add_value h pid kind data p = (True, p')"
  note e = add_value_effect [OF assms a]
  show "\<exists>r. added h r p p' \<and> pr_id r = pid \<and> pr_kind r = kind \<and> record_value p' r = data"
    using e(1,2,3,5) unfolding added_def by metis
next
  assume a: "add_user_property h key val p = (True, q)"
  note e = add_user_property_effect [OF assms a]
  show "\<exists>r. added h r p q \<and> pr_id r = UserProperty \<and> record_key q r = key \<and> record_value q r = val"
    using e(1,2,3,5) unfolding added_def by metis
qed

definition sample_props :: PropertyPool where
  "sample_props = snd (props_acquire (PropertyPool_new 2 16))"

lemma sample_props_inv: "pp_inv sample_props" and sample_props_valid: "props_valid sample_props \<lparr>slot = 0, generation = 1\<rparr>"
proof -
  let ?h = "\<lparr>slot = 0, generation = 1\<rparr> :: PropertyHandle"
  have a: "props_acquire (PropertyPool_new 2 16) = (?h, sample_props)" and v: "props_valid sample_props ?h"
    by code_simp+
  from v show "props_valid sample_props ?h" .
  show "pp_inv sample_props"
    using props_acquire_effect(1) [OF pp_inv_new a v] by simp
qed

theorem property_store_roundtrip_witness:
  "\<exists>p' r. add_value \<lparr>slot = 0, generation = 1\<rparr> ContentType KUtf8String [97, 98] sample_props = (True, p')
     \<and> props_records p' \<lparr>slot = 0, generation = 1\<rparr> = props_records sample_props \<lparr>slot = 0, generation = 1\<rparr> @ [r]
     \<and> record_value p' r = [97, 98]"
proof -
  let ?h = "\<lparr>slot = 0, generation = 1\<rparr> :: PropertyHandle"
  obtain ok p' where a: "add_value ?h ContentType KUtf8String [97, 98] sample_props = (ok, p')"
    by (cases "add_value ?h ContentType KUtf8String [97, 98] sample_props")
  moreover have "fst (add_value ?h ContentType KUtf8String [97, 98] sample_props)"
    by (simp add: add_value_def append_blob_def add_record_def sample_props_def props_acquire_def
        PropertyPool_new_def props_valid_def kPropsPerSlot_def upt_rec)
  ultimately have "add_value ?h ContentType KUtf8String [97, 98] sample_props = (True, p')" by simp
  with property_store_roundtrip [OF sample_props_inv sample_props_valid, of ContentType KUtf8String "[97, 98]" p']
  show ?thesis unfolding added_def by blast
qed

end
