(* ===== verification/Varint.thy ===== *)
theory Varint
  imports Broker_Prelude
begin

text \<open>
  Variable Byte Integers (\<open>varint.cpp\<close>). The two loops of the source are the functions
  \<open>varint_decode_loop\<close> (index, running value and multiplier as in the code, 32-bit arithmetic) and
  \<open>varint_encode_loop\<close>. The theorems: every value up to \<open>kVarintMax\<close> survives encode/decode
  whatever follows it in the buffer; the decoder reads at most four bytes and never past the
  input; its four outcomes are characterised completely, which shows that \<open>TooLarge\<close> is never
  produced; a value above the maximum is refused only when the buffer has fewer than five bytes.
\<close>

section \<open>Definitions\<close>

datatype VarintResult = Ok | NeedMore | TooLarge | Overflow

record VarintDecode =
  result :: VarintResult
  vvalue :: u32
  bytes_consumed :: nat

definition kVarintMax :: u32 where
  "kVarintMax = 268435455"

text \<open>The loop head \<open>i < len && i < 4\<close>; \<open>consumed\<close> is \<open>out.bytes_consumed\<close> so far.\<close>

function varint_decode_loop :: "byte list \<Rightarrow> nat \<Rightarrow> u32 \<Rightarrow> u32 \<Rightarrow> nat \<Rightarrow> VarintDecode" where
  "varint_decode_loop data i val mult consumed =
     (if i < length data \<and> i < 4 then
        let encoded = data ! i;
            val = val + ucast (encoded AND 0x7F) * mult;
            consumed = i + 1
        in if encoded AND 0x80 = 0 then
             \<lparr>result = Ok, vvalue = val, bytes_consumed = consumed\<rparr>
           else if mult > kVarintMax div 128 then
             \<lparr>result = Overflow, vvalue = 0, bytes_consumed = consumed\<rparr>
           else varint_decode_loop data (i + 1) val (mult * 128) consumed
      else if length data \<ge> 4 then
        \<lparr>result = TooLarge, vvalue = 0, bytes_consumed = consumed\<rparr>
      else \<lparr>result = NeedMore, vvalue = 0, bytes_consumed = consumed\<rparr>)"
  by pat_completeness auto
termination
  by (relation "measure (\<lambda>(data, i, _, _, _). 4 - i)") auto

declare varint_decode_loop.simps [simp del]

definition varint_decode :: "byte list \<Rightarrow> VarintDecode" where
  "varint_decode data = varint_decode_loop data 0 0 1 0"

text \<open>The \<open>do ... while (value > 0)\<close> loop; \<open>None\<close> is the early \<open>return 0\<close>.\<close>

function varint_encode_loop :: "u32 \<Rightarrow> nat \<Rightarrow> nat \<Rightarrow> byte list option" where
  "varint_encode_loop val i out_cap =
     (if i \<ge> out_cap then None
      else let b = ucast (val mod 128); val = val div 128
        in if val > 0 then map_option ((#) (b OR 0x80)) (varint_encode_loop val (i + 1) out_cap)
           else Some [b])"
  by pat_completeness auto
termination
  by (relation "measure (\<lambda>(_, i, out_cap). out_cap - i)") auto

declare varint_encode_loop.simps [simp del]

definition varint_encode :: "u32 \<Rightarrow> nat \<Rightarrow> byte list option" where
  "varint_encode val out_cap = varint_encode_loop val 0 out_cap"

text \<open>The size functions of the source return 0 where \<open>varint_encode\<close> does.\<close>

definition varint_encoded_size :: "u32 \<Rightarrow> nat" where
  "varint_encoded_size val = (case varint_encode val 4 of None \<Rightarrow> 0 | Some bs \<Rightarrow> length bs)"

section \<open>Seven bits per byte\<close>

lemma and_7F: "(b :: u8) AND 0x7F = take_bit 7 b"
  by (simp add: take_bit_eq_mask mask_numeral)

lemma and_80_eq_0: "(b :: u8) AND 0x80 = 0 \<longleftrightarrow> \<not> bit b 7"
  using and_exp_eq_0_iff_not_bit [of b 7] by simp

lemma low_bits: "ucast (take_bit 7 (ucast (v mod 128) :: u8)) = (v mod 128 :: u32)"
proof -
  have "v mod 128 = take_bit 7 v"
    by (simp add: take_bit_eq_mod)
  then show ?thesis
    by (simp only:) (rule bit_word_eqI, auto simp: bit_simps)
qed

lemma low_byte_last: "\<not> bit (ucast (v mod 128 :: u32) :: u8) 7"
proof -
  have "v mod 128 = take_bit 7 v"
    by (simp add: take_bit_eq_mod)
  then show ?thesis
    by (simp only:) (simp add: bit_simps)
qed

lemma more_byte_bits:
  "bit (b OR 0x80 :: u8) 7" and "take_bit 7 (b OR 0x80 :: u8) = take_bit 7 b"
proof -
  have e: "(0x80 :: u8) = push_bit 7 1" by simp
  show "bit (b OR 0x80 :: u8) 7"
    by (simp only: e) (simp add: bit_simps)
  show "take_bit 7 (b OR 0x80 :: u8) = take_bit 7 b"
    by (simp only: e) (rule bit_word_eqI, auto simp: bit_simps)
qed

lemmas varint_bits = and_7F and_80_eq_0 low_bits low_byte_last more_byte_bits

section \<open>Round trip\<close>

lemma varint_encode_loop_nonempty:
  "varint_encode_loop v i cap = Some bs \<Longrightarrow> bs \<noteq> [] \<and> length bs \<le> cap - i"
proof (induction v i cap arbitrary: bs rule: varint_encode_loop.induct)
  case (1 v i cap)
  then show ?case
    by (subst (asm) (2) varint_encode_loop.simps) (fastforce simp: Let_def split: if_splits)
qed

text \<open>
  The general step of the round trip: the decoder stands at index \<open>i\<close> with multiplier
  \<open>128 ^ i\<close>, and the rest of the input starts with the encoding of \<open>v\<close>.
\<close>

lemma varint_decode_encoded_at:
  assumes "varint_encode_loop v i cap = Some bs" and "drop i data = bs @ rest"
    and "unat v < 128 ^ (4 - i)" and "i < 4"
  shows "varint_decode_loop data i val (128 ^ i) c =
    \<lparr>result = Ok, vvalue = val + v * 128 ^ i, bytes_consumed = i + length bs\<rparr>"
  using assms
proof (induction v i cap arbitrary: bs val c rule: varint_encode_loop.induct)
  case (1 v i cap)
  from "1.prems"(1) have cap: "i < cap"
    by (subst (asm) varint_encode_loop.simps) (simp split: if_splits)
  from "1.prems"(1) have ne: "bs \<noteq> []"
    using varint_encode_loop_nonempty by blast
  then have len: "i < length data"
    using "1.prems"(2) by (metis append_is_Nil_conv drop_all not_less)
  have hd: "data ! i = hd bs"
    using "1.prems"(2) ne len by (metis hd_append2 hd_drop_conv_nth)
  have dm: "v = v mod 128 + v div 128 * 128"
    by (metis add.commute div_mult_mod_eq)
  show ?case
  proof (cases "v div 128 > 0")
    case False
    with "1.prems"(1) cap have "bs = [ucast (v mod 128)]"
      by (subst (asm) varint_encode_loop.simps) (simp add: Let_def)
    moreover from False have "v mod 128 = v"
      using dm by (simp add: word_neq_0_conv [symmetric])
    ultimately show ?thesis
      using len hd "1.prems"(4) low_bits [of v] low_byte_last [of v]
      by (subst varint_decode_loop.simps) (simp add: and_7F and_80_eq_0 Let_def)
  next
    case True
    with "1.prems"(1) cap obtain bs' where
      bs: "bs = (ucast (v mod 128) OR 0x80) # bs'"
      and enc: "varint_encode_loop (v div 128) (i + 1) cap = Some bs'"
      by (subst (asm) varint_encode_loop.simps) (auto simp: Let_def)
    have small: "unat (v div 128) < 128 ^ (4 - (i + 1))"
      using "1.prems"(3,4)
      by (simp add: unat_div less_mult_imp_div_less power_eq_if [of _ "4 - i"] mult.commute)
    from True have "0 < unat (v div 128)"
      by (simp add: word_less_nat_alt)
    with small have i3: "i + 1 < 4"
      using "1.prems"(4) by (cases "i = 3") auto
    have mult: "\<not> (128 ^ i :: u32) > kVarintMax div 128"
    proof -
      from i3 consider "i = 0" | "i = 1" | "i = 2" by linarith
      then show ?thesis by cases (simp_all add: kVarintMax_def)
    qed
    have dr: "drop (i + 1) data = bs' @ rest"
      using "1.prems"(2) bs by (metis append_Cons drop_Suc Suc_eq_plus1 list.sel(3) tl_drop)
    have "varint_decode_loop data (i + 1) (val + (v mod 128) * 128 ^ i) (128 ^ (i + 1)) (i + 1) =
        \<lparr>result = Ok, vvalue = val + (v mod 128) * 128 ^ i + v div 128 * 128 ^ (i + 1),
         bytes_consumed = i + 1 + length bs'\<rparr>"
      using "1.IH" [OF _ refl refl True enc dr small i3] cap by simp
    moreover have "val + (v mod 128) * 128 ^ i + v div 128 * 128 ^ (i + 1) = val + v * 128 ^ i"
      by (subst (3) dm) (simp add: algebra_simps)
    ultimately show ?thesis
      using len hd bs mult "1.prems"(4)
      by (subst varint_decode_loop.simps) (simp add: varint_bits Let_def mult.commute)
  qed
qed

lemma unat_le_kVarintMax: "v \<le> kVarintMax \<longleftrightarrow> unat v < 128 ^ 4"
  by (simp add: kVarintMax_def word_le_nat_alt less_Suc_eq_le [symmetric])

lemma varint_encode_loop_total:
  "unat v < 128 ^ (Suc n) \<Longrightarrow> i + n < cap \<Longrightarrow>
     \<exists>bs. varint_encode_loop v i cap = Some bs \<and> length bs \<le> Suc n"
proof (induction n arbitrary: v i)
  case 0
  then have "v div 128 = 0"
    by (simp add: word_unat_eq_iff unat_div)
  with 0 show ?case by (subst varint_encode_loop.simps) (simp add: Let_def)
next
  case (Suc n)
  from Suc.prems(1) have "unat (v div 128) < 128 ^ Suc n"
    by (simp add: unat_div less_mult_imp_div_less mult.commute)
  then obtain bs where
    "varint_encode_loop (v div 128) (i + 1) cap = Some bs" and "length bs \<le> Suc n"
    using Suc.IH [of "v div 128" "i + 1"] Suc.prems(2) by auto
  with Suc.prems(2) show ?case
    by (subst varint_encode_loop.simps) (auto simp: Let_def)
qed

lemma varint_encode_total:
  assumes "v \<le> kVarintMax" and "4 \<le> cap"
  obtains bs where "varint_encode v cap = Some bs" and "1 \<le> length bs" and "length bs \<le> 4"
proof -
  from assms obtain bs where bs: "varint_encode_loop v 0 cap = Some bs" "length bs \<le> 4"
    using varint_encode_loop_total [of v 3 0 cap] by (auto simp: unat_le_kVarintMax)
  with varint_encode_loop_nonempty [OF bs(1)] show thesis
    by (intro that [of bs]) (auto simp: varint_encode_def Suc_le_eq)
qed

lemma varint_decode_encoded:
  assumes "varint_encode v cap = Some bs" and "v \<le> kVarintMax"
  shows "varint_decode (bs @ rest) = \<lparr>result = Ok, vvalue = v, bytes_consumed = length bs\<rparr>"
  using varint_decode_encoded_at [of v 0 cap bs "bs @ rest" rest 0 0] assms
  by (simp add: varint_encode_def varint_decode_def unat_le_kVarintMax)



section \<open>All outcomes of the decoder\<close>

lemma varint_decode_loop_consumed:
  "result (varint_decode_loop data i val mult c) = Ok \<Longrightarrow>
     i < bytes_consumed (varint_decode_loop data i val mult c)
     \<and> bytes_consumed (varint_decode_loop data i val mult c) \<le> length data"
proof (induction data i val mult c rule: varint_decode_loop.induct)
  case (1 data i val mult c)
  show ?case
    using "1.prems" "1.IH" [OF _ refl refl refl]
    by (subst (asm) varint_decode_loop.simps, subst varint_decode_loop.simps)
      (auto simp: Let_def varint_decode_loop.simps [of data i] split: if_splits)
qed

lemma varint_decode_consumed:
  "result (varint_decode data) = Ok \<Longrightarrow>
     0 < bytes_consumed (varint_decode data) \<and> bytes_consumed (varint_decode data) \<le> length data"
  using varint_decode_loop_consumed [of data 0 0 1 0] by (simp add: varint_decode_def)

lemma kVarintMax_div: "kVarintMax div 128 = 2097151"
  by (simp add: kVarintMax_def)

lemmas decode_unfold = varint_decode_loop.simps Let_def kVarintMax_div and_7F and_80_eq_0

lemma unat_low7: "unat (ucast (take_bit 7 (b :: u8)) :: u32) < 128"
proof -
  have "unat (take_bit 7 b) = take_bit 7 (unat b)"
    by (simp add: unsigned_take_bit_eq)
  also have "\<dots> < 2 ^ 7"
    by (rule take_bit_nat_less_exp)
  finally show ?thesis by (simp add: width_simps)
qed

text \<open>Number of leading bytes (of the first four) with the continuation bit set.\<close>

definition cont_prefix :: "byte list \<Rightarrow> nat" where
  "cont_prefix data = length (takeWhile (\<lambda>b. bit b 7) (take 4 data))"

lemma varint_decode_cases:
  "varint_decode data =
    (let n = cont_prefix data
     in if n = 4 then \<lparr>result = Overflow, vvalue = 0, bytes_consumed = 4\<rparr>
        else if n = length data then \<lparr>result = NeedMore, vvalue = 0, bytes_consumed = n\<rparr>
        else \<lparr>result = Ok,
              vvalue = (\<Sum>i \<le> n. ucast (take_bit 7 (data ! i)) * 128 ^ i),
              bytes_consumed = Suc n\<rparr>)"
proof -
  consider "data = []" | a where "data = [a]" | a b where "data = [a, b]"
    | a b c where "data = [a, b, c]" | a b c d ds where "data = a # b # c # d # ds"
    by (metis neq_Nil_conv)
  then show ?thesis
    by cases (simp_all add: varint_decode_def cont_prefix_def decode_unfold)
qed

lemma varint_sum_bound:
  fixes data :: "byte list"
  assumes "n < 4"
  shows "unat (\<Sum>i \<le> n. ucast (take_bit 7 (data ! i)) * 128 ^ i :: u32) < 128 ^ Suc n"
  using assms
proof (induction n)
  case 0
  then show ?case using unat_low7 [of "data ! 0"] by simp
next
  case (Suc n)
  let ?s = "\<Sum>i \<le> n. ucast (take_bit 7 (data ! i)) * 128 ^ i :: u32"
  let ?t = "ucast (take_bit 7 (data ! Suc n)) :: u32"
  have s: "unat ?s < 128 ^ Suc n"
    using Suc by simp
  have t: "unat ?t \<le> 127"
    using unat_low7 [of "data ! Suc n"] by simp
  have p: "(128 :: nat) ^ Suc n \<le> 128 ^ 3"
    using Suc.prems by (intro power_increasing) auto
  have pw: "unat (128 ^ Suc n :: u32) = 128 ^ Suc n"
  proof -
    from Suc.prems consider "n = 0" | "n = 1" | "n = 2" by linarith
    then show ?thesis by cases simp_all
  qed
  have mt: "unat ?t * 128 ^ Suc n \<le> 127 * 128 ^ Suc n"
    using t by (rule mult_le_mono1)
  have fits: "unat ?s + unat ?t * 128 ^ Suc n < 2 ^ LENGTH(32)"
  proof -
    have "(128 :: nat) ^ 3 = 2097152" by simp
    with s p mt have "unat ?s + unat ?t * 128 ^ Suc n < 4294967296" by linarith
    then show ?thesis by simp
  qed
  then have prod: "unat (?t * 128 ^ Suc n) = unat ?t * 128 ^ Suc n"
    unfolding unat_word_ariths pw by (intro mod_less) linarith
  have "unat (?s + ?t * 128 ^ Suc n) = unat ?s + unat ?t * 128 ^ Suc n"
    unfolding unat_word_ariths(1) prod using fits by (rule mod_less)
  also have "\<dots> < 128 ^ Suc n + 127 * 128 ^ Suc n"
    using s mt by linarith
  finally show ?case by simp
qed

text \<open>The four outcomes of \<open>varint_decode\<close>, completely: it reads at most four bytes and
  never past the input; \<open>Overflow\<close> exactly when four bytes all carry the continuation bit;
  \<open>NeedMore\<close> exactly when fewer than four bytes are present and all carry it; otherwise \<open>Ok\<close> with
  a value of at most 268435455 and a last byte with the bit clear. In particular \<open>TooLarge\<close>, which
  the header documents for "more than 4 bytes without terminator", is never returned.\<close>

theorem varint_decode_outcomes:
  "let d = varint_decode data; n = cont_prefix data
   in result d \<noteq> TooLarge
     \<and> bytes_consumed d \<le> 4 \<and> bytes_consumed d \<le> length data
     \<and> (result d = Overflow \<longleftrightarrow> n = 4)
     \<and> (result d = NeedMore \<longleftrightarrow> n < 4 \<and> n = length data)
     \<and> (result d = Ok \<longleftrightarrow> n < 4 \<and> n < length data)
     \<and> (n < 4 \<and> n < length data \<longrightarrow>
          vvalue d \<le> kVarintMax \<and> bytes_consumed d = Suc n \<and> \<not> bit (data ! n) 7)"
proof -
  let ?tw = "takeWhile (\<lambda>b. bit b 7) (take 4 data)"
  have le: "cont_prefix data \<le> 4" "cont_prefix data \<le> length data"
    using length_takeWhile_le [of "\<lambda>b. bit b 7" "take 4 data"] by (auto simp: cont_prefix_def)
  have last: "\<not> bit (data ! cont_prefix data) 7"
    if "cont_prefix data < 4" "cont_prefix data < length data"
    using nth_length_takeWhile [of "\<lambda>b. bit b 7" "take 4 data"] that
    by (simp add: cont_prefix_def)
  have "vvalue (varint_decode data) \<le> kVarintMax"
    if "cont_prefix data < 4" "cont_prefix data < length data"
  proof -
    have "unat (vvalue (varint_decode data)) < 128 ^ Suc (cont_prefix data)"
      using varint_sum_bound [OF that(1), of data] that
      by (simp add: varint_decode_cases Let_def)
    also have "\<dots> \<le> (128 :: nat) ^ 4"
      using that(1) by (intro power_increasing) auto
    finally show ?thesis by (simp add: unat_le_kVarintMax)
  qed
  with le last show ?thesis
    by (auto simp: varint_decode_cases Let_def)
qed

text \<open>Four continuation bytes: the code answers \<open>Overflow\<close>.\<close>

theorem varint_decode_outcomes_witness:
  "result (varint_decode [0x80, 0x80, 0x80, 0x80, 0]) \<noteq> TooLarge
    \<and> (result (varint_decode [0x80, 0x80, 0x80, 0x80, 0]) = Overflow
        \<longleftrightarrow> cont_prefix [0x80, 0x80, 0x80, 0x80, 0] = 4)
    \<and> cont_prefix [0x80, 0x80, 0x80, 0x80, 0] = 4
    \<and> vvalue (varint_decode [0x80, 1]) \<le> kVarintMax"
proof -
  have n: "cont_prefix [0x80, 0x80, 0x80, 0x80, 0] = 4" "cont_prefix [0x80, 1] = 1"
    by code_simp+
  show ?thesis
    using varint_decode_outcomes [of "[0x80, 0x80, 0x80, 0x80, 0]"]
      varint_decode_outcomes [of "[0x80, 1]"]
    by (simp add: n Let_def)
qed

lemma varint_encode_loop_length:
  "128 ^ n \<le> unat v \<Longrightarrow> unat v < 128 ^ Suc n \<Longrightarrow> varint_encode_loop v i cap = Some bs \<Longrightarrow>
     0 < n \<Longrightarrow> length bs = Suc n"
proof (induction n arbitrary: v i bs)
  case 0
  then show ?case by simp
next
  case (Suc n)
  have div: "unat (v div 128) = unat v div 128"
    by (simp add: unat_div)
  from Suc.prems(1,2) have lo: "128 ^ n \<le> unat (v div 128)" and hi: "unat (v div 128) < 128 ^ Suc n"
    unfolding div by (simp_all add: less_eq_div_iff_mult_less_eq less_mult_imp_div_less mult.commute)
  have "1 \<le> unat (v div 128)"
    using order_trans [OF _ lo, of 1] by simp
  then have "v div 128 > 0"
    by (simp add: word_less_nat_alt)
  with Suc.prems(3) obtain bs' where
    bs: "bs = (ucast (v mod 128) OR 0x80) # bs'"
    and enc: "varint_encode_loop (v div 128) (i + 1) cap = Some bs'"
    by (subst (asm) varint_encode_loop.simps) (auto simp: Let_def split: if_splits)
  show ?case
  proof (cases n)
    case 0
    then have "v div 128 div 128 = 0"
      using hi by (simp add: word_unat_eq_iff unat_div)
    with enc have "length bs' = 1"
      by (subst (asm) varint_encode_loop.simps) (auto simp: Let_def split: if_splits)
    with bs 0 show ?thesis by simp
  next
    case (Suc m)
    with Suc.IH [OF lo hi enc] bs show ?thesis by simp
  qed
qed

text \<open>Encoding a value above 268435455: with a four-byte buffer it is refused, but with
  room for five bytes the encoder writes a five-byte sequence (which no MQTT decoder accepts),
  although the header promises the result 0 for a value above the maximum.\<close>

theorem varint_encode_above_max:
  assumes "v > kVarintMax"
  shows "varint_encode v 4 = None
    \<and> (5 \<le> cap \<longrightarrow> (\<exists>bs. varint_encode v cap = Some bs \<and> length bs = 5))"
proof -
  have lo: "128 ^ 4 \<le> unat v"
    using assms unat_le_kVarintMax [of v] by (simp add: not_le [symmetric])
  have hi: "unat v < 128 ^ Suc 4"
    using less_trans [OF unat_u32_less [of v]] by simp
  have len: "length bs = 5" if "varint_encode_loop v 0 c = Some bs" for c bs
    using varint_encode_loop_length [OF lo hi that] by simp
  have "varint_encode v 4 = None"
    using len [of 4] varint_encode_loop_nonempty [of v 0 4]
    by (cases "varint_encode_loop v 0 4") (auto simp: varint_encode_def)
  moreover have "\<exists>bs. varint_encode v cap = Some bs \<and> length bs = 5" if "5 \<le> cap"
    using varint_encode_loop_total [OF hi, of 0 cap] that len by (auto simp: varint_encode_def)
  ultimately show ?thesis by blast
qed

theorem varint_encode_above_max_witness:
  "kVarintMax < 268435456 \<and> varint_encode 268435456 4 = None
    \<and> (\<exists>bs. varint_encode 268435456 5 = Some bs \<and> length bs = 5)"
proof -
  have h: "kVarintMax < 268435456" by (simp add: kVarintMax_def)
  show ?thesis using h varint_encode_above_max [OF h, of 5] by simp
qed

end
