(* ===== verification/Property_Rules.thy ===== *)
theory Property_Rules
  imports Property_Pool Varint
begin

text \<open>
  MQTT 5 property lists (\<open>property_rules.cpp\<close>): UTF-8 checking, the table of the properties each
  packet type may carry, the parser of a property section into the pool, and the validation of a
  parsed set. Every error return of the code is an \<open>Inl\<close> with its reason code; the parser releases
  the set it had acquired on each of them.
\<close>

definition kMaxPropertyBytes :: u32 where
  "kMaxPropertyBytes = 2048"

definition is_cont_byte :: "byte \<Rightarrow> bool" where
  "is_cont_byte b \<longleftrightarrow> b AND 0xC0 = 0x80"

text \<open>\<open>length rest \<ge> n\<close> and the first \<open>n\<close> bytes are continuation bytes.\<close>

definition cont_bytes :: "nat \<Rightarrow> byte list \<Rightarrow> bool" where
  "cont_bytes n rest \<longleftrightarrow> n \<le> length rest \<and> list_all is_cont_byte (take n rest)"

function utf8_valid :: "byte list \<Rightarrow> bool" where
  "utf8_valid [] = True"
| "utf8_valid (c # rest) =
     (if c \<le> 0x7F then utf8_valid rest
      else if 0xC2 \<le> c \<and> c \<le> 0xDF then
        (if \<not> cont_bytes 1 rest then False else utf8_valid (drop 1 rest))
      else if 0xE0 \<le> c \<and> c \<le> 0xEF then
        (if \<not> cont_bytes 2 rest then False else utf8_valid (drop 2 rest))
      else if 0xF0 \<le> c \<and> c \<le> 0xF4 then
        (if \<not> cont_bytes 3 rest then False else utf8_valid (drop 3 rest))
      else False)"
  by pat_completeness auto
termination by (relation "measure length") auto

definition utf8_cstr_valid :: "byte list \<Rightarrow> bool" where
  "utf8_cstr_valid str = utf8_valid (cstr str)"

section \<open>Which properties are allowed\<close>

definition property_allowed :: "PacketType \<Rightarrow> PropertyId \<Rightarrow> bool" where
  "property_allowed packet pid =
     (case packet of
        Connect \<Rightarrow> pid \<in> set [SessionExpiryInterval, ReceiveMaximum, MaximumPacketSize,
          TopicAliasMaximum, RequestResponseInformation, RequestProblemInformation, UserProperty,
          AuthenticationMethod, AuthenticationData, WillDelayInterval, PayloadFormatIndicator,
          MessageExpiryInterval, ContentType, ResponseTopic, CorrelationData]
      | Publish \<Rightarrow> pid \<in> set [PayloadFormatIndicator, MessageExpiryInterval, ContentType,
          ResponseTopic, CorrelationData, UserProperty, TopicAlias]
      | Subscribe \<Rightarrow> pid = UserProperty
      | Connack \<Rightarrow> pid = UserProperty \<or> pid = ReasonString
      | Puback \<Rightarrow> pid = UserProperty \<or> pid = ReasonString
      | Pubrec \<Rightarrow> pid = UserProperty \<or> pid = ReasonString
      | Pubrel \<Rightarrow> pid = UserProperty \<or> pid = ReasonString
      | Pubcomp \<Rightarrow> pid = UserProperty \<or> pid = ReasonString
      | Disconnect \<Rightarrow> pid = UserProperty \<or> pid = ReasonString \<or> pid = SessionExpiryInterval
      | _ \<Rightarrow> False)"

definition single_occurrence :: "PropertyId \<Rightarrow> bool" where
  "single_occurrence pid \<longleftrightarrow> pid \<in> set [SessionExpiryInterval, ReceiveMaximum, MaximumPacketSize,
     TopicAliasMaximum, RequestResponseInformation, RequestProblemInformation,
     AuthenticationMethod, AuthenticationData, WillDelayInterval, PayloadFormatIndicator,
     MessageExpiryInterval, ContentType, ResponseTopic, CorrelationData, TopicAlias]"

definition reject_reason :: "PacketType \<Rightarrow> PropertyId \<Rightarrow> ReasonCode" where
  "reject_reason packet pid =
     (if packet = Subscribe \<and> pid = SubscriptionIdentifier then SubscriptionIdentifiersNotSupported
      else if pid = TopicAlias then TopicAliasInvalid
      else ProtocolError)"

section \<open>Validation of a parsed set\<close>

record PropertyValidationResult =
  pv_ok :: bool
  pv_reason :: ReasonCode

definition pv_success :: PropertyValidationResult where
  "pv_success = \<lparr>pv_ok = True, pv_reason = Success\<rparr>"

definition pv_error :: "ReasonCode \<Rightarrow> PropertyValidationResult" where
  "pv_error r = \<lparr>pv_ok = False, pv_reason = r\<rparr>"

text \<open>The value checks on one record; \<open>None\<close> when it passes.\<close>

definition value_error :: "PropertyPool \<Rightarrow> PropertyRecord \<Rightarrow> ReasonCode option" where
  "value_error pool r =
     (if pr_kind r = KUtf8String then
        (if \<not> utf8_valid (record_value pool r) then Some ProtocolError else None)
      else if pr_kind r = KUserProperty then
        (if \<not> utf8_valid (record_key pool r) \<or> \<not> utf8_valid (record_value pool r)
         then Some ProtocolError else None)
      else if pr_id r = ReceiveMaximum \<and> pr_kind r = KU16 then
        (if read_u16_be (drop (unat (pr_offset r)) (pp_blob pool)) = 0 then Some ProtocolError else None)
      else if pr_id r = TopicAlias \<and> pr_kind r = KU16 then
        (if read_u16_be (drop (unat (pr_offset r)) (pp_blob pool)) \<noteq> 0 then Some TopicAliasInvalid
         else None)
      else None)"

text \<open>\<open>seen\<close> lists the single-occurrence identifiers met so far.\<close>

primrec validate_loop ::
  "PacketType \<Rightarrow> PropertyPool \<Rightarrow> PropertyId list \<Rightarrow> PropertyRecord list \<Rightarrow> PropertyValidationResult"
where
  "validate_loop packet pool seen [] = pv_success"
| "validate_loop packet pool seen (r # rs) =
     (if \<not> property_allowed packet (pr_id r) then pv_error (reject_reason packet (pr_id r))
      else if single_occurrence (pr_id r) \<and> pr_id r \<in> set seen then pv_error ProtocolError
      else
        let seen' = (if single_occurrence (pr_id r) then pr_id r # seen else seen)
        in case value_error pool r of
             Some reason \<Rightarrow> pv_error reason
           | None \<Rightarrow> validate_loop packet pool seen' rs)"

definition validate_properties :: "PacketType \<Rightarrow> PropertyHandle \<Rightarrow> PropertyPool \<Rightarrow> PropertyValidationResult"
where
  "validate_properties packet props pool =
     (if \<not> props_valid pool props then pv_success
      else validate_loop packet pool [] (props_records pool props))"

section \<open>Parsing a property section\<close>

text \<open>
  One turn of the loop: the identifier, its value and the call that stores it. \<open>Inl\<close> is an error
  return (the caller releases the set), \<open>Inr\<close> the bytes that remain.
\<close>

definition stored :: "byte list \<Rightarrow> bool \<times> PropertyPool \<Rightarrow> (ReasonCode + byte list) \<times> PropertyPool" where
  "stored rest res = ((if fst res then Inr rest else Inl QuotaExceeded), snd res)"

definition parse_value ::
  "PropertyHandle \<Rightarrow> PropertyId \<Rightarrow> byte list \<Rightarrow> PropertyPool \<Rightarrow> (ReasonCode + byte list) \<times> PropertyPool"
where
  "parse_value h pid cur pool =
     (if pid \<in> set [PayloadFormatIndicator, RequestProblemInformation, RequestResponseInformation] then
        (if length cur < 1 then (Inl MalformedPacket, pool)
         else stored (drop 1 cur) (add_byte h pid (hd cur) pool))
      else if pid \<in> set [ReceiveMaximum, TopicAliasMaximum, TopicAlias] then
        (if length cur < 2 then (Inl MalformedPacket, pool)
         else stored (drop 2 cur) (add_u16 h pid (read_u16_be cur) pool))
      else if pid \<in> set [SessionExpiryInterval, MessageExpiryInterval, WillDelayInterval, MaximumPacketSize] then
        (if length cur < 4 then (Inl MalformedPacket, pool)
         else stored (drop 4 cur) (add_u32 h pid (read_u32_be cur) pool))
      else if pid = SubscriptionIdentifier then
        (let sid = varint_decode cur
         in if result sid \<noteq> Ok then (Inl MalformedPacket, pool)
            else stored (drop (bytes_consumed sid) cur) (add_varint h pid (vvalue sid) pool))
      else if pid \<in> set [ContentType, ResponseTopic, AuthenticationMethod, ReasonString] then
        (if length cur < 2 then (Inl MalformedPacket, pool)
         else let slen = unat (read_u16_be cur)
           in if length cur < 2 + slen then (Inl MalformedPacket, pool)
              else if \<not> utf8_valid (slice 2 slen cur) then (Inl ProtocolError, pool)
              else stored (drop (2 + slen) cur) (add_utf8 h pid (slice 2 slen cur) pool))
      else if pid \<in> set [CorrelationData, AuthenticationData] then
        (if length cur < 2 then (Inl MalformedPacket, pool)
         else let blen = unat (read_u16_be cur)
           in if length cur < 2 + blen then (Inl MalformedPacket, pool)
              else stored (drop (2 + blen) cur) (add_binary h pid (slice 2 blen cur) pool))
      else if pid = UserProperty then
        (if length cur < 2 then (Inl MalformedPacket, pool)
         else let klen = unat (read_u16_be cur)
           in if length cur < 2 + klen + 2 then (Inl MalformedPacket, pool)
              else let vlen = unat (read_u16_be (drop (2 + klen) cur))
                in if length cur < 4 + klen + vlen then (Inl MalformedPacket, pool)
                   else
                     let key = slice 2 klen cur; val = slice (4 + klen) vlen cur
                     in if \<not> utf8_valid key \<or> \<not> utf8_valid val then (Inl ProtocolError, pool)
                        else stored (drop (4 + klen + vlen) cur) (add_user_property h key val pool))
      else (Inl ProtocolError, pool))"

definition parse_property ::
  "PacketType \<Rightarrow> PropertyHandle \<Rightarrow> byte list \<Rightarrow> PropertyPool \<Rightarrow> (ReasonCode + byte list) \<times> PropertyPool"
where
  "parse_property packet h cur pool =
     (let id_dec = varint_decode cur
      in if result id_dec \<noteq> Ok then (Inl MalformedPacket, pool)
         else
           let cur' = drop (bytes_consumed id_dec) cur; pid = ucast (vvalue id_dec) :: PropertyId
           in if \<not> property_allowed packet pid then (Inl (reject_reason packet pid), pool)
              else parse_value h pid cur' pool)"

text \<open>Every turn consumes at least the identifier byte.\<close>

lemma parse_value_shorter:
  "fst (parse_value h pid cur pool) = Inr rest \<Longrightarrow> length rest \<le> length cur"
  unfolding parse_value_def stored_def Let_def by (auto split: if_splits)

lemma parse_property_shorter:
  assumes "fst (parse_property packet h cur pool) = Inr rest"
  shows "length rest < length cur"
proof -
  let ?d = "varint_decode cur"
  have ok: "result ?d = Ok"
    and r: "fst (parse_value h (ucast (vvalue ?d)) (drop (bytes_consumed ?d) cur) pool) = Inr rest"
    using assms by (auto simp: parse_property_def Let_def split: if_splits)
  from varint_decode_consumed [OF ok] parse_value_shorter [OF r] show ?thesis by (auto simp del: length_greater_0_conv)
qed

lemma parse_property_rest:
  "(Inr rest, pool') = parse_property packet h cur pool \<Longrightarrow> length rest < length cur"
  by (rule parse_property_shorter [of packet h cur pool]) (metis fst_conv)

function parse_loop ::
  "PacketType \<Rightarrow> PropertyHandle \<Rightarrow> byte list \<Rightarrow> PropertyPool \<Rightarrow> ReasonCode option \<times> PropertyPool"
where
  "parse_loop packet h cur pool =
     (if cur = [] then (None, pool)
      else case parse_property packet h cur pool of
          (Inl reason, pool') \<Rightarrow> (Some reason, props_release h pool')
        | (Inr rest, pool') \<Rightarrow> parse_loop packet h rest pool')"
  by pat_completeness auto
termination
  by (relation "measure (\<lambda>(packet, h, cur, pool). length cur)")
    (auto dest: parse_property_rest)

declare parse_loop.simps [simp del]

text \<open>The result and the handle written to \<open>out_handle\<close>.\<close>

definition parse_and_validate_properties ::
  "PacketType \<Rightarrow> byte list \<Rightarrow> PropertyPool
     \<Rightarrow> PropertyValidationResult \<times> PropertyHandle \<times> PropertyPool"
where
  "parse_and_validate_properties packet data pool =
     (if data = [] then (pv_success, NULL_PROPERTY, pool)
      else
        let prop_len = varint_decode data in
        if result prop_len \<noteq> Ok then (pv_error MalformedPacket, NULL_PROPERTY, pool)
        else if vvalue prop_len > kMaxPropertyBytes then (pv_error ProtocolError, NULL_PROPERTY, pool)
        else if bytes_consumed prop_len + unat (vvalue prop_len) > length data
          then (pv_error MalformedPacket, NULL_PROPERTY, pool)
        else
          let (h, pool1) = props_acquire pool in
          if \<not> props_valid pool1 h then (pv_error QuotaExceeded, NULL_PROPERTY, pool1)
          else
            case parse_loop packet h (slice (bytes_consumed prop_len) (unat (vvalue prop_len)) data) pool1 of
              (Some reason, pool2) \<Rightarrow> (pv_error reason, NULL_PROPERTY, pool2)
            | (None, pool2) \<Rightarrow>
                let res = validate_properties packet h pool2
                in if \<not> pv_ok res then (res, NULL_PROPERTY, props_release h pool2)
                   else (res, h, pool2))"


section \<open>Parsing keeps the pool consistent\<close>

lemma grows_snd:
  assumes "pp_inv p" and "props_valid p h"
  shows "grows h p (snd (add_value h pid kind data p))"
    and "grows h p (snd (add_user_property h key val p))"
  using add_value_grows [OF assms prod.collapse [symmetric]]
    add_user_property_grows [OF assms prod.collapse [symmetric]] by blast+

lemma snd_stored [simp]: "snd (stored rest res) = snd res"
  by (simp add: stored_def)

lemma parse_value_grows:
  assumes "pp_inv p" and "props_valid p h"
  shows "grows h p (snd (parse_value h pid cur p))"
  unfolding parse_value_def Let_def add_defs
  by (simp add: grows_refl grows_snd assms)

lemma parse_property_grows:
  assumes "pp_inv p" and "props_valid p h"
  shows "grows h p (snd (parse_property packet h cur p))"
  unfolding parse_property_def Let_def by (simp add: grows_refl parse_value_grows assms)

lemma grows_valid: "grows h p p' \<Longrightarrow> pp_inv p' \<and> (props_valid p' k \<longleftrightarrow> props_valid p k)"
  by (simp add: grows_def)

text \<open>The loop fills the set, or releases it.\<close>

lemma parse_loop_grows:
  assumes "pp_inv p" and "props_valid p h" and "parse_loop packet h cur p = (res, p')"
  shows "(case res of None \<Rightarrow> grows h p p' | Some _ \<Rightarrow> \<exists>q. grows h p q \<and> p' = props_release h q)"
  using assms
proof (induction "length cur" arbitrary: cur p rule: less_induct)
  case less
  show ?case
  proof (cases "cur = []")
    case True
    with less.prems show ?thesis by (subst (asm) parse_loop.simps) (auto simp: grows_refl)
  next
    case False
    obtain r q where pr: "parse_property packet h cur p = (r, q)"
      by (cases "parse_property packet h cur p")
    have g: "grows h p q"
      using parse_property_grows [OF less.prems(1,2), of packet cur] pr by simp
    show ?thesis
    proof (cases r)
      case (Inl reason)
      with less.prems(3) False pr g show ?thesis by (subst (asm) parse_loop.simps) auto
    next
      case (Inr rest)
      have "length rest < length cur"
        using pr Inr by (intro parse_property_rest [of rest q packet h cur p]) simp
      moreover have "parse_loop packet h rest q = (res, p')"
        using less.prems(3) False pr Inr by (subst (asm) parse_loop.simps) auto
      ultimately have "case res of None \<Rightarrow> grows h q p' | Some _ \<Rightarrow> \<exists>x. grows h q x \<and> p' = props_release h x"
        using less.hyps [of rest q] grows_valid [OF g, of h] less.prems(2) by simp
      with g show ?thesis by (cases res) (auto intro: grows_trans)
    qed
  qed
qed

lemma validate_loop_ok:
  "pv_ok (validate_loop packet pool seen rs) \<longleftrightarrow>
     (\<forall>r \<in> set rs. property_allowed packet (pr_id r) \<and> value_error pool r = None
        \<and> (single_occurrence (pr_id r) \<longrightarrow> pr_id r \<notin> set seen))
     \<and> distinct (filter single_occurrence (map pr_id rs))"
proof (induction rs arbitrary: seen)
  case Nil
  then show ?case by (simp add: pv_success_def)
next
  case (Cons r rs)
  have "pr_id r \<in> set (filter single_occurrence (map pr_id rs))
      \<longleftrightarrow> single_occurrence (pr_id r) \<and> (\<exists>x \<in> set rs. pr_id x = pr_id r)"
    by (auto intro: rev_image_eqI)
  with Cons.IH show ?case
    by (auto simp: pv_error_def Let_def split: option.splits)
qed

text \<open>The life of a new set: acquired, filled and perhaps released.\<close>

definition kept :: "PropertyPool \<Rightarrow> PropertyPool \<Rightarrow> bool" where
  "kept p p' \<longleftrightarrow> pp_inv p' \<and>
     (\<forall>k. props_valid p k \<longrightarrow> props_valid p' k \<and> props_records p' k = props_records p k
        \<and> (\<forall>r \<in> set (props_records p k). record_value p' r = record_value p r \<and> record_key p' r = record_key p r))"

lemma new_set_kept:
  assumes inv: "pp_inv p" and a: "props_acquire p = (h, p1)" and v: "props_valid p1 h" and g: "grows h p1 p2"
  shows "kept p p2" and "kept p (props_release h p2)" and "props_valid p2 h" and "\<not> props_valid p h"
    and "length (filter ps_in_use (pp_slots p2)) = length (filter ps_in_use (pp_slots p)) + 1"
    and "length (filter ps_in_use (pp_slots (props_release h p2))) = length (filter ps_in_use (pp_slots p))"
proof -
  note ae = props_acquire_effect [OF inv a v]
  show nv: "\<not> props_valid p h" by (rule ae(3))
  have i2: "pp_inv p2" and v2: "props_valid p2 h" using g v by (simp_all add: grows_def)
  show "props_valid p2 h" by fact
  show n2: "length (filter ps_in_use (pp_slots p2)) = length (filter ps_in_use (pp_slots p)) + 1"
    using ae(5) g by (simp add: grows_def)
  show "length (filter ps_in_use (pp_slots (props_release h p2))) = length (filter ps_in_use (pp_slots p))"
    using props_release_effect(4) [OF i2, of h] v2 n2 by simp
  have vals1: "record_value p1 r = record_value p r" "record_key p1 r = record_key p r" for r
    using ae(6) by (simp_all add: record_value_def record_key_def)
  have vals3: "record_value (props_release h p2) r = record_value p2 r"
    "record_key (props_release h p2) r = record_key p2 r" for r
    using props_release_effect(5) [OF i2, of h] by (simp_all add: record_value_def record_key_def)
  have old: "k \<noteq> h \<and> props_valid p2 k \<and> props_records p2 k = props_records p k
      \<and> (\<forall>r \<in> set (props_records p k). record_value p2 r = record_value p r \<and> record_key p2 r = record_key p r)"
    if "props_valid p k" for k
  proof -
    have ne: "k \<noteq> h" using nv that by auto
    have "props_valid p1 k" "props_records p1 k = props_records p k" using ae(4) [OF ne] that by auto
    with ne g vals1 show ?thesis unfolding grows_def by metis
  qed
  with i2 show "kept p p2" by (simp add: kept_def)
  show "kept p (props_release h p2)"
    using old props_release_effect(1,3) [OF i2] vals3 by (simp add: kept_def)
qed

lemma props_acquire_invalid:
  assumes "pp_inv p" and "props_acquire p = (h, p')"
  shows "\<not> props_valid p' h \<longrightarrow> p' = p"
proof (cases "first_idx (\<lambda>s. \<not> ps_in_use s) (pp_slots p)")
  case None
  with assms(2) show ?thesis by (simp add: props_acquire_def)
next
  case (Some i)
  then have "i < length (pp_slots p)" by auto
  then have i: "i < length (pp_slots p)" "i < 65535" using assms(1) by (auto simp: pp_inv_def)
  then have "unat (of_nat i :: u16) = i" "(of_nat i :: u16) \<noteq> nil16"
    by (simp add: unat_of_nat_u16) (rule of_nat_u16_nil [OF i(2)])
  with Some i assms(2) show ?thesis
    by (auto simp: props_acquire_def props_valid_def)
qed

lemma parse_section:
  assumes "pp_inv p" and "parse_and_validate_properties packet data p = (vr, h, p')"
  shows "kept p p'
    \<and> (if pv_ok vr then data = [] \<and> h = NULL_PROPERTY \<and> p' = p
         \<or> props_valid p' h \<and> \<not> props_valid p h
           \<and> length (filter ps_in_use (pp_slots p')) = length (filter ps_in_use (pp_slots p)) + 1
           \<and> (\<forall>r \<in> set (props_records p' h). property_allowed packet (pr_id r) \<and> value_error p' r = None)
           \<and> distinct (filter single_occurrence (map pr_id (props_records p' h)))
       else h = NULL_PROPERTY
         \<and> length (filter ps_in_use (pp_slots p')) = length (filter ps_in_use (pp_slots p)))"
proof (cases "data = [] \<or> h = NULL_PROPERTY \<and> \<not> pv_ok vr \<and> p' = p")
  case True
  with assms show ?thesis by (auto simp: parse_and_validate_properties_def pv_success_def kept_def)
next
  case False
  let ?d = "varint_decode data"
  obtain h1 p1 where acq: "props_acquire p = (h1, p1)" by (cases "props_acquire p")
  have v: "props_valid p1 h1" and r: "(case parse_loop packet h1 (slice (bytes_consumed ?d) (unat (vvalue ?d)) data) p1 of
        (Some reason, pool2) \<Rightarrow> (pv_error reason, NULL_PROPERTY, pool2)
      | (None, pool2) \<Rightarrow>
          let res = validate_properties packet h1 pool2
          in if \<not> pv_ok res then (res, NULL_PROPERTY, props_release h1 pool2) else (res, h1, pool2)) = (vr, h, p')"
    using assms(2) False acq props_acquire_invalid [OF assms(1) acq]
    by (auto simp: parse_and_validate_properties_def Let_def pv_error_def split: if_splits)
  obtain res p2 where pl: "parse_loop packet h1 (slice (bytes_consumed ?d) (unat (vvalue ?d)) data) p1 = (res, p2)"
    by fastforce
  note g = parse_loop_grows [OF props_acquire_effect(1) [OF assms(1) acq v] v pl]
  show ?thesis
  proof (cases res)
    case (Some reason)
    with g obtain q where q: "grows h1 p1 q" "p2 = props_release h1 q" by auto
    note n = new_set_kept [OF assms(1) acq v q(1)]
    from r pl Some have "p' = p2" "h = NULL_PROPERTY" "\<not> pv_ok vr" by (auto simp: pv_error_def)
    with n q(2) show ?thesis by simp
  next
    case None
    with g have g': "grows h1 p1 p2" by simp
    note n = new_set_kept [OF assms(1) acq v g']
    show ?thesis
    proof (cases "pv_ok (validate_properties packet h1 p2)")
      case True
      with r pl None have e: "vr = validate_properties packet h1 p2" "h = h1" "p' = p2"
        by (auto simp: Let_def)
      with True n(3) have "pv_ok (validate_loop packet p2 [] (props_records p2 h1))"
        by (simp add: validate_properties_def)
      then have "(\<forall>r \<in> set (props_records p2 h1). property_allowed packet (pr_id r) \<and> value_error p2 r = None)
          \<and> distinct (filter single_occurrence (map pr_id (props_records p2 h1)))"
        unfolding validate_loop_ok by blast
      with n True show ?thesis by (simp add: e)
    next
      case nok: False
      with r pl None have "p' = props_release h1 p2" "h = NULL_PROPERTY" "vr = validate_properties packet h1 p2"
        by (auto simp: Let_def)
      with n nok show ?thesis by simp
    qed
  qed
qed

lemma parse_properties_inv:
  "pp_inv p \<Longrightarrow> parse_and_validate_properties packet data p = (vr, h, p') \<Longrightarrow> pp_inv p'"
  using parse_section [of p packet data vr h p'] by (simp add: kept_def)

text \<open>Claim C31. Property sections: parsing one on a consistent pool leaves every property set that
  was live before intact (records and values). When the section is accepted, the result is a fresh
  set (or the null handle for an empty buffer) in which every record is allowed for the packet
  type, no single-occurrence property is repeated and every value passed its check (UTF-8, nonzero
  Receive Maximum, zero Topic Alias); when it is refused, the handle is null and no set is left
  allocated.\<close>

theorem property_section_outcome:
  assumes "pp_inv p" and "parse_and_validate_properties packet data p = (vr, h, p')"
  shows "pp_inv p'
    \<and> (\<forall>k. props_valid p k \<longrightarrow> props_valid p' k \<and> props_records p' k = props_records p k
         \<and> (\<forall>r \<in> set (props_records p k). record_value p' r = record_value p r \<and> record_key p' r = record_key p r))
    \<and> (if pv_ok vr then data = [] \<and> h = NULL_PROPERTY \<and> p' = p
         \<or> props_valid p' h \<and> \<not> props_valid p h
           \<and> length (filter ps_in_use (pp_slots p')) = length (filter ps_in_use (pp_slots p)) + 1
           \<and> (\<forall>r \<in> set (props_records p' h). property_allowed packet (pr_id r) \<and> value_error p' r = None)
           \<and> distinct (filter single_occurrence (map pr_id (props_records p' h)))
       else h = NULL_PROPERTY
         \<and> length (filter ps_in_use (pp_slots p')) = length (filter ps_in_use (pp_slots p)))"
  using parse_section [OF assms] unfolding kept_def by blast

theorem property_section_outcome_witness:
  "\<exists>vr h p'. parse_and_validate_properties Publish [0] (PropertyPool_new 2 16) = (vr, h, p')
     \<and> pv_ok vr \<and> props_valid p' h"
proof -
  obtain vr h p' where r: "parse_and_validate_properties Publish [0] (PropertyPool_new 2 16) = (vr, h, p')"
    by (cases "parse_and_validate_properties Publish [0] (PropertyPool_new 2 16)") auto
  have ok: "pv_ok (fst (parse_and_validate_properties Publish [0] (PropertyPool_new 2 16)))"
    by code_simp
  have "pp_inv (PropertyPool_new 2 16)" by (rule pp_inv_new) simp_all
  from property_section_outcome [OF this r] ok r show ?thesis by simp
qed

section \<open>Blob space\<close>

lemma parse_and_validate_bytes:
  assumes inv: "pp_inv p" and r: "parse_and_validate_properties packet data p = (vr, h, p')"
  shows "pp_bytes_used p \<le> pp_bytes_used p'"
proof (cases "p' = p")
  case False
  let ?d = "varint_decode data"
  obtain h1 p1 where acq: "props_acquire p = (h1, p1)" by (cases "props_acquire p")
  obtain res p2 where pl: "parse_loop packet h1 (slice (bytes_consumed ?d) (unat (vvalue ?d)) data) p1 = (res, p2)"
    by fastforce
  have v: "props_valid p1 h1" and e: "p' = p2 \<or> p' = props_release h1 p2"
    using r False acq pl props_acquire_invalid [OF inv acq]
    by (auto simp: parse_and_validate_properties_def Let_def split: if_splits option.splits)
  note a = props_acquire_effect [OF inv acq v]
  from parse_loop_grows [OF a(1) v pl] have "pp_bytes_used p1 \<le> pp_bytes_used p2"
    by (cases res) (auto simp: grows_def props_release_def)
  with e a(7) show ?thesis by (auto simp: props_release_def)
qed simp

lemma connect_expiry_section:
  "varint_decode (5 # x) = \<lparr>result = Ok, vvalue = 5, bytes_consumed = 1\<rparr>"
  "varint_decode (0x11 # x) = \<lparr>result = Ok, vvalue = 0x11, bytes_consumed = 1\<rparr>"
  by (simp_all add: varint_decode_def varint_decode_loop.simps)



section \<open>UTF-8\<close>

text \<open>RFC 3629: the encoding of a Unicode scalar value.\<close>

definition scalar_value :: "nat \<Rightarrow> bool" where
  "scalar_value c \<longleftrightarrow> c < 0x110000 \<and> \<not> (0xD800 \<le> c \<and> c < 0xE000)"

definition utf8_encode :: "nat \<Rightarrow> byte list" where
  "utf8_encode c =
     (if c < 0x80 then [of_nat c]
      else if c < 0x800 then [of_nat (0xC0 + c div 64), of_nat (0x80 + c mod 64)]
      else if c < 0x10000 then
        [of_nat (0xE0 + c div 4096), of_nat (0x80 + c div 64 mod 64), of_nat (0x80 + c mod 64)]
      else [of_nat (0xF0 + c div 262144), of_nat (0x80 + c div 4096 mod 64),
            of_nat (0x80 + c div 64 mod 64), of_nat (0x80 + c mod 64)])"

lemma cont_byte_encoded: "n < 64 \<Longrightarrow> is_cont_byte (of_nat (0x80 + n))"
proof -
  have "list_all (\<lambda>n. is_cont_byte (of_nat (0x80 + n))) [0..<64]" by code_simp
  then show "n < 64 \<Longrightarrow> is_cont_byte (of_nat (0x80 + n))" by (simp add: list_all_iff)
qed

lemma byte_le_iff: "a < 256 \<Longrightarrow> b < 256 \<Longrightarrow> (of_nat a :: byte) \<le> of_nat b \<longleftrightarrow> a \<le> b"
  by (simp add: word_le_nat_alt unat_of_nat_u8)

lemma utf8_valid_encode: "scalar_value c \<Longrightarrow> utf8_valid (utf8_encode c @ rest) = utf8_valid rest"
proof -
  assume c: "scalar_value c"
  have le: "(of_nat a :: byte) \<le> 0x7F \<longleftrightarrow> a \<le> 0x7F" "0xC2 \<le> (of_nat a :: byte) \<longleftrightarrow> 0xC2 \<le> a"
    "(of_nat a :: byte) \<le> 0xDF \<longleftrightarrow> a \<le> 0xDF" "0xE0 \<le> (of_nat a :: byte) \<longleftrightarrow> 0xE0 \<le> a"
    "(of_nat a :: byte) \<le> 0xEF \<longleftrightarrow> a \<le> 0xEF" "0xF0 \<le> (of_nat a :: byte) \<longleftrightarrow> 0xF0 \<le> a"
    "(of_nat a :: byte) \<le> 0xF4 \<longleftrightarrow> a \<le> 0xF4" if "a < 256" for a
    using byte_le_iff [OF that, of "0x7F"] byte_le_iff [of "0xC2" a, OF _ that] byte_le_iff [OF that, of "0xDF"]
      byte_le_iff [of "0xE0" a, OF _ that] byte_le_iff [OF that, of "0xEF"]
      byte_le_iff [of "0xF0" a, OF _ that] byte_le_iff [OF that, of "0xF4"] by simp_all
  note cb = cont_byte_encoded [of "c mod 64"] cont_byte_encoded [of "c div 64 mod 64"]
    cont_byte_encoded [of "c div 4096 mod 64"]
  consider "c < 0x80" | "0x80 \<le> c" "c < 0x800" | "0x800 \<le> c" "c < 0x10000" | "0x10000 \<le> c" "c < 0x110000"
    using c unfolding scalar_value_def by linarith
  then show ?thesis
  proof cases
    case 1
    then show ?thesis using le [of c] by (simp add: utf8_encode_def)
  next
    case 2
    then have "2 \<le> c div 64" "c div 64 < 32" by (auto simp: less_eq_div_iff_mult_less_eq div_less_iff_less_mult)
    with 2 cb le [of "0xC0 + c div 64"] show ?thesis by (simp add: utf8_encode_def cont_bytes_def del: of_nat_add)
  next
    case 3
    then have "c div 4096 < 16" by (auto simp: div_less_iff_less_mult)
    with 3 cb le [of "0xE0 + c div 4096"] show ?thesis
      by (simp add: utf8_encode_def cont_bytes_def numeral_2_eq_2 del: of_nat_add)
  next
    case 4
    then have "c div 262144 < 5" by (auto simp: div_less_iff_less_mult)
    with 4 cb le [of "0xF0 + c div 262144"] show ?thesis
      by (simp add: utf8_encode_def cont_bytes_def numeral_3_eq_3 del: of_nat_add)
  qed
qed

text \<open>The UTF-8 check accepts every well-formed string: the concatenated encodings of any
  Unicode scalar values pass. It is no complete check, though: overlong three- and four-byte forms,
  the encodings of surrogates and code points above U+10FFFF pass as well, although the header
  promises to reject them.\<close>

theorem utf8_check_accepts:
  assumes "list_all scalar_value cs"
  shows "utf8_valid (concat (map utf8_encode cs))
    \<and> utf8_valid [0xE0, 0x80, 0x80] \<and> utf8_valid [0xF0, 0x80, 0x80, 0x80]
    \<and> utf8_valid [0xED, 0xA0, 0x80] \<and> utf8_valid [0xF4, 0x90, 0x80, 0x80]"
proof -
  have "utf8_valid (concat (map utf8_encode cs))"
    using assms by (induction cs) (simp_all add: utf8_valid_encode)
  then show ?thesis
    by (simp add: cont_bytes_def is_cont_byte_def)
qed

theorem utf8_check_accepts_witness:
  "list_all scalar_value [0x41, 0xE9, 0x20AC, 0x1F600]
   \<and> utf8_valid (concat (map utf8_encode [0x41, 0xE9, 0x20AC, 0x1F600]))"
proof -
  have "list_all scalar_value [0x41, 0xE9, 0x20AC, 0x1F600]" by (simp add: scalar_value_def)
  with utf8_check_accepts [of "[0x41, 0xE9, 0x20AC, 0x1F600]"] show ?thesis by simp
qed

end
