(* ===== verification/Packet_Parser.thy ===== *)
theory Packet_Parser
  imports Message_Pool_Inv Property_Rules Topic_Names
begin

text \<open>
  The incremental packet parser (\<open>parser.cpp\<close>): a state machine that consumes one byte at a time.
  The state is the parser with the two pools it writes to; one definition per phase of the
  \<open>switch\<close> in \<open>consume_byte\<close>, split by packet type where the code is. The parser's pool pointers
  are never null in the broker and their tests are dropped.

  A character buffer that is filled with \<open>memcpy\<close> and then only read as a C string is the string
  the reader sees (\<open>cstr\<close>). The staging buffers \<open>rl_buf_\<close> and \<open>control_buf_\<close> are the lists of the
  bytes stored in them; that they never outgrow their arrays is a property below.
\<close>

section \<open>State\<close>

definition kMaxSubscribeEntries :: nat where "kMaxSubscribeEntries = 8"
definition kMaxUsernameLen :: nat where "kMaxUsernameLen = 64"
definition kMaxPasswordLen :: nat where "kMaxPasswordLen = 64"
definition kControlBufSize :: nat where "kControlBufSize = 1024"

datatype ParsePhase =
    Idle | FixedHeader | RemainingLength | VariableHeader | Properties | Payload | Complete | Error

record ParserLimits =
  pl_max_packet_bytes :: u32
  pl_max_topic_bytes :: u16
  pl_control_buffer_bytes :: u16

record ParsedSubscribeEntry =
  sub_filter :: "byte list"
  sub_options_byte :: u8

record ParsedPacket =
  pk_type :: PacketType
  pk_flags :: u8
  pk_remaining_length :: u32
  pk_topic :: "byte list"
  pk_packet_id :: u16
  pk_ack_reason_code :: u8
  pk_qos :: u8
  pk_retain :: bool
  pk_dup :: bool
  pk_payload :: MessageHandle
  pk_properties :: PropertyHandle
  pk_payload_len :: nat
  pk_client_id :: "byte list"
  pk_protocol_name :: "byte list"
  pk_protocol_level :: u8
  pk_connect_flags :: u8
  pk_keep_alive :: u16
  pk_clean_start :: bool
  pk_client_max_packet_size :: u32
  pk_client_receive_maximum :: u16
  pk_session_expiry_interval :: u32
  pk_will_delay_interval :: u32
  pk_disconnect_session_expiry :: u32
  pk_disconnect_reason :: u8
  pk_has_username :: bool
  pk_has_password :: bool
  pk_username :: "byte list"
  pk_password :: "byte list"
  pk_will_flag :: bool
  pk_will_qos :: u8
  pk_will_retain :: bool
  pk_will_topic :: "byte list"
  pk_will_payload :: MessageHandle
  pk_will_payload_len :: nat
  pk_will_properties :: PropertyHandle
  pk_subscribe_entries :: "ParsedSubscribeEntry list"

record PacketParser =
  pa_limits :: ParserLimits
  pa_phase :: ParsePhase
  pa_error_reason :: ReasonCode
  pa_fixed_header :: u8
  pa_remaining_total :: u32
  pa_remaining_consumed :: u32
  pa_rl_buf :: "byte list"
  pa_control_buf :: "byte list"
  pa_control_target :: nat
  pa_property_section_len :: u32
  pa_property_len_known :: bool
  pa_packet :: ParsedPacket
  pa_active_payload :: MessageHandle
  pa_protocol_level :: u8

type_synonym parser_state = "PacketParser \<times> MessagePool \<times> PropertyPool"

text \<open>\<open>packet_ = {}\<close> and the four null handles.\<close>

definition packet_init :: ParsedPacket where
  "packet_init = \<lparr>pk_type = Reserved, pk_flags = 0, pk_remaining_length = 0, pk_topic = [],
     pk_packet_id = 0, pk_ack_reason_code = 0, pk_qos = 0, pk_retain = False, pk_dup = False,
     pk_payload = NULL_MESSAGE, pk_properties = NULL_PROPERTY, pk_payload_len = 0,
     pk_client_id = [], pk_protocol_name = [], pk_protocol_level = 0, pk_connect_flags = 0,
     pk_keep_alive = 0, pk_clean_start = False, pk_client_max_packet_size = 0,
     pk_client_receive_maximum = 0, pk_session_expiry_interval = 0, pk_will_delay_interval = 0,
     pk_disconnect_session_expiry = 0, pk_disconnect_reason = 0, pk_has_username = False,
     pk_has_password = False, pk_username = [], pk_password = [], pk_will_flag = False,
     pk_will_qos = 0, pk_will_retain = False, pk_will_topic = [], pk_will_payload = NULL_MESSAGE,
     pk_will_payload_len = 0, pk_will_properties = NULL_PROPERTY, pk_subscribe_entries = []\<rparr>"

definition parser_reset :: "PacketParser \<Rightarrow> PacketParser" where
  "parser_reset p = p\<lparr>pa_phase := Idle, pa_error_reason := Success, pa_fixed_header := 0,
     pa_remaining_total := 0, pa_remaining_consumed := 0, pa_rl_buf := [], pa_control_buf := [],
     pa_control_target := 0, pa_property_section_len := 0, pa_property_len_known := False,
     pa_active_payload := NULL_MESSAGE, pa_packet := packet_init\<rparr>"

definition PacketParser_new :: "ParserLimits \<Rightarrow> PacketParser" where
  "PacketParser_new limits =
     parser_reset \<lparr>pa_limits = (if unat (pl_control_buffer_bytes limits) > kControlBufSize
          then limits\<lparr>pl_control_buffer_bytes := of_nat kControlBufSize\<rparr> else limits),
        pa_phase = Idle, pa_error_reason = Success, pa_fixed_header = 0, pa_remaining_total = 0,
        pa_remaining_consumed = 0, pa_rl_buf = [], pa_control_buf = [], pa_control_target = 0,
        pa_property_section_len = 0, pa_property_len_known = False, pa_packet = packet_init,
        pa_active_payload = NULL_MESSAGE, pa_protocol_level = 5\<rparr>"

definition reset_protocol_level :: "PacketParser \<Rightarrow> PacketParser" where
  "reset_protocol_level p = p\<lparr>pa_protocol_level := 5\<rparr>"

definition enter_error :: "ReasonCode \<Rightarrow> parser_state \<Rightarrow> parser_state" where
  "enter_error reason st =
     (let (p, mp, pp) = st;
          p = p\<lparr>pa_phase := Error, pa_error_reason := reason\<rparr>;
          (p, mp) = (if message_handle_valid (pa_active_payload p)
             then (p\<lparr>pa_active_payload := NULL_MESSAGE\<rparr>, msg_release (pa_active_payload p) mp)
             else (p, mp));
          (p, pp) = (if props_valid pp (pk_properties (pa_packet p))
             then (p\<lparr>pa_packet := (pa_packet p)\<lparr>pk_properties := NULL_PROPERTY\<rparr>\<rparr>,
                   props_release (pk_properties (pa_packet p)) pp)
             else (p, pp));
          (p, pp) = (if props_valid pp (pk_will_properties (pa_packet p))
             then (p\<lparr>pa_packet := (pa_packet p)\<lparr>pk_will_properties := NULL_PROPERTY\<rparr>\<rparr>,
                   props_release (pk_will_properties (pa_packet p)) pp)
             else (p, pp));
          (p, mp) = (if msg_valid mp (pk_will_payload (pa_packet p))
             then (p\<lparr>pa_packet := (pa_packet p)\<lparr>pk_will_payload := NULL_MESSAGE\<rparr>\<rparr>,
                   msg_release (pk_will_payload (pa_packet p)) mp)
             else (p, mp))
      in (p, mp, pp))"

section \<open>Decoding the staged bytes\<close>

text \<open>\<open>None\<close> is \<open>return false\<close>; the fields already written are then dead.\<close>

definition parse_connect_variable_header :: "byte list \<Rightarrow> ParsedPacket \<Rightarrow> bool \<times> ParsedPacket" where
  "parse_connect_variable_header buf pkt =
     (if length buf < 6 then (False, pkt)
      else
        let plen = unat (read_u16_be buf)
        in if plen = 0 \<or> 2 + plen + 4 > length buf \<or> plen \<ge> 16 then (False, pkt)
           else
             let flags = buf ! (2 + plen + 1);
                 pkt' = pkt\<lparr>pk_protocol_name := cstr (slice 2 plen buf),
                   pk_protocol_level := buf ! (2 + plen), pk_connect_flags := flags,
                   pk_keep_alive := read_u16_be (drop (2 + plen + 2) buf),
                   pk_clean_start := (flags AND 0x02 \<noteq> 0)\<rparr>
             in (pk_protocol_name pkt' = ascii ''MQTT''
                 \<and> (pk_protocol_level pkt' = 4 \<or> pk_protocol_level pkt' = 5), pkt'))"

text \<open>The will section from offset \<open>off\<close>: the result, the offset behind it and the new state.\<close>

definition parse_will_properties ::
  "byte list \<Rightarrow> nat \<Rightarrow> ParsedPacket \<Rightarrow> PropertyPool \<Rightarrow> bool \<times> nat \<times> ParsedPacket \<times> PropertyPool"
where
  "parse_will_properties buf off pkt pp =
     (if pk_protocol_level pkt \<ge> 5 then
        let prop_len = varint_decode (drop off buf) in
        if result prop_len \<noteq> Ok then (False, off, pkt, pp)
        else
          let n = bytes_consumed prop_len + unat (vvalue prop_len) in
          if off + n > length buf then (False, off, pkt, pp)
          else if vvalue prop_len > 0 then
            (case parse_and_validate_properties Connect (slice off n buf) pp of
               (vr, h, pp') \<Rightarrow>
                 if \<not> pv_ok vr then (False, off, pkt\<lparr>pk_will_properties := h\<rparr>, pp')
                 else (True, off + n, pkt\<lparr>pk_will_properties := h\<rparr>, pp'))
          else (True, off + n, pkt, pp)
      else (True, off, pkt, pp))"

definition parse_will_payload ::
  "byte list \<Rightarrow> nat \<Rightarrow> ParsedPacket \<Rightarrow> MessagePool \<Rightarrow> bool \<times> nat \<times> ParsedPacket \<times> MessagePool"
where
  "parse_will_payload buf off pkt mp =
     (if off + 2 > length buf then (False, off, pkt, mp)
      else
        let payload_len = unat (read_u16_be (drop off buf)); off = off + 2 in
        if off + payload_len > length buf then (False, off, pkt, mp)
        else if payload_len > 0 then
          (let (h, mp1) = acquire_empty mp; pkt1 = pkt\<lparr>pk_will_payload := h\<rparr>
           in if \<not> message_handle_valid h then (False, off, pkt1, mp1)
              else
                let (ok, mp2) = append_payload h (slice off payload_len buf) mp1
                in if \<not> ok then (False, off, pkt1\<lparr>pk_will_payload := NULL_MESSAGE\<rparr>, msg_release h mp2)
                   else (True, off + payload_len, pkt1\<lparr>pk_will_payload_len := payload_len\<rparr>, mp2))
        else (True, off + payload_len, pkt\<lparr>pk_will_payload_len := payload_len\<rparr>, mp))"

definition parse_connect_will_section ::
  "byte list \<Rightarrow> nat \<Rightarrow> ParsedPacket \<Rightarrow> MessagePool \<Rightarrow> PropertyPool
     \<Rightarrow> bool \<times> nat \<times> ParsedPacket \<times> MessagePool \<times> PropertyPool"
where
  "parse_connect_will_section buf off pkt mp pp =
     (if pk_connect_flags pkt AND 0x04 = 0 then (True, off, pkt, mp, pp)
      else if off > length buf then (False, off, pkt, mp, pp)
      else
        let pkt0 = pkt\<lparr>pk_will_flag := True,
              pk_will_qos := drop_bit 3 (pk_connect_flags pkt) AND 0x03,
              pk_will_retain := (pk_connect_flags pkt AND 0x20 \<noteq> 0)\<rparr>;
            (ok, off, pkt1, pp1) = parse_will_properties buf off pkt0 pp
        in if \<not> ok then (False, off, pkt1, mp, pp1)
           else if off + 2 > length buf then (False, off, pkt1, mp, pp1)
           else
             let topic_len = unat (read_u16_be (drop off buf)); off = off + 2
             in if off + topic_len > length buf \<or> topic_len = 0 \<or> topic_len \<ge> 256
                then (False, off, pkt1, mp, pp1)
                else
                  let pkt2 = pkt1\<lparr>pk_will_topic := cstr (slice off topic_len buf)\<rparr>;
                      off = off + topic_len
                  in if \<not> topic_valid (pk_will_topic pkt2) then (False, off, pkt2, mp, pp1)
                     else
                       let (ok, off, pkt3, mp1) = parse_will_payload buf off pkt2 mp
                       in (ok, off, pkt3, mp1, pp1))"

text \<open>User name and password: a length-prefixed field that is present when its flag bit is set.\<close>

definition parse_username :: "byte list \<Rightarrow> nat \<Rightarrow> ParsedPacket \<Rightarrow> bool \<times> nat \<times> ParsedPacket" where
  "parse_username buf off pkt =
     (if pk_connect_flags pkt AND 0x80 = 0 then (True, off, pkt)
      else if off + 2 > length buf then (False, off, pkt)
      else
        let ulen = unat (read_u16_be (drop off buf)); off = off + 2
        in if off + ulen > length buf then (False, off, pkt)
           else (True, off + ulen, pkt\<lparr>pk_has_username := True,
                   pk_username := (if ulen < kMaxUsernameLen then cstr (slice off ulen buf)
                                   else pk_username pkt)\<rparr>))"

definition parse_password :: "byte list \<Rightarrow> nat \<Rightarrow> ParsedPacket \<Rightarrow> bool \<times> nat \<times> ParsedPacket" where
  "parse_password buf off pkt =
     (if pk_connect_flags pkt AND 0x40 = 0 then (True, off, pkt)
      else if off + 2 > length buf then (False, off, pkt)
      else
        let plen = unat (read_u16_be (drop off buf)); off = off + 2
        in if off + plen > length buf then (False, off, pkt)
           else (True, off + plen, pkt\<lparr>pk_has_password := True,
                   pk_password := (if plen \<le> kMaxPasswordLen then slice off plen buf
                                   else pk_password pkt)\<rparr>))"

definition parse_connect_payload ::
  "byte list \<Rightarrow> ParsedPacket \<Rightarrow> MessagePool \<Rightarrow> PropertyPool
     \<Rightarrow> bool \<times> ParsedPacket \<times> MessagePool \<times> PropertyPool"
where
  "parse_connect_payload buf pkt mp pp =
     (if length buf < 2 then (False, pkt, mp, pp)
      else
        let pkt0 = pkt\<lparr>pk_will_flag := False, pk_will_qos := 0, pk_will_retain := False,
              pk_will_topic := [], pk_will_payload := NULL_MESSAGE, pk_will_payload_len := 0,
              pk_will_properties := NULL_PROPERTY, pk_has_username := False,
              pk_has_password := False, pk_username := [], pk_password := []\<rparr>;
            cid_len = unat (read_u16_be buf)
        in if 2 + cid_len > length buf \<or> cid_len \<ge> 256 then (False, pkt0, mp, pp)
           else
             let pkt1 = pkt0\<lparr>pk_client_id := cstr (slice 2 cid_len buf)\<rparr>;
                 (ok, off, pkt2, mp1, pp1) = parse_connect_will_section buf (2 + cid_len) pkt1 mp pp
             in if \<not> ok then (False, pkt2, mp1, pp1)
                else
                  let (ok, off, pkt3) = parse_username buf off pkt2
                  in if \<not> ok then (False, pkt3, mp1, pp1)
                     else
                       let (ok, off, pkt4) = parse_password buf off pkt3
                       in if \<not> ok then (False, pkt4, mp1, pp1)
                          else (off = length buf, pkt4, mp1, pp1))"

text \<open>
  The two list parsers: \<open>None\<close> is \<open>return false\<close> inside the loop, otherwise the entries read and
  the bytes left when the loop stops (fewer than a minimal entry, or eight entries read).
\<close>

function parse_subscribe_loop ::
  "byte list \<Rightarrow> ParsedSubscribeEntry list \<Rightarrow> (ParsedSubscribeEntry list \<times> byte list) option"
where
  "parse_subscribe_loop buf acc =
     (if 3 \<le> length buf \<and> length acc < kMaxSubscribeEntries then
        let flen = unat (read_u16_be buf) in
        if 2 + flen + 1 > length buf \<or> flen \<ge> 256 then None
        else parse_subscribe_loop (drop (2 + flen + 1) buf)
               (acc @ [\<lparr>sub_filter = cstr (slice 2 flen buf), sub_options_byte = buf ! (2 + flen)\<rparr>])
      else Some (acc, buf))"
  by pat_completeness auto
termination by (relation "measure (\<lambda>(buf, acc). length buf)") auto

function parse_unsubscribe_loop ::
  "byte list \<Rightarrow> ParsedSubscribeEntry list \<Rightarrow> (ParsedSubscribeEntry list \<times> byte list) option"
where
  "parse_unsubscribe_loop buf acc =
     (if 2 \<le> length buf \<and> length acc < kMaxSubscribeEntries then
        let flen = unat (read_u16_be buf) in
        if 2 + flen > length buf \<or> flen \<ge> 256 then None
        else parse_unsubscribe_loop (drop (2 + flen) buf)
               (acc @ [\<lparr>sub_filter = cstr (slice 2 flen buf), sub_options_byte = 0\<rparr>])
      else Some (acc, buf))"
  by pat_completeness auto
termination by (relation "measure (\<lambda>(buf, acc). length buf)") auto

declare parse_subscribe_loop.simps [simp del] parse_unsubscribe_loop.simps [simp del]

text \<open>When the parse fails the entries are not read again.\<close>

definition parse_subscribe_payload :: "byte list \<Rightarrow> ParsedPacket \<Rightarrow> bool \<times> ParsedPacket" where
  "parse_subscribe_payload buf pkt =
     (case parse_subscribe_loop buf [] of
        None \<Rightarrow> (False, pkt\<lparr>pk_subscribe_entries := []\<rparr>)
      | Some (es, rest) \<Rightarrow> (rest = [] \<and> es \<noteq> [], pkt\<lparr>pk_subscribe_entries := es\<rparr>))"

definition parse_unsubscribe_payload :: "byte list \<Rightarrow> ParsedPacket \<Rightarrow> bool \<times> ParsedPacket" where
  "parse_unsubscribe_payload buf pkt =
     (case parse_unsubscribe_loop buf [] of
        None \<Rightarrow> (False, pkt\<lparr>pk_subscribe_entries := []\<rparr>)
      | Some (es, rest) \<Rightarrow> (rest = [] \<and> es \<noteq> [], pkt\<lparr>pk_subscribe_entries := es\<rparr>))"

definition blob_at :: "PropertyPool \<Rightarrow> PropertyRecord \<Rightarrow> byte list" where
  "blob_at pool r = drop (unat (pr_offset r)) (pp_blob pool)"

definition extract_connect_limits :: "BrokerLimits \<Rightarrow> PropertyPool \<Rightarrow> ParsedPacket \<Rightarrow> ParsedPacket" where
  "extract_connect_limits L pool pkt =
     fold (\<lambda>r pkt.
         if pr_id r = MaximumPacketSize \<and> pr_kind r = KU32
         then pkt\<lparr>pk_client_max_packet_size := read_u32_be (blob_at pool r)\<rparr>
         else if pr_id r = ReceiveMaximum \<and> pr_kind r = KU16
         then pkt\<lparr>pk_client_receive_maximum := read_u16_be (blob_at pool r)\<rparr>
         else if pr_id r = SessionExpiryInterval \<and> pr_kind r = KU32
         then pkt\<lparr>pk_session_expiry_interval := read_u32_be (blob_at pool r)\<rparr>
         else if pr_id r = WillDelayInterval \<and> pr_kind r = KU32
         then pkt\<lparr>pk_will_delay_interval := read_u32_be (blob_at pool r)\<rparr>
         else pkt)
       (props_records pool (pk_properties pkt))
       (pkt\<lparr>pk_client_max_packet_size := ConnackCaps_MaximumPacketSize L,
            pk_client_receive_maximum := ConnackCaps_ReceiveMaximum L,
            pk_session_expiry_interval := 0, pk_will_delay_interval := 0\<rparr>)"

definition extract_will_delay :: "PropertyPool \<Rightarrow> ParsedPacket \<Rightarrow> ParsedPacket" where
  "extract_will_delay pool pkt =
     fold (\<lambda>r pkt.
         if pr_id r = WillDelayInterval \<and> pr_kind r = KU32
         then pkt\<lparr>pk_will_delay_interval := read_u32_be (blob_at pool r)\<rparr> else pkt)
       (props_records pool (pk_will_properties pkt)) pkt"

definition extract_disconnect_session_expiry :: "PropertyPool \<Rightarrow> ParsedPacket \<Rightarrow> ParsedPacket" where
  "extract_disconnect_session_expiry pool pkt =
     fold (\<lambda>r pkt.
         if pr_id r = SessionExpiryInterval \<and> pr_kind r = KU32
         then pkt\<lparr>pk_disconnect_session_expiry := read_u32_be (blob_at pool r)\<rparr> else pkt)
       (props_records pool (pk_properties pkt))
       (pkt\<lparr>pk_disconnect_session_expiry := 0xFFFFFFFF\<rparr>)"

definition finish_packet :: "BrokerLimits \<Rightarrow> parser_state \<Rightarrow> parser_state" where
  "finish_packet L st =
     (let (p, mp, pp) = st; pkt = pa_packet p; done = (\<lambda>pkt mp pp. (p\<lparr>pa_packet := pkt, pa_phase := Complete\<rparr>, mp, pp))
      in if pk_type pkt = Publish \<and> message_handle_valid (pa_active_payload p)
         then done (pkt\<lparr>pk_payload := pa_active_payload p,
                        pk_payload_len := payload_size mp (pa_active_payload p)\<rparr>) mp pp
         else if pk_type pkt = Connect then
           (let (ok, pkt1, mp1, pp1) = parse_connect_payload (pa_control_buf p) pkt mp pp
            in if \<not> ok then enter_error ProtocolError (p\<lparr>pa_packet := pkt1\<rparr>, mp1, pp1)
               else done (extract_will_delay pp1 (extract_connect_limits L pp1 pkt1)) mp1 pp1)
         else if pk_type pkt = Disconnect then done (extract_disconnect_session_expiry pp pkt) mp pp
         else if pk_type pkt = Subscribe then
           (let (ok, pkt1) = parse_subscribe_payload (pa_control_buf p) pkt
            in if \<not> ok then enter_error MalformedPacket (p\<lparr>pa_packet := pkt1\<rparr>, mp, pp)
               else done pkt1 mp pp)
         else if pk_type pkt = Unsubscribe then
           (let (ok, pkt1) = parse_unsubscribe_payload (pa_control_buf p) pkt
            in if \<not> ok then enter_error MalformedPacket (p\<lparr>pa_packet := pkt1\<rparr>, mp, pp)
               else done pkt1 mp pp)
         else done pkt mp pp)"

section \<open>One byte\<close>

definition consume_fixed_header :: "byte \<Rightarrow> parser_state \<Rightarrow> parser_state" where
  "consume_fixed_header b st =
     (let (p, mp, pp) = st
      in (p\<lparr>pa_fixed_header := b,
            pa_packet := (pa_packet p)\<lparr>pk_type := packet_type_from_byte b, pk_flags := b AND 0x0F,
              pk_qos := drop_bit 1 b AND 0x03, pk_dup := (b AND 0x08 \<noteq> 0),
              pk_retain := (b AND 0x01 \<noteq> 0), pk_disconnect_reason := 0\<rparr>,
            pa_rl_buf := [], pa_phase := RemainingLength\<rparr>, mp, pp))"

text \<open>The phase that follows the fixed header, by packet type.\<close>

definition start_body :: "parser_state \<Rightarrow> parser_state" where
  "start_body st =
     (let (p, mp, pp) = st; t = pk_type (pa_packet p) in
      if t = Publish then
        (let (h, mp1) = acquire_empty mp; p1 = p\<lparr>pa_active_payload := h\<rparr>
         in if \<not> message_handle_valid h then enter_error QuotaExceeded (p1, mp1, pp)
            else (p1\<lparr>pa_control_target := 2, pa_phase := VariableHeader\<rparr>, mp1, pp))
      else if t \<in> set [Subscribe, Connect, Unsubscribe, Puback, Pubrec, Pubrel, Pubcomp]
      then (p\<lparr>pa_control_target := 2, pa_phase := VariableHeader\<rparr>, mp, pp)
      else if t = Disconnect then (p\<lparr>pa_control_target := 1, pa_phase := VariableHeader\<rparr>, mp, pp)
      else (p\<lparr>pa_phase := Payload\<rparr>, mp, pp))"

definition consume_remaining_length :: "BrokerLimits \<Rightarrow> byte \<Rightarrow> parser_state \<Rightarrow> parser_state" where
  "consume_remaining_length L b st =
     (let (p, mp, pp) = st; rl = pa_rl_buf p @ [b]; p = p\<lparr>pa_rl_buf := rl\<rparr> in
      if length rl > 4 then enter_error MalformedPacket (p, mp, pp)
      else
        let d = varint_decode rl in
        if result d = NeedMore then (p, mp, pp)
        else if result d \<noteq> Ok then enter_error MalformedPacket (p, mp, pp)
        else
          let p = p\<lparr>pa_remaining_total := vvalue d,
                pa_packet := (pa_packet p)\<lparr>pk_remaining_length := vvalue d\<rparr>,
                pa_remaining_consumed := 0, pa_control_buf := [], pa_property_len_known := False,
                pa_property_section_len := 0\<rparr>
          in if vvalue d > pl_max_packet_bytes (pa_limits p)
             then enter_error PacketTooLarge (p, mp, pp)
             else if vvalue d = 0 then finish_packet L (p, mp, pp)
             else start_body (p, mp, pp))"

definition enter_properties :: "PacketParser \<Rightarrow> PacketParser" where
  "enter_properties p = p\<lparr>pa_phase := Properties, pa_property_len_known := False,
     pa_property_section_len := 0\<rparr>"

text \<open>\<open>remaining_consumed_ >= remaining_total_\<close>.\<close>

definition body_consumed :: "PacketParser \<Rightarrow> bool" where
  "body_consumed p \<longleftrightarrow> pa_remaining_consumed p \<ge> pa_remaining_total p"

text \<open>The topic and packet identifier of a PUBLISH once they are staged.\<close>

definition publish_header :: "BrokerLimits \<Rightarrow> parser_state \<Rightarrow> parser_state" where
  "publish_header L st =
     (let (p, mp, pp) = st; buf = pa_control_buf p; tlen = unat (read_u16_be buf) in
      if length buf < 2 + tlen then (p, mp, pp)
      else if tlen \<ge> 256 then enter_error TopicNameInvalid (p, mp, pp)
      else
        let p = p\<lparr>pa_packet := (pa_packet p)\<lparr>pk_topic := cstr (slice 2 tlen buf)\<rparr>\<rparr> in
        if \<not> topic_valid (pk_topic (pa_packet p)) then enter_error TopicNameInvalid (p, mp, pp)
        else
          let pid = (if pk_qos (pa_packet p) > 0 then read_u16_be (drop (2 + tlen) buf) else 0);
              p = p\<lparr>pa_packet := (pa_packet p)\<lparr>pk_packet_id := pid\<rparr>\<rparr>
          in if pk_qos (pa_packet p) > 0 \<and> pid = 0 then enter_error ProtocolError (p, mp, pp)
             else
               let p = p\<lparr>pa_control_buf := []\<rparr> in
               if pa_protocol_level p = 4 then
                 (if body_consumed p then finish_packet L (p, mp, pp)
                  else (p\<lparr>pa_phase := Payload\<rparr>, mp, pp))
               else (enter_properties p, mp, pp))"

definition consume_publish_vh :: "BrokerLimits \<Rightarrow> parser_state \<Rightarrow> parser_state" where
  "consume_publish_vh L st =
     (let (p, mp, pp) = st; buf = pa_control_buf p; tlen = read_u16_be buf in
      if length buf = 2 \<and> (tlen = 0 \<or> tlen > pl_max_topic_bytes (pa_limits p))
      then enter_error TopicNameInvalid (p, mp, pp)
      else
        let p = (if length buf = 2
                 then p\<lparr>pa_control_target := 2 + unat tlen + (if pk_qos (pa_packet p) > 0 then 2 else 0)\<rparr>
                 else p)
        in if length buf \<ge> pa_control_target p then publish_header L (p, mp, pp) else (p, mp, pp))"

text \<open>SUBSCRIBE and UNSUBSCRIBE: the packet identifier.\<close>

definition consume_packet_id_vh :: "parser_state \<Rightarrow> parser_state" where
  "consume_packet_id_vh st =
     (let (p, mp, pp) = st; buf = pa_control_buf p in
      if length buf \<ge> 2 then
        let p = p\<lparr>pa_packet := (pa_packet p)\<lparr>pk_packet_id := read_u16_be buf\<rparr>, pa_control_buf := []\<rparr>
        in if pa_protocol_level p = 4 then (p\<lparr>pa_phase := Payload\<rparr>, mp, pp)
           else (enter_properties p, mp, pp)
      else (p, mp, pp))"

definition consume_connect_vh :: "parser_state \<Rightarrow> parser_state" where
  "consume_connect_vh st =
     (let (p, mp, pp) = st; buf = pa_control_buf p; plen = read_u16_be buf in
      if length buf = 2 \<and> (plen = 0 \<or> plen > 8) then enter_error ProtocolError (p, mp, pp)
      else
        let p = (if length buf = 2 then p\<lparr>pa_control_target := 2 + unat plen + 4\<rparr> else p)
        in if length buf \<ge> pa_control_target p \<and> pa_control_target p > 2 then
             let (ok, pkt) = parse_connect_variable_header buf (pa_packet p); p = p\<lparr>pa_packet := pkt\<rparr>
             in if \<not> ok then enter_error ProtocolError (p, mp, pp)
                else
                  let p = p\<lparr>pa_protocol_level := pk_protocol_level pkt, pa_control_buf := []\<rparr>
                  in if pa_protocol_level p = 4 then (p\<lparr>pa_phase := Payload\<rparr>, mp, pp)
                     else (enter_properties p, mp, pp)
           else (p, mp, pp))"

definition consume_ack_vh :: "BrokerLimits \<Rightarrow> parser_state \<Rightarrow> parser_state" where
  "consume_ack_vh L st =
     (let (p, mp, pp) = st; buf = pa_control_buf p in
      if length buf = 2 then
        let p = p\<lparr>pa_packet := (pa_packet p)\<lparr>pk_packet_id := read_u16_be buf, pk_ack_reason_code := 0\<rparr>\<rparr>
        in if body_consumed p then finish_packet L (p, mp, pp)
           else (p\<lparr>pa_control_target := 3\<rparr>, mp, pp)
      else if length buf \<ge> 3 then
        let p = p\<lparr>pa_packet := (pa_packet p)\<lparr>pk_ack_reason_code := buf ! 2\<rparr>\<rparr>
        in if body_consumed p then finish_packet L (p, mp, pp)
           else (enter_properties (p\<lparr>pa_control_buf := []\<rparr>), mp, pp)
      else (p, mp, pp))"

definition consume_disconnect_vh :: "BrokerLimits \<Rightarrow> parser_state \<Rightarrow> parser_state" where
  "consume_disconnect_vh L st =
     (let (p, mp, pp) = st;
          p = p\<lparr>pa_packet := (pa_packet p)\<lparr>pk_disconnect_reason := pa_control_buf p ! 0\<rparr>\<rparr>
      in if body_consumed p then finish_packet L (p, mp, pp)
         else (enter_properties (p\<lparr>pa_control_buf := []\<rparr>), mp, pp))"

definition consume_variable_header :: "BrokerLimits \<Rightarrow> byte \<Rightarrow> parser_state \<Rightarrow> parser_state" where
  "consume_variable_header L b st =
     (let (p, mp, pp) = st in
      if length (pa_control_buf p) \<ge> kControlBufSize then enter_error MalformedPacket (p, mp, pp)
      else
        let p = p\<lparr>pa_control_buf := pa_control_buf p @ [b],
              pa_remaining_consumed := pa_remaining_consumed p + 1\<rparr>;
            t = pk_type (pa_packet p)
        in if t = Publish then consume_publish_vh L (p, mp, pp)
           else if t = Subscribe then consume_packet_id_vh (p, mp, pp)
           else if t = Connect then consume_connect_vh (p, mp, pp)
           else if t = Unsubscribe then consume_packet_id_vh (p, mp, pp)
           else if t \<in> set [Puback, Pubrec, Pubrel, Pubcomp] then consume_ack_vh L (p, mp, pp)
           else if t = Disconnect then consume_disconnect_vh L (p, mp, pp)
           else if body_consumed p then finish_packet L (p, mp, pp)
           else (p\<lparr>pa_phase := Properties\<rparr>, mp, pp))"

text \<open>The end of the property section; \<open>after_props\<close> is a 32-bit difference.\<close>

definition finish_properties :: "BrokerLimits \<Rightarrow> parser_state \<Rightarrow> parser_state" where
  "finish_properties L st =
     (let (p, mp, pp) = st;
          (vr, h, pp1) = parse_and_validate_properties (pk_type (pa_packet p)) (pa_control_buf p) pp;
          p = p\<lparr>pa_packet := (pa_packet p)\<lparr>pk_properties := h\<rparr>\<rparr>
      in if \<not> pv_ok vr then enter_error (pv_reason vr) (p, mp, pp1)
         else if pa_remaining_total p - pa_remaining_consumed p = 0 then finish_packet L (p, mp, pp1)
         else (p\<lparr>pa_control_buf := [], pa_phase := Payload\<rparr>, mp, pp1))"

definition consume_properties :: "BrokerLimits \<Rightarrow> byte \<Rightarrow> parser_state \<Rightarrow> parser_state" where
  "consume_properties L b st =
     (let (p, mp, pp) = st in
      if length (pa_control_buf p) \<ge> kControlBufSize then enter_error MalformedPacket (p, mp, pp)
      else
        let p = p\<lparr>pa_control_buf := pa_control_buf p @ [b],
              pa_remaining_consumed := pa_remaining_consumed p + 1\<rparr>
        in if \<not> pa_property_len_known p then
             let d = varint_decode (pa_control_buf p) in
             if result d = NeedMore then (p, mp, pp)
             else if result d \<noteq> Ok then enter_error MalformedPacket (p, mp, pp)
             else
               let p = p\<lparr>pa_property_section_len := vvalue d, pa_property_len_known := True,
                     pa_control_target := bytes_consumed d + unat (vvalue d)\<rparr>
               in if length (pa_control_buf p) < pa_control_target p then (p, mp, pp)
                  else finish_properties L (p, mp, pp)
           else if length (pa_control_buf p) < pa_control_target p then (p, mp, pp)
           else finish_properties L (p, mp, pp))"

definition consume_payload :: "BrokerLimits \<Rightarrow> byte \<Rightarrow> parser_state \<Rightarrow> parser_state" where
  "consume_payload L b st =
     (let (p, mp, pp) = st;
          p = p\<lparr>pa_remaining_consumed := pa_remaining_consumed p + 1\<rparr>;
          t = pk_type (pa_packet p);
          finish = (\<lambda>st. if body_consumed (fst st) then finish_packet L st else st)
      in if t = Publish \<and> message_handle_valid (pa_active_payload p) then
           (let (ok, mp1) = append_payload (pa_active_payload p) [b] mp
            in if \<not> ok then enter_error QuotaExceeded (p, mp1, pp) else finish (p, mp1, pp))
         else if t \<in> set [Connect, Subscribe, Unsubscribe] then
           (if length (pa_control_buf p) < kControlBufSize
            then finish (p\<lparr>pa_control_buf := pa_control_buf p @ [b]\<rparr>, mp, pp)
            else enter_error MalformedPacket (p, mp, pp))
         else finish (p, mp, pp))"

text \<open>\<open>consume_byte\<close> returns the number of bytes consumed with the new state.\<close>

definition consume_byte :: "BrokerLimits \<Rightarrow> byte \<Rightarrow> parser_state \<Rightarrow> nat \<times> parser_state" where
  "consume_byte L b st =
     (case pa_phase (fst st) of
        Idle \<Rightarrow> (1, consume_fixed_header b st)
      | FixedHeader \<Rightarrow> (1, consume_fixed_header b st)
      | RemainingLength \<Rightarrow> (1, consume_remaining_length L b st)
      | VariableHeader \<Rightarrow> (1, consume_variable_header L b st)
      | Properties \<Rightarrow> (1, consume_properties L b st)
      | Payload \<Rightarrow> (1, consume_payload L b st)
      | Complete \<Rightarrow> (0, st)
      | Error \<Rightarrow> (0, st))"

text \<open>\<open>feed\<close>: the number of bytes consumed and the new state.\<close>

primrec feed :: "BrokerLimits \<Rightarrow> byte list \<Rightarrow> parser_state \<Rightarrow> nat \<times> parser_state" where
  "feed L [] st = (0, st)"
| "feed L (b # bs) st =
     (if pa_phase (fst st) = Complete \<or> pa_phase (fst st) = Error then (0, st)
      else
        let (n, st1) = consume_byte L b st
        in if n = 0 then (0, st1)
           else let (m, st2) = feed L bs st1 in (n + m, st2))"

definition packet_ready :: "PacketParser \<Rightarrow> bool" where
  "packet_ready p \<longleftrightarrow> pa_phase p = Complete"

end
