(* ===== verification/Encode.thy ===== *)
theory Encode
  imports Message_Pool_Inv Property_Pool Varint
begin

text \<open>
  The packet encoders (\<open>encode.cpp\<close>). An encoder that returns a length and fills a buffer of
  \<open>cap\<close> bytes returns the list of the bytes it wrote; \<open>[]\<close> is \<open>return 0\<close>. PUBLISH is encoded a
  window at a time: \<open>publish_header_bytes\<close> is the header the code assembles on the stack, the payload
  comes from the pool.
\<close>

section \<open>Sizes and properties\<close>

text \<open>\<open>varint_encode\<close> into a four-byte buffer, with the length it returned.\<close>

definition varint4 :: "nat \<Rightarrow> byte list" where
  "varint4 n = (case varint_encode (of_nat n) 4 of None \<Rightarrow> [] | Some bs \<Rightarrow> bs)"

definition estimate_publish_size ::
  "byte list \<Rightarrow> nat \<Rightarrow> bool \<Rightarrow> u8 \<Rightarrow> nat \<Rightarrow> bool \<Rightarrow> u8 \<Rightarrow> nat"
where
  "estimate_publish_size topic payload_len retain qos props_len has_expiry protocol_level =
     (if qos > 2 then 0
      else
        let vh = 2 + length topic + (if qos > 0 then 2 else 0);
            prop_total = (if protocol_level \<ge> 5 then props_len + (if has_expiry then 5 else 0) else 0);
            pl_size = (if protocol_level \<ge> 5 then length (varint4 prop_total) else 0);
            body = vh + pl_size + prop_total + payload_len
        in 1 + length (varint4 body) + body)"

definition forward_property ::
  "PropertyPool \<Rightarrow> nat \<Rightarrow> PropertyRecord \<Rightarrow> byte list \<times> u32 \<Rightarrow> byte list \<times> u32"
where
  "forward_property pool cap r acc =
     (let (out, expiry) = acc; off = length out in
      if pr_id r = MessageExpiryInterval then
        (out, if pr_kind r = KU32 then read_u32_be (drop (unat (pr_offset r)) (pp_blob pool)) else expiry)
      else if pr_id r = PayloadFormatIndicator then
        ((if pr_kind r = KByte \<and> off + 2 \<le> cap
          then out @ [pr_id r, pp_blob pool ! unat (pr_offset r)] else out), expiry)
      else if pr_id r \<in> set [ContentType, ResponseTopic, CorrelationData] then
        ((if off + 3 + unat (pr_length r) \<le> cap
          then out @ [pr_id r] @ write_u16_be (pr_length r) @ record_value pool r else out), expiry)
      else if pr_id r = UserProperty then
        ((if off + 5 + unat (pr_key_length r) + unat (pr_length r) \<le> cap
          then out @ [pr_id r] @ write_u16_be (pr_key_length r) @ record_key pool r
                 @ write_u16_be (pr_length r) @ record_value pool r
          else out), expiry)
      else (out, expiry))"

definition serialize_forward_properties ::
  "PropertyPool \<Rightarrow> PropertyHandle \<Rightarrow> nat \<Rightarrow> byte list \<times> u32"
where
  "serialize_forward_properties pool h cap =
     (if cap = 0 then ([], 0)
      else fold (forward_property pool cap) (props_records pool h) ([], 0))"

section \<open>Acknowledgements and control packets\<close>

definition encode_ack_packet ::
  "nat \<Rightarrow> PacketType \<Rightarrow> u16 \<Rightarrow> ReasonCode \<Rightarrow> u8 \<Rightarrow> u8 \<Rightarrow> byte list"
where
  "encode_ack_packet cap t packet_id reason fixed_qos_bits protocol_level =
     (if cap < 6 \<or> packet_id = 0 then []
      else
        let remaining = (if protocol_level \<ge> 5 then 2 + 1 + 1 else 2);
            rl = varint4 remaining
        in if cap < 1 + length rl + remaining then []
           else [packet_type_to_byte t OR fixed_qos_bits] @ rl @ write_u16_be packet_id
                @ (if protocol_level \<ge> 5 then [reason_byte reason, 0x00] else []))"

definition encode_puback :: "nat \<Rightarrow> u16 \<Rightarrow> ReasonCode \<Rightarrow> u8 \<Rightarrow> byte list" where
  "encode_puback cap packet_id reason level = encode_ack_packet cap Puback packet_id reason 0x00 level"

definition encode_pubrec :: "nat \<Rightarrow> u16 \<Rightarrow> ReasonCode \<Rightarrow> u8 \<Rightarrow> byte list" where
  "encode_pubrec cap packet_id reason level = encode_ack_packet cap Pubrec packet_id reason 0x00 level"

definition encode_pubrel :: "nat \<Rightarrow> u16 \<Rightarrow> ReasonCode \<Rightarrow> u8 \<Rightarrow> byte list" where
  "encode_pubrel cap packet_id reason level = encode_ack_packet cap Pubrel packet_id reason 0x02 level"

definition encode_pubcomp :: "nat \<Rightarrow> u16 \<Rightarrow> ReasonCode \<Rightarrow> u8 \<Rightarrow> byte list" where
  "encode_pubcomp cap packet_id reason level = encode_ack_packet cap Pubcomp packet_id reason 0x00 level"

fun reason_to_v4_connack_code :: "ReasonCode \<Rightarrow> u8" where
  "reason_to_v4_connack_code Success = 0x00"
| "reason_to_v4_connack_code UnsupportedProtocolVersion = 0x01"
| "reason_to_v4_connack_code ClientIdentifierNotValid = 0x02"
| "reason_to_v4_connack_code ProtocolError = 0x02"
| "reason_to_v4_connack_code BadUserNameOrPassword = 0x04"
| "reason_to_v4_connack_code NotAuthorized = 0x05"
| "reason_to_v4_connack_code _ = 0x03"

text \<open>The property body of a CONNACK. All of it fits the 160-byte buffer, except an assigned client
  identifier that is too long, which is left out.\<close>

definition connack_properties :: "BrokerLimits \<Rightarrow> byte list option \<Rightarrow> u16 \<Rightarrow> byte list" where
  "connack_properties L assigned_client_id server_keep_alive =
     (let body =
        (if ConnackCaps_MaximumQos < 2 then [MaximumQoS, ConnackCaps_MaximumQos] else [])
        @ [RetainAvailable, 0x01, WildcardSubscriptionAvailable, 0x01,
           SubscriptionIdentifierAvailable, 0x00, SharedSubscriptionAvailable, 0x00,
           TopicAliasMaximum, 0x00, 0x00]
        @ [ReceiveMaximum] @ write_u16_be (ConnackCaps_ReceiveMaximum L)
        @ [MaximumPacketSize] @ write_u32_be (ConnackCaps_MaximumPacketSize L)
        @ (if server_keep_alive > 0 then [ServerKeepAlive] @ write_u16_be server_keep_alive else [])
      in case assigned_client_id of
           None \<Rightarrow> body
         | Some cid \<Rightarrow>
             if cid \<noteq> [] \<and> length cid < 65535 \<and> length body + 3 + length cid \<le> 160
             then body @ [AssignedClientIdentifier] @ write_u16_be (of_nat (length cid)) @ cid
             else body)"

definition encode_connack ::
  "BrokerLimits \<Rightarrow> nat \<Rightarrow> ReasonCode \<Rightarrow> bool \<Rightarrow> byte list option \<Rightarrow> u16 \<Rightarrow> u8 \<Rightarrow> byte list"
where
  "encode_connack L cap reason session_present assigned_client_id server_keep_alive protocol_level =
     (if cap < 5 then []
      else
        let flags = (if session_present then 0x01 else 0x00) in
        if protocol_level = 4 then
          [packet_type_to_byte Connack, 0x02, if reason = Success then flags else 0x00,
           reason_to_v4_connack_code reason]
        else
          let body = connack_properties L assigned_client_id server_keep_alive;
              prop_len = varint4 (length body);
              remaining = 2 + length prop_len + length body;
              rl = varint4 remaining
          in if cap < 1 + length rl + remaining then []
             else [packet_type_to_byte Connack OR 0x00] @ rl @ [flags, reason_byte reason]
                  @ prop_len @ body)"

definition encode_disconnect :: "nat \<Rightarrow> ReasonCode \<Rightarrow> byte list" where
  "encode_disconnect cap reason =
     (if cap < 4 then []
      else [packet_type_to_byte Disconnect OR 0x00, 0x02, reason_byte reason, 0x00])"

definition encode_pingresp :: "nat \<Rightarrow> byte list" where
  "encode_pingresp cap = (if cap < 2 then [] else [packet_type_to_byte Pingresp, 0x00])"

definition encode_suback :: "nat \<Rightarrow> u16 \<Rightarrow> ReasonCode list \<Rightarrow> u8 \<Rightarrow> byte list" where
  "encode_suback cap packet_id rcs protocol_level =
     (if rcs = [] then []
      else
        let v5 = protocol_level \<ge> 5;
            remaining = 2 + (if v5 then 1 else 0) + length rcs;
            rl = varint4 remaining
        in if cap < 1 + length rl + remaining then []
           else [packet_type_to_byte Suback OR 0x00] @ rl @ write_u16_be packet_id
                @ (if v5 then [0x00] else [])
                @ map (\<lambda>rc. if \<not> v5 \<and> reason_byte rc > 2 then 0x80 else reason_byte rc) rcs)"

definition encode_unsuback :: "nat \<Rightarrow> u16 \<Rightarrow> ReasonCode list \<Rightarrow> u8 \<Rightarrow> byte list" where
  "encode_unsuback cap packet_id rcs protocol_level =
     (if rcs = [] then []
      else
        let v5 = protocol_level \<ge> 5;
            remaining = (if v5 then 2 + 1 + length rcs else 2);
            rl = varint4 remaining
        in if cap < 1 + length rl + remaining then []
           else [packet_type_to_byte Unsuback OR 0x00] @ rl @ write_u16_be packet_id
                @ (if v5 then [0x00] @ map reason_byte rcs else []))"

section \<open>PUBLISH\<close>

record PublishParams =
  pb_topic :: "byte list"
  pb_retain :: bool
  pb_qos :: u8
  pb_packet_id :: u16
  pb_dup :: bool
  pb_payload_len :: nat
  pb_has_expiry :: bool
  pb_expiry_remaining :: u32
  pb_protocol_level :: u8

definition publish_first_byte :: "bool \<Rightarrow> u8 \<Rightarrow> bool \<Rightarrow> byte" where
  "publish_first_byte retain qos dup =
     (packet_type_to_byte Publish OR (if retain then 0x01 else 0) OR push_bit 1 (qos AND 0x03)
      OR (if dup then 0x08 else 0))"

text \<open>The header of the packet whose forwarded properties are \<open>props\<close>.\<close>

definition publish_header_bytes :: "PublishParams \<Rightarrow> byte list \<Rightarrow> byte list" where
  "publish_header_bytes a props =
     (let v5 = pb_protocol_level a \<ge> 5;
          has_expiry = (v5 \<and> pb_has_expiry a);
          vh = 2 + length (pb_topic a) + (if pb_qos a > 0 then 2 else 0);
          prop_total = (if v5 then length props + (if has_expiry then 5 else 0) else 0);
          pl = (if v5 then varint4 prop_total else []);
          body = vh + length pl + prop_total + pb_payload_len a
      in [publish_first_byte (pb_retain a) (pb_qos a) (pb_dup a)] @ varint4 body
         @ write_u16_be (of_nat (length (pb_topic a))) @ pb_topic a
         @ (if pb_qos a > 0 then write_u16_be (pb_packet_id a) else [])
         @ (if v5 then pl @ (if has_expiry then [MessageExpiryInterval] @ write_u32_be (pb_expiry_remaining a) else [])
                       @ props
            else []))"

text \<open>The copy loop from \<open>pos\<close> up to \<open>end\<close>.\<close>

function emit_window :: "MessagePool \<Rightarrow> MessageHandle \<Rightarrow> byte list \<Rightarrow> nat \<Rightarrow> nat \<Rightarrow> byte list" where
  "emit_window pool msg header pos stop =
     (if pos < stop then
        if pos < length header then
          let chunk = (if stop < length header then stop else length header) - pos
          in slice pos chunk header @ emit_window pool msg header (pos + chunk) stop
        else
          let copied = read_payload pool msg (pos - length header) (stop - pos)
          in if copied = [] then []
             else copied @ emit_window pool msg header (pos + length copied) stop
      else [])"
  by pat_completeness auto
termination
  by (relation "measure (\<lambda>(pool, msg, header, pos, stop). stop - pos)")
    (auto simp: diff_less_mono2)

declare emit_window.simps [simp del]

text \<open>The forwarded properties that go on the wire.\<close>

definition wire_props :: "PublishParams \<Rightarrow> MessagePool \<Rightarrow> MessageHandle \<Rightarrow> byte list" where
  "wire_props a pool msg =
     (if pb_protocol_level a \<ge> 5 then (case msg_props pool msg of None \<Rightarrow> [] | Some ps \<Rightarrow> ps) else [])"

definition encode_publish :: "nat \<Rightarrow> PublishParams \<Rightarrow> MessagePool \<Rightarrow> MessageHandle \<Rightarrow> nat \<Rightarrow> byte list" where
  "encode_publish cap a pool msg encoded_offset =
     (if pb_qos a > 2 then []
      else if pb_qos a > 0 \<and> pb_packet_id a = 0 then []
      else if cap = 0 then []
      else
        let props = wire_props a pool msg;
            has_expiry = (pb_protocol_level a \<ge> 5 \<and> pb_has_expiry a);
            total = estimate_publish_size (pb_topic a) (pb_payload_len a) (pb_retain a) (pb_qos a)
                      (length props) has_expiry (pb_protocol_level a)
        in if encoded_offset \<ge> total then []
           else emit_window pool msg (publish_header_bytes a props) encoded_offset
                  (min (encoded_offset + cap) total))"

definition encode_publish_qos0 ::
  "nat \<Rightarrow> byte list \<Rightarrow> bool \<Rightarrow> MessagePool \<Rightarrow> MessageHandle \<Rightarrow> nat \<Rightarrow> nat \<Rightarrow> byte list"
where
  "encode_publish_qos0 cap topic retain pool msg payload_len encoded_offset =
     encode_publish cap \<lparr>pb_topic = topic, pb_retain = retain, pb_qos = 0, pb_packet_id = 0,
       pb_dup = False, pb_payload_len = payload_len, pb_has_expiry = False, pb_expiry_remaining = 0,
       pb_protocol_level = 5\<rparr> pool msg encoded_offset"


section \<open>Properties\<close>

text \<open>The bytes of a PUBLISH packet on the wire.\<close>

definition publish_packet :: "PublishParams \<Rightarrow> MessagePool \<Rightarrow> MessageHandle \<Rightarrow> byte list" where
  "publish_packet a pool msg = publish_header_bytes a (wire_props a pool msg) @ msg_content pool msg"

lemma varint4_encode: "n \<le> 268435455 \<Longrightarrow> varint_encode (of_nat n) 4 = Some (varint4 n)"
  and length_varint4_le: "n \<le> 268435455 \<Longrightarrow> 1 \<le> length (varint4 n) \<and> length (varint4 n) \<le> 4"
proof -
  assume "n \<le> 268435455"
  then have "of_nat n \<le> kVarintMax"
    by (simp add: unat_le_kVarintMax unat_of_nat_u32)
  then obtain bs where "varint_encode (of_nat n) 4 = Some bs" "1 \<le> length bs" "length bs \<le> 4"
    using varint_encode_total [of "of_nat n" 4] by auto
  then show "varint_encode (of_nat n) 4 = Some (varint4 n)"
    "1 \<le> length (varint4 n) \<and> length (varint4 n) \<le> 4"
    by (simp_all add: varint4_def)
qed

lemma varint4_decode:
  "n \<le> 268435455 \<Longrightarrow>
     varint_decode (varint4 n @ rest) = \<lparr>result = Ok, vvalue = of_nat n, bytes_consumed = length (varint4 n)\<rparr>"
  by (rule varint_decode_encoded [OF varint4_encode]) (simp_all add: unat_le_kVarintMax unat_of_nat_u32)

lemma length_varint4_small: "128 \<le> n \<Longrightarrow> n < 16384 \<Longrightarrow> length (varint4 n) = 2"
  using varint4_encode [of n] varint_encode_loop_length [of 1 "of_nat n" 0 4 "varint4 n"]
  by (simp add: varint_encode_def unat_of_nat_u32 split: option.splits if_splits)

lemma length_varint4_1: "n < 128 \<Longrightarrow> length (varint4 n) = 1"
  using varint4_encode [of n] varint_encode_loop_total [of "of_nat n" 0 0 4]
    length_varint4_le [of n]
  by (auto simp: varint_encode_def unat_of_nat_u32 split: option.splits if_splits)

text \<open>The estimate is the exact size.\<close>

lemma estimate_header:
  "pb_qos a \<le> 2 \<Longrightarrow>
     estimate_publish_size (pb_topic a) (pb_payload_len a) (pb_retain a) (pb_qos a) (length props)
       (pb_protocol_level a \<ge> 5 \<and> pb_has_expiry a) (pb_protocol_level a)
     = length (publish_header_bytes a (if pb_protocol_level a \<ge> 5 then props else [])) + pb_payload_len a"
  by (auto simp: estimate_publish_size_def publish_header_bytes_def Let_def not_less)

lemma emit_window_eq:
  assumes inv: "mp_inv pool" and "stop \<le> length (header @ msg_content pool msg)"
  shows "emit_window pool msg header pos stop
    = slice pos (stop - pos) (header @ msg_content pool msg)"
  using assms(2)
proof (induction "stop - pos" arbitrary: pos rule: less_induct)
  case less
  let ?c = "msg_content pool msg"
  consider "stop \<le> pos" | "pos < stop" "pos < length header" | "pos < stop" "length header \<le> pos"
    by linarith
  then show ?case
  proof cases
    case 1
    then show ?thesis by (subst emit_window.simps) simp
  next
    case 2
    let ?chunk = "min stop (length header) - pos"
    have "emit_window pool msg header pos stop
        = slice pos ?chunk header @ emit_window pool msg header (pos + ?chunk) stop"
      using 2 by (subst emit_window.simps) (auto simp: Let_def min_def)
    also have "emit_window pool msg header (pos + ?chunk) stop
        = slice (pos + ?chunk) (stop - (pos + ?chunk)) (header @ ?c)"
      using 2 less.prems by (intro less.hyps) auto
    also have "slice pos ?chunk header = slice pos ?chunk (header @ ?c)"
      using 2 by (simp add: slice_def)
    finally show ?thesis
      using 2 by (simp only: slice_append_slice) simp
  next
    case 3
    let ?r = "read_payload pool msg (pos - length header) (stop - pos)"
    have r: "?r = slice pos (stop - pos) (header @ ?c)"
      using 3 by (simp add: read_payload_content [OF inv] slice_def)
    then have len: "length ?r = stop - pos"
      using 3 less.prems by (simp add: slice_def)
    with 3 have ne: "?r \<noteq> []" by auto
    have "emit_window pool msg header pos stop = ?r @ emit_window pool msg header (pos + length ?r) stop"
      using 3 ne by (subst emit_window.simps) (simp add: Let_def)
    also have "emit_window pool msg header (pos + length ?r) stop = []"
      using 3 len by (subst emit_window.simps) simp
    finally show ?thesis using r by simp
  qed
qed

lemma wire_props_level4: "\<not> pb_protocol_level a \<ge> 5 \<Longrightarrow> wire_props a pool msg = []"
  by (simp add: wire_props_def)

lemma estimate_packet:
  assumes "mp_inv pool" and "pb_qos a \<le> 2" and "pb_payload_len a = payload_size pool msg"
  shows "estimate_publish_size (pb_topic a) (pb_payload_len a) (pb_retain a) (pb_qos a)
      (length (wire_props a pool msg)) (pb_protocol_level a \<ge> 5 \<and> pb_has_expiry a) (pb_protocol_level a)
    = length (publish_packet a pool msg)"
  using assms estimate_header [of a "wire_props a pool msg"] length_msg_content [of pool msg]
    wire_props_level4 [of a pool msg]
  by (auto simp: publish_packet_def)

lemma encode_publish_slice:
  assumes inv: "mp_inv pool" and q: "pb_qos a \<le> 2" "pb_qos a > 0 \<longrightarrow> pb_packet_id a \<noteq> 0"
    and len: "pb_payload_len a = payload_size pool msg"
  shows "encode_publish cap a pool msg off = take cap (drop off (publish_packet a pool msg))"
proof -
  let ?n = "length (publish_packet a pool msg)"
  have "emit_window pool msg (publish_header_bytes a (wire_props a pool msg)) off (min (off + cap) ?n)
      = slice off (min (off + cap) ?n - off) (publish_packet a pool msg)"
    using emit_window_eq [OF inv, of "min (off + cap) ?n"] by (simp add: publish_packet_def)
  moreover have "slice off (min (off + cap) ?n - off) (publish_packet a pool msg)
      = take cap (drop off (publish_packet a pool msg))" if "off < ?n"
    using that by (simp add: slice_def min_def)
  ultimately show ?thesis
    using q estimate_packet [OF inv q(1) len]
    by (auto simp: encode_publish_def Let_def not_less)
qed

text \<open>Claim C14. PUBLISH encoding is exact and streams: for a consistent pool, a QoS of at most 2 with
  a nonzero packet identifier where one is needed, the size estimate is the length of the packet,
  and the encoder called with any offset and any buffer size writes precisely that window of the
  packet (header, forwarded properties and the payload gathered from the block chain).\<close>

theorem encode_publish_window:
  assumes "mp_inv pool" and "pb_qos a \<le> 2" and "pb_qos a > 0 \<longrightarrow> pb_packet_id a \<noteq> 0"
    and "pb_payload_len a = payload_size pool msg"
  shows "encode_publish cap a pool msg off
      = take cap (drop off (publish_header_bytes a (wire_props a pool msg) @ msg_content pool msg))
    \<and> estimate_publish_size (pb_topic a) (pb_payload_len a) (pb_retain a) (pb_qos a)
        (length (wire_props a pool msg)) (pb_protocol_level a \<ge> 5 \<and> pb_has_expiry a) (pb_protocol_level a)
      = length (publish_header_bytes a (wire_props a pool msg)) + payload_size pool msg"
  using encode_publish_slice [OF assms, of cap off] estimate_packet [OF assms(1,2,4)]
    length_msg_content [OF assms(1), of msg]
  by (simp add: publish_packet_def)

definition sample_params :: PublishParams where
  "sample_params = \<lparr>pb_topic = [97, 47, 98], pb_retain = True, pb_qos = 1, pb_packet_id = 7,
     pb_dup = False, pb_payload_len = 3, pb_has_expiry = True, pb_expiry_remaining = 9,
     pb_protocol_level = 5\<rparr>"

definition sample_pool :: MessagePool where
  "sample_pool = snd (append_payload \<lparr>slot = 0, generation = 1\<rparr> [1, 2, 3]
     (snd (acquire_empty (MessagePool_new 2 4 3))))"

lemma sample_pool_inv: "mp_inv sample_pool"
  unfolding sample_pool_def by (intro mp_inv_intros mp_inv_new) simp_all

theorem encode_publish_window_witness:
  "encode_publish 6 sample_params sample_pool \<lparr>slot = 0, generation = 1\<rparr> 11
     = [0, 0, 0, 9, 1, 2]
   \<and> estimate_publish_size [97, 47, 98] 3 True 1 0 True 5 = 18"
proof -
  let ?h = "\<lparr>slot = 0, generation = 1\<rparr> :: MessageHandle"
  have q: "pb_qos sample_params \<le> 2"
    "pb_qos sample_params > 0 \<longrightarrow> pb_packet_id sample_params \<noteq> 0"
    by (simp_all add: sample_params_def)
  have len: "pb_payload_len sample_params = payload_size sample_pool ?h"
    by code_simp
  have v: "publish_header_bytes sample_params (wire_props sample_params sample_pool ?h)
      = [0x33, 16, 0, 3, 97, 47, 98, 0, 7, 5, 2, 0, 0, 0, 9]" "wire_props sample_params sample_pool ?h = []"
    by code_simp+
  have "read_payload sample_pool ?h 0 3 = [1, 2, 3]"
    by code_simp
  then have "msg_content sample_pool ?h = [1, 2, 3]"
    using read_payload_content [OF sample_pool_inv, of ?h 0 3] length_msg_content [OF sample_pool_inv, of ?h] len
    by (simp add: sample_params_def)
  then show ?thesis
    using encode_publish_window [OF sample_pool_inv q len, of 6 11] len v
    by (simp add: sample_params_def)
qed

lemma length_wire_props: "mp_inv pool \<Longrightarrow> length (wire_props a pool msg) \<le> kMessagePropsCapacity"
  by (auto simp: wire_props_def msg_props_def msg_valid_def min_def
      dest!: mp_inv_shape pool_shape_slot_ok(1) [of pool _ _ "unat (slot msg)"] simp: slot_ok_def
      split: option.splits)

text \<open>The header of a PUBLISH never overruns the stack buffer it is assembled in
  (\<open>16 + 256 + kMessagePropsCapacity\<close> bytes), for every topic of at most 256 bytes, every message of
  a consistent pool and every body that a remaining length can express.\<close>

theorem publish_header_fits:
  assumes "mp_inv pool" and "length (pb_topic a) \<le> 256" and "pb_payload_len a \<le> 268400000"
  shows "length (publish_header_bytes a (wire_props a pool msg)) \<le> 16 + 256 + kMessagePropsCapacity"
proof -
  let ?props = "wire_props a pool msg"
  let ?pt = "length ?props + (if pb_has_expiry a then 5 else 0)"
  have props: "length ?props \<le> 256"
    using length_wire_props [OF assms(1)] by (simp add: kMessagePropsCapacity_def)
  then have pt: "length (varint4 ?pt) \<le> 2"
    using length_varint4_small [of ?pt] length_varint4_1 [of ?pt]
    by (cases "?pt < 128") auto
  have rl: "length (varint4 n) \<le> 4" if "n \<le> 268435455" for n
    using length_varint4_le [OF that] by simp
  define body where "body = 2 + length (pb_topic a) + (if pb_qos a > 0 then 2 else 0)
      + (if pb_protocol_level a \<ge> 5 then length (varint4 ?pt) + ?pt else 0) + pb_payload_len a"
  have "length (varint4 body) \<le> 4"
    using assms props pt by (intro rl) (auto simp: body_def)
  moreover have "length (publish_header_bytes a ?props)
      = 1 + length (varint4 body) + (body - pb_payload_len a)"
    by (auto simp: publish_header_bytes_def Let_def body_def wire_props_level4 add_ac)
  ultimately show ?thesis
    using assms(2) pt props by (auto simp: body_def kMessagePropsCapacity_def)
qed

theorem publish_header_fits_witness:
  "length (publish_header_bytes sample_params (wire_props sample_params sample_pool NULL_MESSAGE)) \<le> 528"
  using publish_header_fits [OF sample_pool_inv, of sample_params NULL_MESSAGE]
  by (simp add: sample_params_def kMessagePropsCapacity_def)

end
