(* ===== verification/Broker_State.thy ===== *)
theory Broker_State
  imports Ring_Queues Topic_Trie Retained_Store Inflight Packet_Parser Encode
    "HOL-Library.Monad_Syntax"
begin

text \<open>
  The state of the broker (\<open>broker.hpp\<close>, \<open>session.hpp\<close>, \<open>transport.hpp\<close>, \<open>metrics.hpp\<close>), its policy
  (\<open>broker_policy.cpp\<close>, \<open>protocol_error.cpp\<close>), the constructor, and the operations of \<open>broker.cpp\<close>
  that never close a connection.

  The platform's callbacks are values of the transport. What a callback answers is a function of
  the log of all I/O events so far, so that every behaviour of the outside world is one choice of
  these functions; the broker appends an event for every call. The process-wide policy and
  authentication hook are fields of the broker. The allocations of the constructor are assumed to
  succeed (the code dereferences \<open>sessions_\<close> and \<open>connections_\<close> without a test), so the tests for
  null parsers and queues have no counterpart. A \<open>SessionRecord *\<close> is the index of the session.

  A topic that the code passes on as a \<open>const char *\<close> is a \<open>TopicRef\<close>, because the text behind some
  of these pointers changes while it is in use: the intern pool compacts its arena, and a will or
  a pending QoS 2 entry can be cleared. \<open>deref\<close> reads the text in the current state.
\<close>

section \<open>Sessions, transports, metrics\<close>

datatype SessionState = Empty | Connected | Offline

record WillMessage =
  wm_valid :: bool
  wm_topic :: "byte list"
  wm_payload :: MessageHandle
  wm_payload_len :: nat
  wm_qos :: u8
  wm_retain :: bool

definition will_zero :: WillMessage where
  "will_zero = \<lparr>wm_valid = False, wm_topic = [], wm_payload = \<lparr>slot = 0, generation = 0\<rparr>,
     wm_payload_len = 0, wm_qos = 0, wm_retain = False\<rparr>"

record SessionRecord =
  sn_self :: SessionHandle
  sn_state :: SessionState
  sn_transport_id :: u16
  sn_client_id :: "byte list"
  sn_keep_alive_sec :: u16
  sn_client_max_packet_size :: u32
  sn_client_receive_maximum :: u16
  sn_last_control_tick :: u32
  sn_clean_start :: bool
  sn_session_expiry_interval :: u32
  sn_session_expiry_deadline_tick :: u32
  sn_will_delay_interval :: u32
  sn_will_fire_deadline_tick :: u32
  sn_will :: WillMessage
  sn_suppress_will :: bool
  sn_assign_serial :: u32
  sn_has_subscription_state :: bool

abbreviation SESSION_TICK_NONE :: u32 where "SESSION_TICK_NONE \<equiv> 0xFFFFFFFF"

datatype IoEvent =
    IoRead nat int "byte list"
  | IoWrite nat "byte list" int
  | IoClose nat

type_synonym io_log = "IoEvent list"

record BrokerTransport =
  tr_ctx :: nat
  tr_read :: "(io_log \<Rightarrow> nat \<Rightarrow> int \<times> byte list) option"
  tr_write :: "(io_log \<Rightarrow> byte list \<Rightarrow> int) option"
  tr_close_conn :: bool
  tr_active :: bool

definition transport_zero :: BrokerTransport where
  "transport_zero = \<lparr>tr_ctx = 0, tr_read = None, tr_write = None, tr_close_conn = False,
     tr_active = False\<rparr>"

record BrokerMetrics =
  mt_clients_connected :: u32
  mt_clients_connected_peak :: u32
  mt_connect_accept :: u32
  mt_connect_reject :: u32
  mt_publish_received :: u32
  mt_publish_sent :: u32
  mt_dropped_too_large :: u32
  mt_dropped_quota :: u32
  mt_quota_drop_count :: u32
  mt_will_published :: u32
  mt_session_takeovers :: u32
  mt_pool_exhaustion :: u32
  mt_keepalive_disconnects :: u32
  mt_slow_consumer_disconnects :: u32
  mt_parser_errors :: u32
  mt_tx_logical_high_water :: u32
  mt_messages_expired :: u32

definition metrics_zero :: BrokerMetrics where
  "metrics_zero = \<lparr>mt_clients_connected = 0, mt_clients_connected_peak = 0, mt_connect_accept = 0,
     mt_connect_reject = 0, mt_publish_received = 0, mt_publish_sent = 0, mt_dropped_too_large = 0,
     mt_dropped_quota = 0, mt_quota_drop_count = 0, mt_will_published = 0, mt_session_takeovers = 0,
     mt_pool_exhaustion = 0, mt_keepalive_disconnects = 0, mt_slow_consumer_disconnects = 0,
     mt_parser_errors = 0, mt_tx_logical_high_water = 0, mt_messages_expired = 0\<rparr>"

section \<open>Policy\<close>

record BrokerPolicy =
  max_keep_alive_sec :: int
  connect_handshake_timeout_sec :: int

type_synonym AuthCheckFn =
  "byte list \<Rightarrow> byte list option \<Rightarrow> byte list option \<Rightarrow> nat \<Rightarrow> ReasonCode"

record ProtocolErrorAction =
  act_reason :: ReasonCode
  act_disconnect :: bool
  act_publish_will :: bool

definition protocol_error_action :: "ReasonCode \<Rightarrow> ProtocolErrorAction" where
  "protocol_error_action reason =
     (let fatal = reason \<in> set [MalformedPacket, ProtocolError, TopicNameInvalid,
            TopicAliasInvalid, PacketTooLarge]
      in \<lparr>act_reason = reason, act_disconnect = fatal, act_publish_will = fatal\<rparr>)"

section \<open>The broker\<close>

record ConnectionSlot =
  cn_transport :: BrokerTransport
  cn_parser :: PacketParser
  cn_tx :: TxQueue
  cn_session :: SessionHandle
  cn_in_use :: bool
  cn_attached_tick :: u32
  cn_protocol_level :: u8

record Broker =
  bk_limits :: BrokerLimits
  bk_msg_pool :: MessagePool
  bk_prop_pool :: PropertyPool
  bk_topic_intern :: TopicInternPool
  bk_topic_trie :: TopicTrie
  bk_retained :: RetainedStore
  bk_sessions :: "SessionRecord list"
  bk_connections :: "ConnectionSlot list"
  bk_offline_queues :: "OfflineQueue list"
  bk_outbound_inflight :: "SessionOutboundInflight list"
  bk_inbound_qos2 :: "SessionInboundQoS2 list"
  bk_global_logical_tx :: u32
  bk_assign_serial :: u32
  bk_current_tick :: u32
  bk_metrics :: BrokerMetrics
  bk_policy :: BrokerPolicy
  bk_auth :: "AuthCheckFn option"
  bk_log :: io_log

definition session_init :: "BrokerLimits \<Rightarrow> nat \<Rightarrow> SessionRecord" where
  "session_init L i = \<lparr>sn_self = \<lparr>slot = of_nat i, generation = 1\<rparr>, sn_state = Empty,
     sn_transport_id = 0xFFFF, sn_client_id = [], sn_keep_alive_sec = 0,
     sn_client_max_packet_size = ConnackCaps_MaximumPacketSize L,
     sn_client_receive_maximum = ConnackCaps_ReceiveMaximum L, sn_last_control_tick = 0,
     sn_clean_start = True, sn_session_expiry_interval = 0,
     sn_session_expiry_deadline_tick = SESSION_TICK_NONE, sn_will_delay_interval = 0,
     sn_will_fire_deadline_tick = SESSION_TICK_NONE, sn_will = will_zero, sn_suppress_will = False,
     sn_assign_serial = 0, sn_has_subscription_state = False\<rparr>"

definition Broker_new :: "BrokerLimits \<Rightarrow> Broker" where
  "Broker_new L =
     (let n = MaxTcpClients L;
          plimits = \<lparr>pl_max_packet_bytes = of_nat (MaxPacketBytes L),
            pl_max_topic_bytes = of_nat (MaxTopicBytes L), pl_control_buffer_bytes = 1024\<rparr>
      in \<lparr>bk_limits = L,
          bk_msg_pool = MessagePool_new (PayloadBlockSize L) (PayloadBlockCount L) (PayloadSlotCount L),
          bk_prop_pool = PropertyPool_new n 4096,
          bk_topic_intern = TopicInternPool_new (MaxInternedTopics L) (MaxInternedBytes L),
          bk_topic_trie = TopicTrie_new 256 (MaxSubsTotal L),
          bk_retained = RetainedStore_new (MaxRetainedEntries L) (of_nat (RetainedBytesTotal L)),
          bk_sessions = map (session_init L) [0..<n],
          bk_connections = replicate n \<lparr>cn_transport = transport_zero,
            cn_parser = PacketParser_new plimits,
            cn_tx = TxQueue_new (TxQueueDepthPerClient L) (of_nat (TxLogicalPerClient L))
              (Some (replicate (TxQueueDepthPerClient L) pd_zero)),
            cn_session = NULL_SESSION, cn_in_use = False, cn_attached_tick = 0,
            cn_protocol_level = 0\<rparr>,
          bk_offline_queues = replicate n (OfflineQueue_new (OfflineQueuePerClient L)
            (Some (replicate (OfflineQueuePerClient L) pd_zero))),
          bk_outbound_inflight = replicate n (SessionOutboundInflight_new (QosInflightPerClient L)),
          bk_inbound_qos2 = replicate n (SessionInboundQoS2_new (QosInflightPerClient L)),
          bk_global_logical_tx = 0, bk_assign_serial = 0, bk_current_tick = 0,
          bk_metrics = metrics_zero,
          bk_policy = \<lparr>max_keep_alive_sec = int (MaxKeepAliveSec L),
            connect_handshake_timeout_sec = int (ConnectHandshakeTimeoutSec L)\<rparr>,
          bk_auth = None, bk_log = []\<rparr>)"

definition broker_set_policy :: "BrokerPolicy \<Rightarrow> Broker \<Rightarrow> Broker" where
  "broker_set_policy policy b = b\<lparr>bk_policy := policy\<rparr>"

definition broker_set_auth_handler :: "AuthCheckFn option \<Rightarrow> Broker \<Rightarrow> Broker" where
  "broker_set_auth_handler fn b = b\<lparr>bk_auth := fn\<rparr>"

section \<open>Access to the tables\<close>

abbreviation max_clients :: "Broker \<Rightarrow> nat" where
  "max_clients b \<equiv> MaxTcpClients (bk_limits b)"

abbreviation conn :: "Broker \<Rightarrow> u16 \<Rightarrow> ConnectionSlot" where
  "conn b tid \<equiv> bk_connections b ! unat tid"

abbreviation sess :: "Broker \<Rightarrow> nat \<Rightarrow> SessionRecord" where
  "sess b i \<equiv> bk_sessions b ! i"

definition upd_conn :: "u16 \<Rightarrow> (ConnectionSlot \<Rightarrow> ConnectionSlot) \<Rightarrow> Broker \<Rightarrow> Broker" where
  "upd_conn tid f b =
     b\<lparr>bk_connections := (bk_connections b)[unat tid := f (bk_connections b ! unat tid)]\<rparr>"

definition upd_sess :: "nat \<Rightarrow> (SessionRecord \<Rightarrow> SessionRecord) \<Rightarrow> Broker \<Rightarrow> Broker" where
  "upd_sess i f b = b\<lparr>bk_sessions := (bk_sessions b)[i := f (bk_sessions b ! i)]\<rparr>"

text \<open>\<open>metrics_.field++\<close>.\<close>

definition bump :: "((u32 \<Rightarrow> u32) \<Rightarrow> BrokerMetrics \<Rightarrow> BrokerMetrics) \<Rightarrow> Broker \<Rightarrow> Broker" where
  "bump field b = b\<lparr>bk_metrics := field (\<lambda>n. n + 1) (bk_metrics b)\<rparr>"

definition client_gone :: "Broker \<Rightarrow> Broker" where
  "client_gone b =
     (if mt_clients_connected (bk_metrics b) > 0
      then b\<lparr>bk_metrics := (bk_metrics b)\<lparr>mt_clients_connected :=
             mt_clients_connected (bk_metrics b) - 1\<rparr>\<rparr>
      else b)"

text \<open>A \<open>msg_release\<close> and a \<open>release\<close> of the topic, in this order.\<close>

definition drop_refs :: "MessageHandle \<Rightarrow> TopicHandle \<Rightarrow> Broker \<Rightarrow> Broker" where
  "drop_refs m t b = b\<lparr>bk_msg_pool := msg_release m (bk_msg_pool b),
     bk_topic_intern := topic_release t (bk_topic_intern b)\<rparr>"

definition release_msg :: "MessageHandle \<Rightarrow> Broker \<Rightarrow> Broker" where
  "release_msg m b = b\<lparr>bk_msg_pool := msg_release m (bk_msg_pool b)\<rparr>"

definition release_if_valid :: "MessageHandle \<Rightarrow> Broker \<Rightarrow> Broker" where
  "release_if_valid m b = (if msg_valid (bk_msg_pool b) m then release_msg m b else b)"

definition release_topic :: "TopicHandle \<Rightarrow> Broker \<Rightarrow> Broker" where
  "release_topic t b = b\<lparr>bk_topic_intern := topic_release t (bk_topic_intern b)\<rparr>"

section \<open>Pointers to topic text\<close>

datatype TopicRef =
    TextRef "byte list"
  | InternRef nat
  | WillRef nat
  | InboundRef nat nat

definition deref :: "Broker \<Rightarrow> TopicRef \<Rightarrow> byte list" where
  "deref b r =
     (case r of
        TextRef t \<Rightarrow> t
      | InternRef off \<Rightarrow> cstr (drop off (ti_blob (bk_topic_intern b)))
      | WillRef i \<Rightarrow> wm_topic (sn_will (sess b i))
      | InboundRef i k \<Rightarrow> ii_topic (bk_inbound_qos2 b ! i ! k))"

text \<open>\<open>topic_intern_.c_str (h)\<close> as a pointer.\<close>

definition topic_ptr :: "Broker \<Rightarrow> TopicHandle \<Rightarrow> TopicRef" where
  "topic_ptr b h =
     (if topic_handle_valid (bk_topic_intern b) h
      then InternRef (unat (te_offset (ti_entry (bk_topic_intern b) h))) else TextRef [])"

section \<open>Connections and sessions\<close>

definition attach_transport :: "BrokerTransport \<Rightarrow> Broker \<Rightarrow> u16 \<times> Broker" where
  "attach_transport transport b =
     (case first_idx (\<lambda>c. \<not> cn_in_use c) (bk_connections b) of
        None \<Rightarrow> (0xFFFF, b)
      | Some i \<Rightarrow>
          (of_nat i, upd_conn (of_nat i) (\<lambda>c. c\<lparr>cn_in_use := True,
             cn_transport := transport\<lparr>tr_active := True\<rparr>, cn_session := NULL_SESSION,
             cn_parser := reset_protocol_level (parser_reset (cn_parser c)),
             cn_attached_tick := bk_current_tick b, cn_protocol_level := 5\<rparr>) b))"

definition session_record :: "Broker \<Rightarrow> SessionHandle \<Rightarrow> nat option" where
  "session_record b h =
     (if \<not> session_handle_valid h \<or> unat (slot h) \<ge> max_clients b then None
      else if generation (sn_self (sess b (unat (slot h)))) \<noteq> generation h then None
      else Some (unat (slot h)))"

definition session_for_transport :: "Broker \<Rightarrow> u16 \<Rightarrow> SessionHandle" where
  "session_for_transport b tid =
     (if unat tid \<ge> max_clients b \<or> \<not> cn_in_use (conn b tid) then NULL_SESSION
      else cn_session (conn b tid))"

definition connected_count :: "Broker \<Rightarrow> nat" where
  "connected_count b =
     length (filter (\<lambda>s. sn_state s = Connected \<and> sn_transport_id s \<noteq> 0xFFFF) (bk_sessions b))"

definition transport_attached :: "Broker \<Rightarrow> u16 \<Rightarrow> bool" where
  "transport_attached b tid \<longleftrightarrow> unat tid < max_clients b \<and> cn_in_use (conn b tid)"

definition has_pending_tx :: "Broker \<Rightarrow> bool" where
  "has_pending_tx b \<longleftrightarrow> (\<exists>c \<in> set (bk_connections b). cn_in_use c \<and> tq_count (cn_tx c) > 0)"

definition touch_keepalive :: "u16 \<Rightarrow> u32 \<Rightarrow> Broker \<Rightarrow> Broker" where
  "touch_keepalive tid now_ticks b =
     (case session_record b (session_for_transport b tid) of
        None \<Rightarrow> b
      | Some i \<Rightarrow> upd_sess i (\<lambda>s. s\<lparr>sn_last_control_tick := now_ticks\<rparr>) b)"

definition find_session_by_client_id :: "Broker \<Rightarrow> byte list \<Rightarrow> nat option" where
  "find_session_by_client_id b client_id =
     (if client_id = [] then None
      else first_idx (\<lambda>s. sn_state s \<noteq> Empty \<and> sn_client_id s = client_id) (bk_sessions b))"

definition alloc_session_slot :: "Broker \<Rightarrow> nat option" where
  "alloc_session_slot b = first_idx (\<lambda>s. sn_state s = Empty) (bk_sessions b)"

definition release_will :: "nat \<Rightarrow> Broker \<Rightarrow> Broker" where
  "release_will i b =
     (if \<not> wm_valid (sn_will (sess b i)) then b
      else upd_sess i (\<lambda>s. s\<lparr>sn_will := will_zero\<rparr>)
             (release_if_valid (wm_payload (sn_will (sess b i))) b))"

definition clear_session_qos_state :: "nat \<Rightarrow> Broker \<Rightarrow> Broker" where
  "clear_session_qos_state i b =
     (if i \<ge> max_clients b then b
      else
        let (ob, mp, ti) = ob_clear (bk_outbound_inflight b ! i) (bk_msg_pool b, bk_topic_intern b);
            (ib, mp1) = ib_clear (bk_inbound_qos2 b ! i) mp
        in b\<lparr>bk_msg_pool := mp1, bk_topic_intern := ti,
             bk_outbound_inflight := (bk_outbound_inflight b)[i := reset_packet_ids ob],
             bk_inbound_qos2 := (bk_inbound_qos2 b)[i := ib]\<rparr>)"

text \<open>The loop that empties an offline queue; every turn pops, so the queue's count is enough fuel.\<close>

primrec drain_offline :: "nat \<Rightarrow> nat \<Rightarrow> Broker \<Rightarrow> Broker" where
  "drain_offline 0 i b = b"
| "drain_offline (Suc n) i b =
     (case oq_peek (bk_offline_queues b ! i) of
        None \<Rightarrow> b
      | Some pd \<Rightarrow>
          let b1 = drop_refs (pd_message pd) (pd_topic pd) b
          in drain_offline n i (b1\<lparr>bk_offline_queues :=
               (bk_offline_queues b1)[i := snd (oq_pop (bk_offline_queues b1 ! i))]\<rparr>))"

definition clear_session_state :: "nat \<Rightarrow> bool \<Rightarrow> Broker \<Rightarrow> Broker" where
  "clear_session_state i clear_subs b =
     (if i \<ge> max_clients b then b
      else
        let b1 = (if clear_subs
                  then upd_sess i (\<lambda>s. s\<lparr>sn_has_subscription_state := False\<rparr>)
                         (b\<lparr>bk_topic_trie := unsubscribe_all (of_nat i) (bk_topic_trie b)\<rparr>)
                  else b);
            b2 = drain_offline (oq_count (bk_offline_queues b1 ! i)) i b1;
            b3 = clear_session_qos_state i (release_will i b2)
        in upd_sess i (\<lambda>s. s\<lparr>sn_session_expiry_deadline_tick := SESSION_TICK_NONE,
             sn_will_fire_deadline_tick := SESSION_TICK_NONE, sn_suppress_will := False\<rparr>) b3)"

definition session_has_presentable_state :: "Broker \<Rightarrow> nat \<Rightarrow> bool" where
  "session_has_presentable_state b i \<longleftrightarrow>
     i < max_clients b
     \<and> (oq_count (bk_offline_queues b ! i) > 0 \<or> ob_count (bk_outbound_inflight b ! i) > 0
        \<or> sn_has_subscription_state (sess b i))"

section \<open>Writing to a transport\<close>

text \<open>A call of the write callback; \<open>None\<close> when it is null. Negative results are errors.\<close>

definition call_write :: "u16 \<Rightarrow> byte list \<Rightarrow> Broker \<Rightarrow> int option \<times> Broker" where
  "call_write tid data b =
     (case tr_write (cn_transport (conn b tid)) of
        None \<Rightarrow> (None, b)
      | Some w \<Rightarrow>
          let rc = w (bk_log b) data
          in (Some rc, b\<lparr>bk_log := bk_log b @ [IoWrite (tr_ctx (cn_transport (conn b tid))) data rc]\<rparr>))"

text \<open>\<open>close_conn\<close> is called when it is set and the transport is still active.\<close>

definition close_transport :: "u16 \<Rightarrow> Broker \<Rightarrow> Broker" where
  "close_transport tid b =
     (let t = cn_transport (conn b tid)
      in if tr_close_conn t \<and> tr_active t
         then upd_conn tid (\<lambda>c. c\<lparr>cn_transport := (cn_transport c)\<lparr>tr_active := False\<rparr>\<rparr>)
                (b\<lparr>bk_log := bk_log b @ [IoClose (tr_ctx t)]\<rparr>)
         else b)"

definition send_disconnect :: "u16 \<Rightarrow> ReasonCode \<Rightarrow> Broker \<Rightarrow> Broker" where
  "send_disconnect tid reason b =
     (if unat tid \<ge> max_clients b \<or> cn_protocol_level (conn b tid) = 4 then b
      else let buf = encode_disconnect 8 reason
        in if buf = [] then b else snd (call_write tid buf b))"

definition write_bytes :: "u16 \<Rightarrow> byte list \<Rightarrow> Broker \<Rightarrow> bool \<times> Broker" where
  "write_bytes tid data b =
     (if unat tid \<ge> max_clients b \<or> data = [] \<or> \<not> cn_in_use (conn b tid) then (False, b)
      else case call_write tid data b of
          (None, b1) \<Rightarrow> (False, b1)
        | (Some rc, b1) \<Rightarrow> (rc = int (length data), b1))"

text \<open>The four acknowledgement senders differ in the encoder only.\<close>

definition send_ack ::
  "(nat \<Rightarrow> u16 \<Rightarrow> ReasonCode \<Rightarrow> u8 \<Rightarrow> byte list) \<Rightarrow> u16 \<Rightarrow> u16 \<Rightarrow> ReasonCode \<Rightarrow> Broker \<Rightarrow> bool \<times> Broker"
where
  "send_ack encode tid packet_id reason b =
     (if unat tid \<ge> max_clients b then (False, b)
      else let buf = encode 16 packet_id reason (cn_protocol_level (conn b tid))
        in if buf = [] then (False, b) else write_bytes tid buf b)"

definition send_puback :: "u16 \<Rightarrow> u16 \<Rightarrow> ReasonCode \<Rightarrow> Broker \<Rightarrow> bool \<times> Broker" where
  "send_puback = send_ack encode_puback"

definition send_pubrec :: "u16 \<Rightarrow> u16 \<Rightarrow> ReasonCode \<Rightarrow> Broker \<Rightarrow> bool \<times> Broker" where
  "send_pubrec = send_ack encode_pubrec"

definition send_pubrel :: "u16 \<Rightarrow> u16 \<Rightarrow> ReasonCode \<Rightarrow> Broker \<Rightarrow> bool \<times> Broker" where
  "send_pubrel = send_ack encode_pubrel"

definition send_pubcomp :: "u16 \<Rightarrow> u16 \<Rightarrow> ReasonCode \<Rightarrow> Broker \<Rightarrow> bool \<times> Broker" where
  "send_pubcomp = send_ack encode_pubcomp"

section \<open>Deliveries\<close>

definition outbound_inflight_at_capacity :: "Broker \<Rightarrow> nat \<Rightarrow> bool" where
  "outbound_inflight_at_capacity b i \<longleftrightarrow>
     i \<ge> max_clients b \<or> sn_state (sess b i) \<noteq> Connected
     \<or> ob_count (bk_outbound_inflight b ! i)
         \<ge> unat (effective_receive_maximum (bk_limits b) (sn_client_receive_maximum (sess b i)))"

definition release_outbound_inflight :: "nat \<Rightarrow> u16 \<Rightarrow> Broker \<Rightarrow> Broker" where
  "release_outbound_inflight i packet_id b =
     (if i \<ge> max_clients b then b
      else case ob_remove packet_id (bk_outbound_inflight b ! i) (bk_msg_pool b, bk_topic_intern b) of
          (_, ob, mp, ti) \<Rightarrow>
            b\<lparr>bk_msg_pool := mp, bk_topic_intern := ti,
              bk_outbound_inflight := (bk_outbound_inflight b)[i := ob]\<rparr>)"

definition complete_tx_delivery :: "u16 \<Rightarrow> PendingDelivery \<Rightarrow> Broker \<Rightarrow> bool \<times> Broker" where
  "complete_tx_delivery tid pd b =
     (if unat tid \<ge> max_clients b then (False, b)
      else case session_record b (cn_session (conn b tid)) of
          None \<Rightarrow> (False, b)
        | Some i \<Rightarrow>
            let k = unat (slot (sn_self (sess b i))); ob = bk_outbound_inflight b ! k in
            if pd_delivery_qos pd = 0 \<or> ob_find ob (pd_packet_id pd) \<noteq> None
            then (True, drop_refs (pd_message pd) (pd_topic pd) b)
            else
              let (ok, ob1) = ob_insert (pd_packet_id pd) (pd_message pd) (pd_topic pd)
                    (pd_delivery_qos pd) (pd_retain_flag pd) AwaitingPubrec ob
              in if ok then (True, b\<lparr>bk_outbound_inflight := (bk_outbound_inflight b)[k := ob1]\<rparr>)
                 else (True, drop_refs (pd_message pd) (pd_topic pd) b))"

definition attach_publish_metadata :: "MessageHandle \<Rightarrow> PropertyHandle \<Rightarrow> u32 \<Rightarrow> Broker \<Rightarrow> Broker" where
  "attach_publish_metadata m props tick b =
     (if \<not> msg_valid (bk_msg_pool b) m then b
      else
        let (buf, expiry) = serialize_forward_properties (bk_prop_pool b) props kMessagePropsCapacity;
            mp1 = (if buf \<noteq> [] then snd (set_props m buf (bk_msg_pool b)) else bk_msg_pool b);
            mp2 = (if expiry > 0 then set_expiry m expiry tick mp1 else mp1)
        in b\<lparr>bk_msg_pool := mp2\<rparr>)"

definition message_expired :: "Broker \<Rightarrow> MessageHandle \<Rightarrow> bool" where
  "message_expired b m \<longleftrightarrow>
     expiry_interval (bk_msg_pool b) m \<noteq> 0
     \<and> bk_current_tick b - publish_tick (bk_msg_pool b) m \<ge> expiry_interval (bk_msg_pool b) m"

text \<open>\<open>(has_expiry, remaining)\<close>.\<close>

definition message_expiry_state :: "Broker \<Rightarrow> MessageHandle \<Rightarrow> bool \<times> u32" where
  "message_expiry_state b m =
     (let interval = expiry_interval (bk_msg_pool b) m;
          elapsed = bk_current_tick b - publish_tick (bk_msg_pool b) m
      in (interval > 0,
          if interval > 0 then (if elapsed \<ge> interval then 1 else interval - elapsed) else 0))"

definition enqueue_offline :: "nat \<Rightarrow> PendingDelivery \<Rightarrow> Broker \<Rightarrow> bool \<times> Broker" where
  "enqueue_offline i pd b =
     (if i \<ge> max_clients b then (False, b)
      else case msg_acquire (pd_message pd) (bk_msg_pool b) of
          (False, mp) \<Rightarrow> (False, b\<lparr>bk_msg_pool := mp\<rparr>)
        | (True, mp) \<Rightarrow>
            (case topic_acquire (pd_topic pd) (bk_topic_intern b) of
               (False, ti) \<Rightarrow> (False, b\<lparr>bk_msg_pool := msg_release (pd_message pd) mp,
                                        bk_topic_intern := ti\<rparr>)
             | (True, ti) \<Rightarrow>
                 let b1 = b\<lparr>bk_msg_pool := mp, bk_topic_intern := ti\<rparr> in
                 (case oq_enqueue pd (bk_offline_queues b1 ! i) of
                    (False, _) \<Rightarrow>
                      (False, bump mt_quota_drop_count_update (bump mt_dropped_quota_update
                                (drop_refs (pd_message pd) (pd_topic pd) b1)))
                  | (True, q) \<Rightarrow>
                      (True, b1\<lparr>bk_offline_queues := (bk_offline_queues b1)[i := q]\<rparr>))))"

text \<open>The queues' byte budgets are compared in 32-bit arithmetic.\<close>

definition enqueue_retransmit :: "u16 \<Rightarrow> OutboundInflightEntry \<Rightarrow> Broker \<Rightarrow> bool \<times> Broker" where
  "enqueue_retransmit tid entry b =
     (if unat tid \<ge> max_clients b \<or> \<not> cn_in_use (conn b tid) then (False, b)
      else if \<not> msg_valid (bk_msg_pool b) (oi_message entry) then (False, b)
      else
        let mp = bk_msg_pool b; m = oi_message entry; L = bk_limits b; tx = cn_tx (conn b tid);
            est_size = estimate_publish_size (deref b (topic_ptr b (oi_topic entry)))
              (payload_size mp m) (oi_retain_flag entry) (oi_delivery_qos entry)
              (case msg_props mp m of None \<Rightarrow> 0 | Some ps \<Rightarrow> length ps) (expiry_interval mp m > 0)
              (cn_protocol_level (conn b tid));
            est = of_nat est_size :: u32
        in if est_size = 0 \<or> tq_logical_bytes tx + est > of_nat (TxLogicalPerClient L)
              \<or> bk_global_logical_tx b + est > of_nat (TxLogicalTotal L) then (False, b)
           else case msg_acquire m mp of
               (False, mp1) \<Rightarrow> (False, b\<lparr>bk_msg_pool := mp1\<rparr>)
             | (True, mp1) \<Rightarrow>
                 (case topic_acquire (oi_topic entry) (bk_topic_intern b) of
                    (False, ti) \<Rightarrow> (False, b\<lparr>bk_msg_pool := msg_release m mp1, bk_topic_intern := ti\<rparr>)
                  | (True, ti) \<Rightarrow>
                      let b1 = b\<lparr>bk_msg_pool := mp1, bk_topic_intern := ti\<rparr>;
                          pd = pd_zero\<lparr>pd_message := m, pd_topic := oi_topic entry,
                            pd_packet_id := oi_packet_id entry,
                            pd_delivery_qos := oi_delivery_qos entry,
                            pd_retain_flag := oi_retain_flag entry, pd_dup_flag := True,
                            pd_encoded_offset := 0, pd_encoded_total_size := est\<rparr>
                      in case tq_enqueue pd est tx of
                           (False, _) \<Rightarrow> (False, drop_refs m (oi_topic entry) b1)
                         | (True, tx1) \<Rightarrow>
                             (True, bump mt_publish_sent_update
                                (upd_conn tid (\<lambda>c. c\<lparr>cn_tx := tx1\<rparr>)
                                  (b1\<lparr>bk_global_logical_tx := bk_global_logical_tx b1 + est\<rparr>)))))"

text \<open>The entries are visited in order; sending does not change the table.\<close>

definition retransmit_session_inflight :: "u16 \<Rightarrow> nat \<Rightarrow> Broker \<Rightarrow> Broker" where
  "retransmit_session_inflight tid i b =
     (if i \<ge> max_clients b then b
      else fold (\<lambda>k b.
             case ob_entry_at (bk_outbound_inflight b ! i) k of
               None \<Rightarrow> b
             | Some e \<Rightarrow>
                 if \<not> oi_in_use e then b
                 else if oi_delivery_qos e = 2 \<and> oi_qos2_phase e = AwaitingPubcomp
                 then snd (send_pubrel tid (oi_packet_id e) Success b)
                 else snd (enqueue_retransmit tid e b))
           [0..<QosInflightPerClient (bk_limits b)] b)"

text \<open>Two loops over the retained store that drop expired messages.\<close>

definition drop_retained :: "TopicHandle \<Rightarrow> Broker \<Rightarrow> Broker" where
  "drop_retained th b =
     (case retained_remove th (bk_retained b) (bk_msg_pool b, bk_topic_intern b) of
        (rs, mp, ti) \<Rightarrow> b\<lparr>bk_retained := rs, bk_msg_pool := mp, bk_topic_intern := ti\<rparr>)"

definition sweep_expired_retained :: "Broker \<Rightarrow> Broker" where
  "sweep_expired_retained b =
     fold (\<lambda>ri b.
         case retained_entry_at (bk_retained b) ri of
           None \<Rightarrow> b
         | Some (th, m) \<Rightarrow>
             if message_expired b m then drop_retained th (bump mt_messages_expired_update b) else b)
       [0..<MaxRetainedEntries (bk_limits b)] b"

end
