(* ===== verification/Broker_Core.thy ===== *)
theory Broker_Core
  imports Broker_State
begin

text \<open>
  The part of \<open>broker.cpp\<close> that can close connections: draining transmit queues, delivering and
  routing messages, wills, the end of sessions, and \<open>disconnect_transport\<close>.

  These functions are mutually recursive in the source: closing a connection may publish a will,
  which is routed to subscribers, whose queues are drained, and a write error or an overrun closes
  their connections. Every cycle goes through \<open>disconnect_transport\<close>, so the other functions take it
  as a parameter \<open>d\<close>, and \<open>disconnect_transport n\<close> is the function with at most \<open>n\<close> nested calls.
  \<open>None\<close> means that a call did not return within that depth. No depth is enough in general: see
  \<open>Broker_Props\<close>.
\<close>

type_synonym disconnector = "u16 \<Rightarrow> bool \<Rightarrow> Broker \<Rightarrow> Broker option"

section \<open>Transmit queues\<close>

text \<open>\<open>tx->pop (&released)\<close> and the global byte count.\<close>

definition pop_tx :: "u16 \<Rightarrow> Broker \<Rightarrow> Broker" where
  "pop_tx tid b =
     (let (r, tx) = tq_pop (cn_tx (conn b tid)); released = (case r of None \<Rightarrow> 0 | Some n \<Rightarrow> n);
          b1 = upd_conn tid (\<lambda>c. c\<lparr>cn_tx := tx\<rparr>) b
      in if bk_global_logical_tx b1 \<ge> released
         then b1\<lparr>bk_global_logical_tx := bk_global_logical_tx b1 - released\<rparr> else b1)"

text \<open>Every turn pops one delivery: the count of the queue is the number of turns.\<close>

primrec purge_loop :: "nat \<Rightarrow> u16 \<Rightarrow> Broker \<Rightarrow> Broker" where
  "purge_loop 0 tid b = b"
| "purge_loop (Suc n) tid b =
     (case tq_peek (cn_tx (conn b tid)) of
        None \<Rightarrow> b
      | Some pd \<Rightarrow> purge_loop n tid (pop_tx tid (drop_refs (pd_message pd) (pd_topic pd) b)))"

definition purge_tx_queue :: "u16 \<Rightarrow> Broker \<Rightarrow> Broker" where
  "purge_tx_queue tid b = purge_loop (tq_count (cn_tx (conn b tid))) tid b"

definition publish_params :: "Broker \<Rightarrow> u16 \<Rightarrow> PendingDelivery \<Rightarrow> PublishParams" where
  "publish_params b tid pd =
     (let (has_expiry, remaining) = message_expiry_state b (pd_message pd)
      in \<lparr>pb_topic = deref b (topic_ptr b (pd_topic pd)), pb_retain = pd_retain_flag pd,
          pb_qos = pd_delivery_qos pd, pb_packet_id = pd_packet_id pd, pb_dup = pd_dup_flag pd,
          pb_payload_len = payload_size (bk_msg_pool b) (pd_message pd), pb_has_expiry = has_expiry,
          pb_expiry_remaining = remaining, pb_protocol_level = cn_protocol_level (conn b tid)\<rparr>)"

text \<open>A turn that does not break pops one delivery, so the count is again enough.\<close>

primrec drain_loop :: "disconnector \<Rightarrow> nat \<Rightarrow> u16 \<Rightarrow> Broker \<Rightarrow> Broker option" where
  "drain_loop d 0 tid b = Some b"
| "drain_loop d (Suc n) tid b =
     (case tq_peek (cn_tx (conn b tid)) of
        None \<Rightarrow> Some b
      | Some pd \<Rightarrow>
          let out = encode_publish 2048 (publish_params b tid pd) (bk_msg_pool b) (pd_message pd)
                (unat (pd_encoded_offset pd))
          in if out = [] then Some (pop_tx tid (snd (complete_tx_delivery tid pd b)))
             else case call_write tid out b of
                 (None, b1) \<Rightarrow> Some b1
               | (Some rc, b1) \<Rightarrow>
                   if rc < 0 then d tid True b1
                   else if rc = 0 then Some b1
                   else
                     let b2 = upd_conn tid (\<lambda>c. c\<lparr>cn_tx := snd (tq_advance_offset (of_int rc) (cn_tx c))\<rparr>) b1;
                         pd1 = pd\<lparr>pd_encoded_offset := pd_encoded_offset pd + of_int rc\<rparr>
                     in if pd_encoded_offset pd1 \<ge> pd_encoded_total_size pd1
                        then drain_loop d n tid (pop_tx tid (snd (complete_tx_delivery tid pd1 b2)))
                        else Some b2)"

definition drain_tx :: "disconnector \<Rightarrow> u16 \<Rightarrow> Broker \<Rightarrow> Broker option" where
  "drain_tx d tid b =
     (if unat tid \<ge> max_clients b \<or> \<not> cn_in_use (conn b tid) then Some b
      else if tr_write (cn_transport (conn b tid)) = None then Some b
      else drain_loop d (tq_count (cn_tx (conn b tid))) tid b)"

section \<open>One delivery\<close>

definition tx_over_budget :: "u16 \<Rightarrow> u32 \<Rightarrow> Broker \<Rightarrow> bool" where
  "tx_over_budget tid est b \<longleftrightarrow>
     tq_full (cn_tx (conn b tid))
     \<or> tq_logical_bytes (cn_tx (conn b tid)) + est > of_nat (TxLogicalPerClient (bk_limits b))
     \<or> bk_global_logical_tx b + est > of_nat (TxLogicalTotal (bk_limits b))"

text \<open>The burst absorption loop with the attempts that are left; \<open>False\<close> when the drain closed the
  connection.\<close>

primrec drain_attempts :: "disconnector \<Rightarrow> nat \<Rightarrow> u16 \<Rightarrow> u32 \<Rightarrow> Broker \<Rightarrow> (bool \<times> Broker) option" where
  "drain_attempts d 0 tid est b = Some (True, b)"
| "drain_attempts d (Suc n) tid est b =
     (if tx_over_budget tid est b then
        (case drain_tx d tid b of
           None \<Rightarrow> None
         | Some b1 \<Rightarrow> if \<not> cn_in_use (conn b1 tid) then Some (False, b1)
                      else drain_attempts d n tid est b1)
      else Some (True, b))"

text \<open>The tail of \<open>enqueue_delivery\<close>, from the interning of the topic on.\<close>

definition queue_delivery ::
  "disconnector \<Rightarrow> u16 \<Rightarrow> TopicRef \<Rightarrow> MessageHandle \<Rightarrow> u16 \<Rightarrow> u8 \<Rightarrow> bool \<Rightarrow> u32 \<Rightarrow> Broker
     \<Rightarrow> (bool \<times> Broker) option"
where
  "queue_delivery d tid topic m packet_id qos retain_flag est b =
     (let (th, ti) = intern (deref b topic) (bk_topic_intern b);
          b1 = b\<lparr>bk_topic_intern := ti\<rparr>;
          fail = (\<lambda>b. map_option (Pair False) (d tid True b))
      in if \<not> topic_handle_valid ti th then fail (bump mt_pool_exhaustion_update b1)
         else
           let pd = pd_zero\<lparr>pd_message := m, pd_topic := th, pd_packet_id := packet_id,
                 pd_delivery_qos := qos, pd_retain_flag := retain_flag, pd_dup_flag := False,
                 pd_encoded_offset := 0, pd_encoded_total_size := est\<rparr>
           in case msg_acquire m (bk_msg_pool b1) of
                (False, mp) \<Rightarrow>
                  fail (bump mt_pool_exhaustion_update (release_topic th (b1\<lparr>bk_msg_pool := mp\<rparr>)))
              | (True, mp) \<Rightarrow>
                  let b2 = b1\<lparr>bk_msg_pool := mp\<rparr> in
                  (case tq_enqueue pd est (cn_tx (conn b2 tid)) of
                     (False, _) \<Rightarrow> fail (drop_refs m th b2)
                   | (True, tx) \<Rightarrow>
                       let b3 = upd_conn tid (\<lambda>c. c\<lparr>cn_tx := tx\<rparr>) b2;
                           total = bk_global_logical_tx b3 + est;
                           b4 = b3\<lparr>bk_global_logical_tx := total,
                             bk_metrics := (bk_metrics b3)\<lparr>mt_tx_logical_high_water :=
                               (if total > mt_tx_logical_high_water (bk_metrics b3) then total
                                else mt_tx_logical_high_water (bk_metrics b3))\<rparr>\<rparr>
                       in Some (True, bump mt_publish_sent_update b4)))"

text \<open>The packet identifier of the delivery, 0 for QoS 0; \<open>None\<close> when the quota is used up.\<close>

definition delivery_packet_id :: "nat \<Rightarrow> u8 \<Rightarrow> Broker \<Rightarrow> (u16 option) \<times> Broker" where
  "delivery_packet_id i qos b =
     (if qos = 0 then (Some 0, b)
      else
        let k = unat (slot (sn_self (sess b i))) in
        if outbound_inflight_at_capacity b k then (None, bump mt_dropped_quota_update b)
        else
          let (pid, ob) = next_packet_id (bk_outbound_inflight b ! k);
              b1 = b\<lparr>bk_outbound_inflight := (bk_outbound_inflight b)[k := ob]\<rparr>
          in if pid = 0 then (None, bump mt_dropped_quota_update b1) else (Some pid, b1))"

definition enqueue_delivery ::
  "disconnector \<Rightarrow> u16 \<Rightarrow> SessionHandle \<Rightarrow> TopicRef \<Rightarrow> MessageHandle \<Rightarrow> nat \<Rightarrow> u8 \<Rightarrow> bool \<Rightarrow> Broker
     \<Rightarrow> (bool \<times> Broker) option"
where
  "enqueue_delivery d tid session topic m payload_len delivery_qos retain_flag b =
     (let s = session_record b session in
      if unat tid \<ge> max_clients b \<or> \<not> cn_in_use (conn b tid) then
        (case s of
           Some i \<Rightarrow>
             if sn_state (sess b i) = Connected \<and> sn_transport_id (sess b i) = tid
             then map_option (Pair False) (d tid True b) else Some (False, b)
         | None \<Rightarrow> Some (False, b))
      else case s of
          None \<Rightarrow> Some (False, b)
        | Some i \<Rightarrow>
            if sn_state (sess b i) \<noteq> Connected then Some (False, b)
            else
              let qos = (if delivery_qos > ConnackCaps_MaximumQos then ConnackCaps_MaximumQos
                         else delivery_qos) in
              if message_expired b m then Some (False, bump mt_messages_expired_update b)
              else case delivery_packet_id i qos b of
                  (None, b1) \<Rightarrow> Some (False, b1)
                | (Some packet_id, b1) \<Rightarrow>
                    let props_len = (case msg_props (bk_msg_pool b1) m of None \<Rightarrow> 0 | Some ps \<Rightarrow> length ps);
                        est = estimate_publish_size (deref b1 topic) payload_len retain_flag qos
                          props_len (expiry_interval (bk_msg_pool b1) m > 0)
                          (cn_protocol_level (conn b1 tid));
                        est32 = of_nat est :: u32
                    in if est > unat (sn_client_max_packet_size (sess b1 i))
                       then Some (False, bump mt_dropped_too_large_update b1)
                       else do {
                         (still, b2) \<leftarrow> (if tx_over_budget tid est32 b1
                           then drain_attempts d 8 tid est32 b1 else Some (True, b1));
                         if \<not> still then Some (False, b2)
                         else if tx_over_budget tid est32 b2
                         then map_option (Pair False) (d tid True b2)
                         else queue_delivery d tid topic m packet_id qos retain_flag est32 b2
                       })"

section \<open>Routing\<close>

definition route_retain :: "TopicHandle \<Rightarrow> bool \<Rightarrow> MessageHandle \<Rightarrow> nat \<Rightarrow> Broker \<Rightarrow> Broker" where
  "route_retain th retain payload payload_len b =
     (if \<not> retain then b
      else if payload_len = 0 then drop_retained th b
      else case retained_put th payload (bk_retained b) (bk_msg_pool b, bk_topic_intern b) of
          (ok, rs, mp, ti) \<Rightarrow>
            let b1 = b\<lparr>bk_retained := rs, bk_msg_pool := mp, bk_topic_intern := ti\<rparr>
            in if ok then b1 else bump mt_pool_exhaustion_update b1)"

text \<open>The session ids in the order of their first match.\<close>

primrec first_sids :: "u16 list \<Rightarrow> TopicSubscription list \<Rightarrow> u16 list" where
  "first_sids seen [] = []"
| "first_sids seen (m # ms) =
     (if ts_session_id m \<in> set seen then first_sids seen ms
      else ts_session_id m # first_sids (seen @ [ts_session_id m]) ms)"

definition subscription_match :: "TopicSubscription \<Rightarrow> SubscriptionMatch" where
  "subscription_match m =
     \<lparr>sm_max_qos = ts_max_qos m,
      sm_options = \<lparr>so_max_qos = ts_max_qos m, so_no_local = drop_bit 2 (ts_options_byte m) AND 0x01,
        so_retain_as_published = drop_bit 3 (ts_options_byte m) AND 0x01,
        so_retain_handling = drop_bit 4 (ts_options_byte m) AND 0x03\<rparr>,
      sm_session_id = ts_session_id m\<rparr>"

text \<open>The copy for a session that is offline.\<close>

definition route_offline :: "u16 \<Rightarrow> TopicRef \<Rightarrow> MessageHandle \<Rightarrow> u8 \<Rightarrow> bool \<Rightarrow> Broker \<Rightarrow> Broker" where
  "route_offline sid topic payload qos out_retain b =
     (let (th, ti) = intern (deref b topic) (bk_topic_intern b); b1 = b\<lparr>bk_topic_intern := ti\<rparr> in
      if \<not> topic_handle_valid ti th then b1
      else case msg_acquire payload (bk_msg_pool b1) of
          (False, mp) \<Rightarrow> release_topic th (b1\<lparr>bk_msg_pool := mp\<rparr>)
        | (True, mp) \<Rightarrow>
            let (ok, b2) = enqueue_offline (unat sid) (pd_zero\<lparr>pd_message := payload, pd_topic := th,
                  pd_delivery_qos := qos, pd_retain_flag := out_retain\<rparr>) (b1\<lparr>bk_msg_pool := mp\<rparr>)
            in if ok then b2 else drop_refs payload th b2)"

definition route_to_session ::
  "disconnector \<Rightarrow> u16 \<Rightarrow> TopicRef \<Rightarrow> u8 \<Rightarrow> bool \<Rightarrow> MessageHandle \<Rightarrow> nat \<Rightarrow> TopicSubscription list
     \<Rightarrow> u16 \<Rightarrow> Broker \<Rightarrow> Broker option"
where
  "route_to_session d pub_id topic publish_qos retain payload payload_len matches sid b =
     (let sm = map subscription_match (take (MaxSubsPerClient (bk_limits b))
            (filter (\<lambda>m. ts_session_id m = sid) matches));
          plan = compute_delivery_plan publish_qos pub_id sm
      in if \<not> dp_deliver plan then Some b
         else case session_record b \<lparr>slot = sid, generation = generation (sn_self (sess b (unat sid)))\<rparr> of
             None \<Rightarrow> Some b
           | Some i \<Rightarrow>
               let sub = sess b i; out_retain = (retain \<and> dp_retain_as_published plan) in
               if sn_state sub = Offline \<and> dp_effective_qos plan > 0
               then Some (route_offline sid topic payload (dp_effective_qos plan) out_retain b)
               else if sn_state sub \<noteq> Connected then Some b
               else map_option snd (enqueue_delivery d (sn_transport_id sub) (sn_self sub) topic
                      payload payload_len (dp_effective_qos plan) out_retain b))"

definition route_publish ::
  "disconnector \<Rightarrow> u16 \<Rightarrow> TopicRef \<Rightarrow> u8 \<Rightarrow> bool \<Rightarrow> MessageHandle \<Rightarrow> nat \<Rightarrow> Broker \<Rightarrow> Broker option"
where
  "route_publish d publisher topic publish_qos retain payload payload_len b =
     (let (th, ti) = intern (deref b topic) (bk_topic_intern b); b1 = b\<lparr>bk_topic_intern := ti\<rparr> in
      if \<not> topic_handle_valid ti th then Some (bump mt_pool_exhaustion_update b1)
      else
        let b2 = route_retain th retain payload payload_len b1 in
        case trie_match (bk_topic_trie b2) (deref b2 topic) (MaxSubsPerClient (bk_limits b2) * 2) of
          None \<Rightarrow> None
        | Some matches \<Rightarrow>
            if matches = [] then Some (release_topic th b2)
            else
              let pub_id = (case session_record b2 (session_for_transport b2 publisher) of
                    None \<Rightarrow> 0xFFFF | Some i \<Rightarrow> slot (sn_self (sess b2 i)))
              in map_option (release_topic th)
                   (fold_opt (route_to_session d pub_id topic publish_qos retain payload payload_len
                      matches) (first_sids [] matches) b2))"

section \<open>Wills and the end of a session\<close>

definition publish_stored_will :: "disconnector \<Rightarrow> nat \<Rightarrow> Broker \<Rightarrow> Broker option" where
  "publish_stored_will d i b =
     (let s = sess b i; w = sn_will s in
      if \<not> wm_valid w \<or> sn_suppress_will s \<or> wm_topic w = [] then Some b
      else if wm_qos w > 2 then Some b
      else
        let will_expiry = expiry_interval (bk_msg_pool b) (wm_payload w);
            b1 = (if will_expiry > 0
                  then b\<lparr>bk_msg_pool := set_expiry (wm_payload w) will_expiry (bk_current_tick b)
                         (bk_msg_pool b)\<rparr>
                  else b)
        in map_option (bump mt_will_published_update)
             (route_publish d 0xFFFF (WillRef i) (wm_qos w) (wm_retain w) (wm_payload w)
                (wm_payload_len w) b1))"

definition end_session :: "disconnector \<Rightarrow> nat \<Rightarrow> bool \<Rightarrow> Broker \<Rightarrow> Broker option" where
  "end_session d i publish_will_now b =
     (if i \<ge> max_clients b then Some b
      else
        map_option (\<lambda>b. upd_sess i (\<lambda>s. s\<lparr>sn_state := Empty, sn_client_id := [],
            sn_keep_alive_sec := 0, sn_transport_id := 0xFFFF,
            sn_self := (sn_self s)\<lparr>generation := bump_generation (generation (sn_self s))\<rparr>\<rparr>)
            (clear_session_state i True b))
          (if publish_will_now \<and> \<not> sn_suppress_will (sess b i) then publish_stored_will d i b
           else Some b))"

definition offline_deadlines :: "u32 \<Rightarrow> u32 \<Rightarrow> SessionRecord \<Rightarrow> SessionRecord" where
  "offline_deadlines now expiry s =
     (let never_expires = expiry \<ge> SESSION_TICK_NONE - now;
          deadline = (if never_expires then SESSION_TICK_NONE else now + expiry);
          delay = sn_will_delay_interval s
      in s\<lparr>sn_state := Offline, sn_session_expiry_deadline_tick := deadline,
           sn_will_fire_deadline_tick :=
             (if \<not> sn_suppress_will s \<and> wm_valid (sn_will s) then
                if delay \<ge> expiry \<and> \<not> never_expires then deadline
                else if delay \<ge> SESSION_TICK_NONE - now then SESSION_TICK_NONE
                else now + delay
              else sn_will_fire_deadline_tick s)\<rparr>)"

definition begin_offline_session :: "disconnector \<Rightarrow> nat \<Rightarrow> u32 \<Rightarrow> Broker \<Rightarrow> Broker option" where
  "begin_offline_session d i disconnect_expiry_override b =
     (let s = sess b i;
          expiry = (if disconnect_expiry_override \<noteq> 0xFFFFFFFF then disconnect_expiry_override
                    else sn_session_expiry_interval s)
      in if expiry = 0
         then end_session d (unat (slot (sn_self s))) (\<not> sn_suppress_will s) b
         else Some (upd_sess i (offline_deadlines (bk_current_tick b) expiry) b))"

definition tick_offline_session :: "disconnector \<Rightarrow> nat \<Rightarrow> Broker \<Rightarrow> Broker option" where
  "tick_offline_session d i b =
     (if sn_state (sess b i) \<noteq> Offline then Some b
      else do {
        b1 \<leftarrow> (let t = sn_will_fire_deadline_tick (sess b i) in
               if t \<noteq> SESSION_TICK_NONE \<and> bk_current_tick b \<ge> t
               then map_option (\<lambda>b. upd_sess i (\<lambda>s. s\<lparr>sn_will_fire_deadline_tick := SESSION_TICK_NONE\<rparr>)
                      (release_will i b)) (publish_stored_will d i b)
               else Some b);
        let t = sn_session_expiry_deadline_tick (sess b1 i);
        if t \<noteq> SESSION_TICK_NONE \<and> bk_current_tick b1 \<ge> t then end_session d i False b1 else Some b1
      })"

definition tick_offline_sessions :: "disconnector \<Rightarrow> Broker \<Rightarrow> Broker option" where
  "tick_offline_sessions d b = fold_opt (tick_offline_session d) [0..<max_clients b] b"

section \<open>Closing a connection\<close>

text \<open>\<open>slow_consumer ? 0u : 0xFFFFFFFFu\<close>, the count of connected clients, and the transport id.\<close>

definition drop_session :: "disconnector \<Rightarrow> bool \<Rightarrow> nat \<Rightarrow> Broker \<Rightarrow> Broker option" where
  "drop_session d slow_consumer i b =
     map_option (upd_sess i (\<lambda>s. s\<lparr>sn_transport_id := 0xFFFF\<rparr>))
       (begin_offline_session d i (if slow_consumer then 0 else 0xFFFFFFFF) (client_gone b))"

definition disconnect_idle :: "disconnector \<Rightarrow> u16 \<Rightarrow> bool \<Rightarrow> Broker \<Rightarrow> Broker option" where
  "disconnect_idle d tid slow_consumer b =
     map_option (\<lambda>b. if slow_consumer then bump mt_slow_consumer_disconnects_update b else b)
       (fold_opt (\<lambda>i b. if sn_state (sess b i) = Connected \<and> sn_transport_id (sess b i) = tid
                        then drop_session d slow_consumer i b else Some b)
          [0..<max_clients b] b)"

definition disconnect_body :: "disconnector \<Rightarrow> disconnector" where
  "disconnect_body d tid slow_consumer b =
     (if unat tid \<ge> max_clients b then Some b
      else if \<not> cn_in_use (conn b tid) then disconnect_idle d tid slow_consumer b
      else do {
        let b1 = purge_tx_queue tid b;
        b2 \<leftarrow> (case session_record b1 (cn_session (conn b1 tid)) of
                 None \<Rightarrow> Some b1
               | Some i \<Rightarrow> if sn_state (sess b1 i) = Connected then drop_session d slow_consumer i b1
                           else Some b1);
        let b3 = purge_tx_queue tid (upd_conn tid (\<lambda>c. c\<lparr>cn_session := NULL_SESSION\<rparr>) b2);
        let b4 = (if slow_consumer then bump mt_slow_consumer_disconnects_update b3 else b3);
        Some (upd_conn tid (\<lambda>c. c\<lparr>cn_in_use := False\<rparr>) (close_transport tid b4))
      })"

primrec disconnect_transport :: "nat \<Rightarrow> disconnector" where
  "disconnect_transport 0 = (\<lambda>tid slow_consumer b. None)"
| "disconnect_transport (Suc n) = disconnect_body (disconnect_transport n)"

definition detach_transport :: "disconnector \<Rightarrow> u16 \<Rightarrow> Broker \<Rightarrow> Broker option" where
  "detach_transport d tid b =
     (if unat tid \<ge> max_clients b then Some b
      else map_option (upd_conn tid (\<lambda>c. c\<lparr>cn_in_use := False,
               cn_transport := (cn_transport c)\<lparr>tr_active := False\<rparr>\<rparr>))
             (d tid False b))"

end
