(* ===== verification/Broker_Handlers.thy ===== *)
theory Broker_Handlers
  imports Broker_Core
begin

text \<open>
  The packet handlers and the entry points of \<open>broker.cpp\<close>: what the platform calls
  (\<open>on_readable\<close>, \<open>tick\<close>, \<open>drain_tx\<close>, \<open>attach_transport\<close>, \<open>detach_transport\<close>) and one definition per
  MQTT packet type. As in \<open>Broker_Core\<close>, \<open>d\<close> is \<open>disconnect_transport\<close> and \<open>None\<close> means that the call
  did not return. Debug logging is left out.
\<close>

section \<open>CONNECT\<close>

definition send_connack ::
  "disconnector \<Rightarrow> u16 \<Rightarrow> ReasonCode \<Rightarrow> bool \<Rightarrow> byte list option \<Rightarrow> u16 \<Rightarrow> Broker \<Rightarrow> Broker option"
where
  "send_connack d tid reason session_present assigned_client_id server_keep_alive b =
     (if unat tid \<ge> max_clients b then Some b
      else
        let buf = encode_connack (bk_limits b) 192 reason session_present assigned_client_id
              server_keep_alive (cn_protocol_level (conn b tid))
        in if buf = [] then Some b
           else case call_write tid buf b of
               (None, b1) \<Rightarrow> Some b1
             | (Some wrote, b1) \<Rightarrow>
                 if wrote < 0 then d tid False b1
                 else if wrote = 0 then Some b1
                 else if wrote \<noteq> int (length buf) then d tid False b1
                 else Some b1)"

definition reject_connect :: "disconnector \<Rightarrow> u16 \<Rightarrow> ReasonCode \<Rightarrow> Broker \<Rightarrow> Broker option" where
  "reject_connect d tid reason b =
     map_option (\<lambda>b.
         if unat tid < max_clients b
         then upd_conn tid (\<lambda>c. c\<lparr>cn_in_use := False, cn_session := NULL_SESSION\<rparr>)
                (close_transport tid b)
         else b)
       (send_connack d tid reason False None 0 (bump mt_connect_reject_update b))"

text \<open>Decimal digits, as \<open>snprintf\<close> prints an unsigned number.\<close>

function decimal :: "nat \<Rightarrow> byte list" where
  "decimal n = (if n < 10 then [] else decimal (n div 10)) @ [of_nat (48 + n mod 10)]"
  by pat_completeness auto
termination by (relation "measure id") auto

declare decimal.simps [simp del]

definition assigned_client_id :: "nat \<Rightarrow> u32 \<Rightarrow> byte list" where
  "assigned_client_id slot_hint serial =
     take 63 (ascii ''nb-'' @ decimal slot_hint @ ascii ''-'' @ decimal (unat serial))"

text \<open>The identifier of the session: the client's, or one the broker assigns. \<open>Inl\<close> is a rejection.\<close>

definition effective_client_id ::
  "ParsedPacket \<Rightarrow> Broker \<Rightarrow> (ReasonCode + byte list \<times> bool) \<times> Broker"
where
  "effective_client_id pkt b =
     (if pk_client_id pkt = [] then
        if \<not> pk_clean_start pkt then (Inl ProtocolError, b)
        else case alloc_session_slot b of
            None \<Rightarrow> (Inl QuotaExceeded, b)
          | Some slot_hint \<Rightarrow>
              let serial = bk_assign_serial b + 1
              in (Inr (assigned_client_id slot_hint serial, True), b\<lparr>bk_assign_serial := serial\<rparr>)
      else (Inr (pk_client_id pkt, False), b))"

text \<open>The old connection of a session that is taken over.\<close>

definition take_over :: "disconnector \<Rightarrow> nat \<Rightarrow> u16 \<Rightarrow> bool \<Rightarrow> Broker \<Rightarrow> Broker option" where
  "take_over d i old_transport resume_session b =
     (let s = sess b i; had_will = (wm_valid (sn_will s) \<and> wm_topic (sn_will s) \<noteq> []) in
      map_option (\<lambda>b1.
          let b2 = bump mt_session_takeovers_update (send_disconnect old_transport SessionTakenOver b1)
          in client_gone (upd_conn old_transport (\<lambda>c. c\<lparr>cn_session := NULL_SESSION, cn_in_use := False\<rparr>)
               (close_transport old_transport b2)))
        (if had_will \<and> (\<not> resume_session \<or> sn_will_delay_interval s = 0)
         then map_option (release_will i) (publish_stored_will d i b) else Some b))"

definition negotiated_keepalive :: "BrokerPolicy \<Rightarrow> ParsedPacket \<Rightarrow> u16" where
  "negotiated_keepalive policy pkt =
     (let k = pk_keep_alive pkt; m = max_keep_alive_sec policy in
      if pk_protocol_level pkt \<ge> 5 \<and> m > 0 then
        if k = 0 \<or> k > of_int m then of_int m else k
      else k)"

text \<open>The fields of the session that the CONNECT sets, in the order of the code.\<close>

definition connect_session :: "BrokerPolicy \<Rightarrow> byte list \<Rightarrow> bool \<Rightarrow> ParsedPacket \<Rightarrow> SessionRecord \<Rightarrow> SessionRecord" where
  "connect_session policy effective_id server_assigned pkt s =
     s\<lparr>sn_client_id := take 63 effective_id,
       sn_keep_alive_sec := negotiated_keepalive policy pkt,
       sn_client_max_packet_size := pk_client_max_packet_size pkt,
       sn_client_receive_maximum := pk_client_receive_maximum pkt,
       sn_clean_start := (pk_clean_start pkt \<or> server_assigned),
       sn_session_expiry_interval :=
         (if pk_protocol_level pkt = 4 then (if pk_clean_start pkt then 0 else 0xFFFFFFFF)
          else pk_session_expiry_interval pkt),
       sn_will_delay_interval := pk_will_delay_interval pkt,
       sn_session_expiry_deadline_tick := SESSION_TICK_NONE,
       sn_will_fire_deadline_tick := SESSION_TICK_NONE,
       sn_suppress_will := False\<rparr>"

definition store_will :: "nat \<Rightarrow> ParsedPacket \<Rightarrow> Broker \<Rightarrow> Broker" where
  "store_will i pkt b =
     (if \<not> pk_will_flag pkt then b
      else
        let b1 = upd_sess i (\<lambda>s. s\<lparr>sn_will := \<lparr>wm_valid = True, wm_topic = take 255 (pk_will_topic pkt),
              wm_payload = pk_will_payload pkt, wm_payload_len = pk_will_payload_len pkt,
              wm_qos = pk_will_qos pkt, wm_retain = pk_will_retain pkt\<rparr>\<rparr>) (release_will i b)
        in attach_publish_metadata (pk_will_payload pkt) (pk_will_properties pkt) 0 b1)"

text \<open>The offline queue is replayed until it is empty or a delivery is refused; every turn pops.\<close>

primrec flush_loop :: "disconnector \<Rightarrow> nat \<Rightarrow> u16 \<Rightarrow> SessionHandle \<Rightarrow> Broker \<Rightarrow> Broker option" where
  "flush_loop d 0 tid session b = Some b"
| "flush_loop d (Suc n) tid session b =
     (let i = unat (slot session);
          pop = (\<lambda>b. b\<lparr>bk_offline_queues :=
            (bk_offline_queues b)[i := snd (oq_pop (bk_offline_queues b ! i))]\<rparr>)
      in case oq_peek (bk_offline_queues b ! i) of
           None \<Rightarrow> Some b
         | Some pd \<Rightarrow>
             if message_expired b (pd_message pd)
             then flush_loop d n tid session
                    (pop (drop_refs (pd_message pd) (pd_topic pd) (bump mt_messages_expired_update b)))
             else case enqueue_delivery d tid session (topic_ptr b (pd_topic pd)) (pd_message pd)
                    (payload_size (bk_msg_pool b) (pd_message pd)) (pd_delivery_qos pd)
                    (pd_retain_flag pd) b of
                 None \<Rightarrow> None
               | Some (ok, b1) \<Rightarrow> if \<not> ok then Some b1 else flush_loop d n tid session (pop b1))"

definition flush_offline_queue :: "disconnector \<Rightarrow> u16 \<Rightarrow> SessionHandle \<Rightarrow> Broker \<Rightarrow> Broker option" where
  "flush_offline_queue d tid session b =
     (if unat (slot session) \<ge> max_clients b then Some b
      else flush_loop d (oq_count (bk_offline_queues b ! unat (slot session))) tid session b)"

text \<open>From the accepted session slot to the CONNACK and the replay of stored messages.\<close>

definition accept_connect ::
  "disconnector \<Rightarrow> u16 \<Rightarrow> nat \<Rightarrow> byte list \<Rightarrow> bool \<Rightarrow> ParsedPacket \<Rightarrow> Broker \<Rightarrow> Broker option"
where
  "accept_connect d tid i effective_id server_assigned pkt b =
     (let fresh = (pk_clean_start pkt \<or> server_assigned);
          b1 = (if fresh then clear_session_qos_state i (clear_session_state i True b) else b);
          b2 = store_will i pkt
                 (upd_sess i (connect_session (bk_policy b1) effective_id server_assigned pkt) b1);
          session_present = (\<not> fresh \<and> session_has_presentable_state b2 i);
          b3 = upd_sess i (\<lambda>s. s\<lparr>sn_state := Connected, sn_transport_id := tid,
                 sn_last_control_tick := bk_current_tick b2\<rparr>) b2;
          b4 = upd_conn tid (\<lambda>c. c\<lparr>cn_session := \<lparr>slot = of_nat i,
                 generation = generation (sn_self (sess b3 i))\<rparr>\<rparr>) b3;
          m = bk_metrics b4; n = mt_clients_connected m + 1;
          b5 = b4\<lparr>bk_metrics := m\<lparr>mt_connect_accept := mt_connect_accept m + 1,
                 mt_clients_connected := n,
                 mt_clients_connected_peak := (if n > mt_clients_connected_peak m then n
                   else mt_clients_connected_peak m)\<rparr>\<rparr>;
          k = negotiated_keepalive (bk_policy b1) pkt
      in do {
        b6 \<leftarrow> send_connack d tid Success session_present
                (if server_assigned then Some effective_id else None)
                (if k \<noteq> pk_keep_alive pkt then k else 0) b5;
        if \<not> cn_in_use (conn b6 tid) then Some b6
        else flush_offline_queue d tid \<lparr>slot = of_nat i, generation = generation (sn_self (sess b6 i))\<rparr>
               (if session_present then retransmit_session_inflight tid i b6 else b6)
      })"

definition handle_connect :: "disconnector \<Rightarrow> u16 \<Rightarrow> ParsedPacket \<Rightarrow> Broker \<Rightarrow> Broker option" where
  "handle_connect d tid pkt b =
     (let b = (if unat tid < max_clients b
               then upd_conn tid (\<lambda>c. c\<lparr>cn_protocol_level := pk_protocol_level pkt\<rparr>) b else b);
          reject = (\<lambda>reason b. reject_connect d tid reason (release_if_valid (pk_will_payload pkt) b));
          auth_rc = (case bk_auth b of
              None \<Rightarrow> Success
            | Some auth \<Rightarrow> auth (pk_client_id pkt)
                (if pk_has_username pkt then Some (pk_username pkt) else None)
                (if pk_has_password pkt then Some (pk_password pkt) else None)
                (length (pk_password pkt)))
      in if auth_rc \<noteq> Success then reject auth_rc b
         else case effective_client_id pkt b of
             (Inl reason, b) \<Rightarrow> reject reason b
           | (Inr (effective_id, server_assigned), b) \<Rightarrow>
               let existing = find_session_by_client_id b effective_id;
                   target = (case existing of Some i \<Rightarrow> Some i | None \<Rightarrow> alloc_session_slot b)
               in case target of
                    None \<Rightarrow> reject QuotaExceeded b
                  | Some i \<Rightarrow>
                      if pk_will_flag pkt \<and> pk_will_topic pkt = [] then reject TopicNameInvalid b
                      else
                        let old_transport = (if existing \<noteq> None \<and> sn_state (sess b i) = Connected
                              then sn_transport_id (sess b i) else 0xFFFF)
                        in do {
                          b \<leftarrow> (if old_transport \<noteq> 0xFFFF \<and> old_transport \<noteq> tid
                                then take_over d i old_transport
                                       (\<not> pk_clean_start pkt \<and> \<not> server_assigned) b
                                else Some b);
                          accept_connect d tid i effective_id server_assigned pkt b
                        })"

section \<open>PUBLISH and the acknowledgements\<close>

text \<open>The part of \<open>handle_publish\<close> for QoS 2 (and 3, which the first test excludes).\<close>

definition handle_publish_qos2 :: "disconnector \<Rightarrow> u16 \<Rightarrow> ParsedPacket \<Rightarrow> nat \<Rightarrow> Broker \<Rightarrow> Broker option" where
  "handle_publish_qos2 d tid pkt i b =
     (let k = unat (slot (sn_self (sess b i))); tbl = bk_inbound_qos2 b ! k;
          seen = (case ib_find tbl (pk_packet_id pkt) of None \<Rightarrow> False | Some e \<Rightarrow> ii_pubrec_sent (tbl ! e))
      in if seen
         then Some (snd (send_pubrec tid (pk_packet_id pkt) Success (release_if_valid (pk_payload pkt) b)))
         else case msg_acquire (pk_payload pkt) (bk_msg_pool b) of
             (False, mp) \<Rightarrow> d tid False (b\<lparr>bk_msg_pool := mp\<rparr>)
           | (True, mp) \<Rightarrow>
               let b1 = b\<lparr>bk_msg_pool := mp\<rparr> in
               (case ib_insert (pk_packet_id pkt) (pk_topic pkt) (pk_payload pkt) (pk_payload_len pkt)
                       (pk_retain pkt) (pk_qos pkt) (pk_dup pkt) (bk_inbound_qos2 b1 ! k) of
                  (None, _) \<Rightarrow> d tid False (release_msg (pk_payload pkt) b1)
                | (Some e, tbl1) \<Rightarrow>
                    let b2 = b1\<lparr>bk_inbound_qos2 := (bk_inbound_qos2 b1)[k := tbl1]\<rparr> in
                    if \<not> ii_pubrec_sent (tbl1 ! e)
                    then Some (snd (send_pubrec tid (pk_packet_id pkt) Success
                           (b2\<lparr>bk_inbound_qos2 := (bk_inbound_qos2 b2)[k :=
                              tbl1[e := (tbl1 ! e)\<lparr>ii_pubrec_sent := True\<rparr>]]\<rparr>)))
                    else Some b2))"

definition handle_publish :: "disconnector \<Rightarrow> u16 \<Rightarrow> ParsedPacket \<Rightarrow> Broker \<Rightarrow> Broker option" where
  "handle_publish d tid pkt b =
     (if pk_qos pkt > ConnackCaps_MaximumQos then d tid False b
      else
        let b = bump mt_publish_received_update b in
        case session_record b (session_for_transport b tid) of
          None \<Rightarrow> Some (release_if_valid (pk_payload pkt) b)
        | Some i \<Rightarrow>
            let b = attach_publish_metadata (pk_payload pkt) (pk_properties pkt) (bk_current_tick b) b;
                route = route_publish d tid (TextRef (pk_topic pkt)) (pk_qos pkt) (pk_retain pkt)
                  (pk_payload pkt) (pk_payload_len pkt)
            in if pk_qos pkt = 0 then map_option (release_if_valid (pk_payload pkt)) (route b)
               else if pk_qos pkt = 1
               then map_option (\<lambda>b. release_if_valid (pk_payload pkt)
                      (snd (send_puback tid (pk_packet_id pkt) Success b))) (route b)
               else handle_publish_qos2 d tid pkt i b)"

text \<open>The session behind the transport and its in-flight table, for a nonzero packet identifier.\<close>

definition ack_session :: "u16 \<Rightarrow> ParsedPacket \<Rightarrow> Broker \<Rightarrow> nat option" where
  "ack_session tid pkt b =
     (case session_record b (session_for_transport b tid) of
        None \<Rightarrow> None
      | Some i \<Rightarrow> if pk_packet_id pkt = 0 then None else Some (unat (slot (sn_self (sess b i)))))"

definition handle_puback :: "u16 \<Rightarrow> ParsedPacket \<Rightarrow> Broker \<Rightarrow> Broker" where
  "handle_puback tid pkt b =
     (case ack_session tid pkt b of
        None \<Rightarrow> b
      | Some k \<Rightarrow>
          (case ob_find (bk_outbound_inflight b ! k) (pk_packet_id pkt) of
             None \<Rightarrow> b
           | Some e \<Rightarrow>
               if oi_delivery_qos (ob_entries (bk_outbound_inflight b ! k) ! e) \<noteq> 1 then b
               else release_outbound_inflight k (pk_packet_id pkt) b))"

definition handle_pubrec :: "u16 \<Rightarrow> ParsedPacket \<Rightarrow> Broker \<Rightarrow> Broker" where
  "handle_pubrec tid pkt b =
     (case ack_session tid pkt b of
        None \<Rightarrow> b
      | Some k \<Rightarrow>
          let ob = bk_outbound_inflight b ! k in
          (case ob_find ob (pk_packet_id pkt) of
             None \<Rightarrow> b
           | Some e \<Rightarrow>
               let entry = ob_entries ob ! e in
               if oi_delivery_qos entry \<noteq> 2 \<or> oi_qos2_phase entry \<noteq> AwaitingPubrec then b
               else if pk_ack_reason_code pkt \<ge> 0x80
               then release_outbound_inflight k (pk_packet_id pkt) b
               else snd (send_pubrel tid (pk_packet_id pkt) Success
                      (b\<lparr>bk_outbound_inflight := (bk_outbound_inflight b)[k :=
                         ob\<lparr>ob_entries := (ob_entries ob)[e := entry\<lparr>oi_qos2_phase := AwaitingPubcomp\<rparr>]\<rparr>]\<rparr>))))"

definition handle_pubrel :: "disconnector \<Rightarrow> u16 \<Rightarrow> ParsedPacket \<Rightarrow> Broker \<Rightarrow> Broker option" where
  "handle_pubrel d tid pkt b =
     (case session_record b (session_for_transport b tid) of
        None \<Rightarrow> Some b
      | Some i \<Rightarrow>
          if pk_packet_id pkt = 0 then Some b
          else
            let k = unat (slot (sn_self (sess b i))); tbl = bk_inbound_qos2 b ! k in
            case ib_find tbl (pk_packet_id pkt) of
              None \<Rightarrow> Some b
            | Some e \<Rightarrow>
                let p = tbl ! e in
                map_option (\<lambda>b1.
                    let k1 = unat (slot (sn_self (sess b1 i)));
                        (_, tbl1, mp) = ib_remove (pk_packet_id pkt) (bk_inbound_qos2 b1 ! k1) (bk_msg_pool b1)
                    in snd (send_pubcomp tid (pk_packet_id pkt) Success
                         (b1\<lparr>bk_msg_pool := mp, bk_inbound_qos2 := (bk_inbound_qos2 b1)[k1 := tbl1]\<rparr>)))
                  (route_publish d tid (InboundRef k e) (ii_qos p) (ii_retain p) (ii_payload p)
                     (ii_payload_len p) b))"

definition handle_pubcomp :: "u16 \<Rightarrow> ParsedPacket \<Rightarrow> Broker \<Rightarrow> Broker" where
  "handle_pubcomp tid pkt b =
     (case ack_session tid pkt b of
        None \<Rightarrow> b
      | Some k \<Rightarrow>
          (case ob_find (bk_outbound_inflight b ! k) (pk_packet_id pkt) of
             None \<Rightarrow> b
           | Some e \<Rightarrow>
               if oi_delivery_qos (ob_entries (bk_outbound_inflight b ! k) ! e) \<noteq> 2 then b
               else release_outbound_inflight k (pk_packet_id pkt) b))"

section \<open>SUBSCRIBE, UNSUBSCRIBE, PINGREQ, DISCONNECT\<close>

definition deliver_retained_for_filter ::
  "disconnector \<Rightarrow> u16 \<Rightarrow> SessionHandle \<Rightarrow> byte list \<Rightarrow> u8 \<Rightarrow> Broker \<Rightarrow> Broker option"
where
  "deliver_retained_for_filter d tid session flt options_byte b =
     (case session_record b session of
        None \<Rightarrow> Some b
      | Some i \<Rightarrow>
          if sn_state (sess b i) \<noteq> Connected then Some b
          else if drop_bit 4 options_byte AND 0x03 = 2 then Some b
          else
            let req_qos = options_byte AND 0x03;
                granted = (if req_qos > ConnackCaps_MaximumQos then ConnackCaps_MaximumQos else req_qos)
            in fold_opt (\<lambda>ri b.
                case retained_entry_at (bk_retained b) ri of
                  None \<Rightarrow> Some b
                | Some (th, m) \<Rightarrow>
                    let topic = deref b (topic_ptr b th) in
                    if topic = [] \<or> \<not> topic_matches_filter topic flt then Some b
                    else if message_expired b m
                    then Some (drop_retained th (bump mt_messages_expired_update b))
                    else map_option snd (enqueue_delivery d tid session (topic_ptr b th) m
                           (payload_size (bk_msg_pool b) m) granted True b))
              [0..<MaxRetainedEntries (bk_limits b)] b)"

definition subscribe_entry ::
  "disconnector \<Rightarrow> u16 \<Rightarrow> nat \<Rightarrow> ParsedSubscribeEntry \<Rightarrow> ReasonCode list \<times> Broker
     \<Rightarrow> (ReasonCode list \<times> Broker) option"
where
  "subscribe_entry d tid i e acc =
     (let (rcs, b) = acc; flt = sub_filter e; options_byte = sub_options_byte e in
      if take 7 flt = ascii ''$share/'' then Some (rcs @ [SharedSubscriptionsNotSupported], b)
      else
        let req_qos = options_byte AND 0x03;
            granted = (if req_qos > ConnackCaps_MaximumQos then ConnackCaps_MaximumQos else req_qos)
        in case trie_subscribe flt (slot (sn_self (sess b i))) granted options_byte (bk_topic_trie b) of
             None \<Rightarrow> None
           | Some (r, t) \<Rightarrow>
               let b1 = b\<lparr>bk_topic_trie := t\<rparr> in
               if \<not> sr_ok r then Some (rcs @ [QuotaExceeded], b1)
               else
                 let b2 = upd_sess i (\<lambda>s. s\<lparr>sn_has_subscription_state := True\<rparr>) b1
                 in if drop_bit 4 options_byte AND 0x03 = 1 \<and> sr_existed r
                    then Some (rcs @ [granted_reason granted], b2)
                    else map_option (Pair (rcs @ [granted_reason granted]))
                           (deliver_retained_for_filter d tid (sn_self (sess b2 i)) flt options_byte b2))"

definition handle_subscribe :: "disconnector \<Rightarrow> u16 \<Rightarrow> ParsedPacket \<Rightarrow> Broker \<Rightarrow> Broker option" where
  "handle_subscribe d tid pkt b =
     (case session_record b (session_for_transport b tid) of
        None \<Rightarrow> Some b
      | Some i \<Rightarrow> do {
          (rcs, b1) \<leftarrow> fold_opt (subscribe_entry d tid i) (pk_subscribe_entries pkt) ([], b);
          let buf = encode_suback 64 (pk_packet_id pkt) rcs (cn_protocol_level (conn b1 tid));
          Some (if buf = [] then b1 else snd (call_write tid buf b1))
        })"

definition unsubscribe_entry :: "nat \<Rightarrow> ParsedSubscribeEntry \<Rightarrow> ReasonCode list \<times> Broker \<Rightarrow> ReasonCode list \<times> Broker" where
  "unsubscribe_entry i e acc =
     (let (rcs, b) = acc;
          (ok, t) = trie_unsubscribe (sub_filter e) (slot (sn_self (sess b i))) (bk_topic_trie b)
      in (rcs @ [if ok then Success else NoSubscriptionExisted], b\<lparr>bk_topic_trie := t\<rparr>))"

definition handle_unsubscribe :: "u16 \<Rightarrow> ParsedPacket \<Rightarrow> Broker \<Rightarrow> Broker" where
  "handle_unsubscribe tid pkt b =
     (case session_record b (session_for_transport b tid) of
        None \<Rightarrow> b
      | Some i \<Rightarrow>
          if pk_subscribe_entries pkt = [] then b
          else
            let (rcs, b1) = fold (unsubscribe_entry i) (pk_subscribe_entries pkt) ([], b);
                buf = encode_unsuback 64 (pk_packet_id pkt) rcs (cn_protocol_level (conn b1 tid))
            in if buf = [] then b1 else snd (call_write tid buf b1))"

definition handle_ping :: "u16 \<Rightarrow> Broker \<Rightarrow> Broker" where
  "handle_ping tid b =
     (let buf = encode_pingresp 4 in if buf = [] then b else snd (call_write tid buf b))"

definition handle_disconnect :: "disconnector \<Rightarrow> u16 \<Rightarrow> ParsedPacket \<Rightarrow> Broker \<Rightarrow> Broker option" where
  "handle_disconnect d tid pkt b =
     d tid False
       (case session_record b (session_for_transport b tid) of
          None \<Rightarrow> b
        | Some i \<Rightarrow> upd_sess i (\<lambda>s. s\<lparr>sn_suppress_will := (pk_disconnect_reason pkt \<noteq> 0x04),
            sn_session_expiry_interval := (if pk_disconnect_session_expiry pkt \<noteq> 0xFFFFFFFF
              then pk_disconnect_session_expiry pkt else sn_session_expiry_interval s)\<rparr>) b)"

section \<open>Entry points\<close>

definition handle_packet :: "disconnector \<Rightarrow> u16 \<Rightarrow> ParsedPacket \<Rightarrow> Broker \<Rightarrow> (bool \<times> Broker) option" where
  "handle_packet d tid pkt b =
     (let b = touch_keepalive tid (bk_current_tick b) b; handled = map_option (Pair True) in
      case pk_type pkt of
        Connect \<Rightarrow> handled (handle_connect d tid pkt b)
      | Publish \<Rightarrow> handled (handle_publish d tid pkt b)
      | Puback \<Rightarrow> handled (Some (handle_puback tid pkt b))
      | Pubrec \<Rightarrow> handled (Some (handle_pubrec tid pkt b))
      | Pubrel \<Rightarrow> handled (handle_pubrel d tid pkt b)
      | Pubcomp \<Rightarrow> handled (Some (handle_pubcomp tid pkt b))
      | Subscribe \<Rightarrow> handled (handle_subscribe d tid pkt b)
      | Unsubscribe \<Rightarrow> handled (Some (handle_unsubscribe tid pkt b))
      | Pingreq \<Rightarrow> handled (Some (handle_ping tid b))
      | Disconnect \<Rightarrow> handled (handle_disconnect d tid pkt b)
      | Auth \<Rightarrow> map_option (Pair False) (d tid False (send_disconnect tid BadAuthenticationMethod b))
      | _ \<Rightarrow>
          let b = bump mt_parser_errors_update b
          in if act_disconnect (protocol_error_action ProtocolError)
             then map_option (Pair False) (d tid False b) else Some (False, b))"

definition feed_conn :: "u16 \<Rightarrow> byte list \<Rightarrow> Broker \<Rightarrow> nat \<times> Broker" where
  "feed_conn tid bs b =
     (let (n, p, mp, pp) = feed (bk_limits b) bs (cn_parser (conn b tid), bk_msg_pool b, bk_prop_pool b)
      in (n, upd_conn tid (\<lambda>c. c\<lparr>cn_parser := p\<rparr>) (b\<lparr>bk_msg_pool := mp, bk_prop_pool := pp\<rparr>)))"

definition release_props :: "PropertyHandle \<Rightarrow> Broker \<Rightarrow> Broker" where
  "release_props h b =
     (if props_valid (bk_prop_pool b) h then b\<lparr>bk_prop_pool := props_release h (bk_prop_pool b)\<rparr> else b)"

text \<open>The loop over the bytes of one read; each turn consumes at least one byte.\<close>

primrec read_loop :: "disconnector \<Rightarrow> nat \<Rightarrow> u16 \<Rightarrow> byte list \<Rightarrow> Broker \<Rightarrow> Broker option" where
  "read_loop d 0 tid bs b = Some b"
| "read_loop d (Suc fuel) tid bs b =
     (if bs = [] then Some b
      else
        let (consumed, b1) = feed_conn tid bs b; p = cn_parser (conn b1 tid); pkt = pa_packet p in
        if consumed = 0 then Some b1
        else if packet_ready p then do {
          (_, b2) \<leftarrow> handle_packet d tid pkt b1;
          let b3 = release_props (pk_properties pkt) b2;
          let b4 = release_props (pk_will_properties pkt) b3;
          read_loop d fuel tid (drop consumed bs)
            (upd_conn tid (\<lambda>c. c\<lparr>cn_parser := parser_reset (cn_parser c)\<rparr>) b4)
        }
        else if pa_phase p = Error then d tid False (bump mt_parser_errors_update b1)
        else read_loop d fuel tid (drop consumed bs) b1)"

definition on_readable :: "disconnector \<Rightarrow> u16 \<Rightarrow> Broker \<Rightarrow> Broker option" where
  "on_readable d tid b =
     (if unat tid \<ge> max_clients b \<or> \<not> cn_in_use (conn b tid) then Some b
      else case tr_read (cn_transport (conn b tid)) of
          None \<Rightarrow> Some b
        | Some r \<Rightarrow>
            let (n, buf) = r (bk_log b) (ParserReadChunk (bk_limits b));
                bs = take (nat n) buf;
                b1 = b\<lparr>bk_log := bk_log b @ [IoRead (tr_ctx (cn_transport (conn b tid))) n bs]\<rparr>
            in if n < 0 then (if n \<noteq> - 1 then d tid False b1 else Some b1)
               else if n = 0 then detach_transport d tid b1
               else read_loop d (length bs) tid bs b1)"

definition tick_connection :: "disconnector \<Rightarrow> u32 \<Rightarrow> u16 \<Rightarrow> Broker \<Rightarrow> Broker option" where
  "tick_connection d now_ticks tid b =
     (let c = conn b tid in
      if \<not> cn_in_use c then Some b
      else
        let live = (case session_record b (cn_session c) of
              None \<Rightarrow> None | Some i \<Rightarrow> if sn_state (sess b i) = Connected then Some i else None)
        in case live of
             None \<Rightarrow>
               let timeout = connect_handshake_timeout_sec (bk_policy b) in
               if timeout > 0 \<and> cn_attached_tick c \<noteq> 0 \<and> now_ticks - cn_attached_tick c > of_int timeout
               then map_option (upd_conn tid (\<lambda>c. c\<lparr>cn_in_use := False,
                      cn_transport := (cn_transport c)\<lparr>tr_active := False\<rparr>\<rparr>)) (d tid False b)
               else Some b
           | Some i \<Rightarrow>
               let s = sess b i;
                   threshold = ucast (sn_keep_alive_sec s) * of_nat (KeepAliveMultiplierTenths (bk_limits b)) div 10 :: u32
               in if sn_keep_alive_sec s = 0 then Some b
                  else if now_ticks - sn_last_control_tick s > threshold
                  then d tid False (bump mt_keepalive_disconnects_update b)
                  else Some b)"

definition tick :: "disconnector \<Rightarrow> u32 \<Rightarrow> Broker \<Rightarrow> Broker option" where
  "tick d now_ticks b = do {
     b1 \<leftarrow> tick_offline_sessions d (b\<lparr>bk_current_tick := now_ticks\<rparr>);
     fold_opt (tick_connection d now_ticks) (map of_nat [0..<max_clients b])
       (sweep_expired_retained b1)
   }"

text \<open>The calls of the platform, as events.\<close>

datatype BrokerEvent =
    EvAttach BrokerTransport
  | EvDetach u16
  | EvReadable u16
  | EvTick u32
  | EvDrain u16
  | EvPolicy BrokerPolicy
  | EvAuth "AuthCheckFn option"

fun broker_event :: "disconnector \<Rightarrow> BrokerEvent \<Rightarrow> Broker \<Rightarrow> Broker option" where
  "broker_event d (EvAttach t) b = Some (snd (attach_transport t b))"
| "broker_event d (EvDetach tid) b = detach_transport d tid b"
| "broker_event d (EvReadable tid) b = on_readable d tid b"
| "broker_event d (EvTick now) b = tick d now b"
| "broker_event d (EvDrain tid) b = drain_tx d tid b"
| "broker_event d (EvPolicy p) b = Some (broker_set_policy p b)"
| "broker_event d (EvAuth f) b = Some (broker_set_auth_handler f b)"

end
