(* ===== verification/Parser_Inv.thy ===== *)
theory Parser_Inv
  imports Packet_Parser
begin

text \<open>
  What the packet parser keeps, for every input: its staging buffers stay within their arrays, every
  field of the decoded packet fits its buffer, and the message pool and the property pool stay
  consistent. Then the properties of \<open>feed\<close>: it does not matter how the input is cut into reads, and
  what the parser does with the length of a packet.
\<close>

section \<open>The invariant\<close>

definition packet_ok :: "ParsedPacket \<Rightarrow> bool" where
  "packet_ok k \<longleftrightarrow>
     length (pk_topic k) < 256 \<and> length (pk_client_id k) < 256 \<and> length (pk_protocol_name k) < 16
     \<and> length (pk_username k) < kMaxUsernameLen \<and> length (pk_password k) \<le> kMaxPasswordLen
     \<and> length (pk_will_topic k) < 256 \<and> length (pk_subscribe_entries k) \<le> kMaxSubscribeEntries
     \<and> (\<forall>e \<in> set (pk_subscribe_entries k). length (sub_filter e) < 256)"

definition parser_core :: "parser_state \<Rightarrow> bool" where
  "parser_core st \<longleftrightarrow>
     (case st of (p, mp, pp) \<Rightarrow>
        mp_inv mp \<and> pp_inv pp \<and> packet_ok (pa_packet p)
        \<and> length (pa_rl_buf p) \<le> 4 \<and> length (pa_control_buf p) \<le> kControlBufSize)"

text \<open>While the remaining length is read, every byte staged so far announces another one.\<close>

definition parser_inv :: "parser_state \<Rightarrow> bool" where
  "parser_inv st \<longleftrightarrow>
     parser_core st \<and> (pa_phase (fst st) = RemainingLength \<longrightarrow> length (pa_rl_buf (fst st)) < 4)"

lemma parser_core_pair:
  "parser_core (p, mp, pp) \<longleftrightarrow> mp_inv mp \<and> pp_inv pp \<and> packet_ok (pa_packet p)
     \<and> length (pa_rl_buf p) \<le> 4 \<and> length (pa_control_buf p) \<le> kControlBufSize"
  by (simp add: parser_core_def)

lemma parser_inv_pair:
  "parser_inv (p, mp, pp) \<longleftrightarrow> mp_inv mp \<and> pp_inv pp \<and> packet_ok (pa_packet p)
     \<and> length (pa_rl_buf p) \<le> 4 \<and> length (pa_control_buf p) \<le> kControlBufSize
     \<and> (pa_phase p = RemainingLength \<longrightarrow> length (pa_rl_buf p) < 4)"
  by (simp add: parser_inv_def parser_core_pair)

lemma parser_core_of_inv: "parser_inv st \<Longrightarrow> parser_core st"
  by (simp add: parser_inv_def)

lemma packet_ok_init: "packet_ok packet_init"
  by (simp add: packet_ok_def packet_init_def kMaxUsernameLen_def)

lemma parser_inv_new: "mp_inv mp \<Longrightarrow> pp_inv pp \<Longrightarrow> parser_inv (PacketParser_new limits, mp, pp)"
  by (simp add: parser_inv_pair PacketParser_new_def parser_reset_def packet_ok_init)

lemma parser_inv_reset: "parser_inv (p, mp, pp) \<Longrightarrow> parser_inv (parser_reset p, mp, pp)"
  by (simp add: parser_inv_pair parser_reset_def packet_ok_init)

lemma length_cstr_slice: "length (cstr (slice a n xs)) \<le> n"
  using length_cstr_le [of "slice a n xs"] by (simp add: slice_def)

lemma length_cstr_slice_less: "n < m \<Longrightarrow> length (cstr (slice a n xs)) < m"
  using length_cstr_slice [of a n xs] by simp

section \<open>Errors\<close>

lemma enter_error_inv:
  assumes "parser_core st" shows "parser_inv (enter_error reason st)"
  using assms
  by (cases st) (auto simp: parser_core_pair parser_inv_pair enter_error_def Let_def packet_ok_def mp_inv_release
      props_release_effect(1))

section \<open>The decoders\<close>

lemma connect_vh_ok:
  "packet_ok pkt \<Longrightarrow> packet_ok (snd (parse_connect_variable_header buf pkt))"
  by (auto simp: parse_connect_variable_header_def Let_def packet_ok_def
      intro!: length_cstr_slice_less)

lemma will_properties_ok:
  assumes "packet_ok pkt" and "pp_inv pp" and "parse_will_properties buf off pkt pp = (ok, off', pkt', pp')"
  shows "packet_ok pkt' \<and> pp_inv pp'"
proof (cases "pp' = pp \<and> pkt' = pkt")
  case False
  then obtain vr h where "parse_and_validate_properties Connect (slice off (bytes_consumed (varint_decode (drop off buf))
        + unat (vvalue (varint_decode (drop off buf)))) buf) pp = (vr, h, pp')"
    and "pkt' = pkt\<lparr>pk_will_properties := h\<rparr>"
    using assms(3) by (auto simp: parse_will_properties_def Let_def split: if_splits prod.splits)
  with assms show ?thesis
    using parse_properties_inv [of pp] by (simp add: packet_ok_def)
qed (use assms in simp)

lemma will_payload_ok:
  assumes "packet_ok pkt" and "mp_inv mp" and "parse_will_payload buf off pkt mp = (ok, off', pkt', mp')"
  shows "packet_ok pkt' \<and> mp_inv mp'"
proof -
  have "mp_inv (snd (acquire_empty mp))" by (rule mp_inv_acquire_empty [OF assms(2)])
  moreover from this have "mp_inv (snd (append_payload h d (snd (acquire_empty mp))))" for h d
    by (rule mp_inv_append)
  ultimately show ?thesis
    using assms mp_inv_release
    by (auto simp: parse_will_payload_def Let_def packet_ok_def split: if_splits prod.splits)
      (metis snd_conv)+
qed

lemma will_section_ok:
  assumes "packet_ok pkt" and "mp_inv mp" and "pp_inv pp"
    and "parse_connect_will_section buf off pkt mp pp = (ok, off', pkt', mp', pp')"
  shows "packet_ok pkt' \<and> mp_inv mp' \<and> pp_inv pp'"
proof -
  let ?pkt0 = "pkt\<lparr>pk_will_flag := True, pk_will_qos := drop_bit 3 (pk_connect_flags pkt) AND 0x03,
      pk_will_retain := (pk_connect_flags pkt AND 0x20 \<noteq> 0)\<rparr>"
  obtain ok1 off1 pkt1 pp1 where w: "parse_will_properties buf off ?pkt0 pp = (ok1, off1, pkt1, pp1)"
    by (cases "parse_will_properties buf off ?pkt0 pp") auto
  have 1: "packet_ok pkt1" "pp_inv pp1"
    using will_properties_ok [OF _ assms(3) w] assms(1) by (simp_all add: packet_ok_def)
  let ?n = "unat (read_u16_be (drop off1 buf))"
  let ?pkt2 = "pkt1\<lparr>pk_will_topic := cstr (slice (off1 + 2) ?n buf)\<rparr>"
  have unf: "parse_connect_will_section buf off pkt mp pp =
     (if pk_connect_flags pkt AND 0x04 = 0 then (True, off, pkt, mp, pp)
      else if off > length buf then (False, off, pkt, mp, pp)
      else if \<not> ok1 \<or> off1 + 2 > length buf then (False, off1, pkt1, mp, pp1)
      else if off1 + 2 + ?n > length buf \<or> ?n = 0 \<or> ?n \<ge> 256 then (False, off1 + 2, pkt1, mp, pp1)
      else if \<not> topic_valid (pk_will_topic ?pkt2) then (False, off1 + 2 + ?n, ?pkt2, mp, pp1)
      else (case parse_will_payload buf (off1 + 2 + ?n) ?pkt2 mp of (ok, off, pkt3, mp1) \<Rightarrow> (ok, off, pkt3, mp1, pp1)))"
    using w by (simp add: parse_connect_will_section_def Let_def)
  show ?thesis
  proof (cases "?n < 256")
    case True
    then have 2: "packet_ok ?pkt2"
      using 1(1) length_cstr_slice_less [of ?n 256 "off1 + 2" buf] by (simp add: packet_ok_def)
    with assms 1 will_payload_ok [OF 2 assms(2)] show ?thesis
      unfolding unf by (simp split: if_splits prod.splits)
  next
    case False
    with assms 1 show ?thesis unfolding unf by (simp split: if_splits)
  qed
qed

lemma username_ok: "packet_ok pkt \<Longrightarrow> packet_ok (snd (snd (parse_username buf off pkt)))"
  by (auto simp: parse_username_def Let_def packet_ok_def intro!: length_cstr_slice_less)

lemma password_ok: "packet_ok pkt \<Longrightarrow> packet_ok (snd (snd (parse_password buf off pkt)))"
  by (auto simp: parse_password_def Let_def packet_ok_def slice_def)

lemma connect_payload_ok:
  assumes "packet_ok pkt" and "mp_inv mp" and "pp_inv pp"
    and "parse_connect_payload buf pkt mp pp = (ok, pkt', mp', pp')"
  shows "packet_ok pkt' \<and> mp_inv mp' \<and> pp_inv pp'"
proof -
  let ?pkt0 = "pkt\<lparr>pk_will_flag := False, pk_will_qos := 0, pk_will_retain := False,
      pk_will_topic := [], pk_will_payload := NULL_MESSAGE, pk_will_payload_len := 0,
      pk_will_properties := NULL_PROPERTY, pk_has_username := False,
      pk_has_password := False, pk_username := [], pk_password := []\<rparr>"
  let ?n = "unat (read_u16_be buf)"
  let ?pkt1 = "?pkt0\<lparr>pk_client_id := cstr (slice 2 ?n buf)\<rparr>"
  have 0: "packet_ok ?pkt0"
    using assms(1) by (simp add: packet_ok_def kMaxUsernameLen_def)
  show ?thesis
  proof (cases "length buf < 2 \<or> 2 + ?n > length buf \<or> ?n \<ge> 256")
    case True
    with assms 0 show ?thesis by (auto simp: parse_connect_payload_def Let_def split: if_splits)
  next
    case False
    then have 1: "packet_ok ?pkt1"
      using 0 length_cstr_slice_less [of ?n 256 2 buf] by (simp add: packet_ok_def)
    obtain ok2 off2 pkt2 mp1 pp1 where w: "parse_connect_will_section buf (2 + ?n) ?pkt1 mp pp = (ok2, off2, pkt2, mp1, pp1)"
      by (cases "parse_connect_will_section buf (2 + ?n) ?pkt1 mp pp") auto
    note 2 = will_section_ok [OF 1 assms(2,3) w]
    obtain ok3 off3 pkt3 where u: "parse_username buf off2 pkt2 = (ok3, off3, pkt3)"
      by (cases "parse_username buf off2 pkt2") auto
    have 3: "packet_ok pkt3" using username_ok [of pkt2 buf off2] 2 u by simp
    obtain ok4 off4 pkt4 where q: "parse_password buf off3 pkt3 = (ok4, off4, pkt4)"
      by (cases "parse_password buf off3 pkt3") auto
    have 4: "packet_ok pkt4" using password_ok [OF 3, of buf off3] q by simp
    show ?thesis
      using assms(4) False w u q 2 3 4
      by (auto simp: parse_connect_payload_def Let_def split: if_splits)
  qed
qed

lemma subscribe_loop_ok:
  assumes "parse_subscribe_loop buf acc = Some (es, rest)" and "length acc \<le> kMaxSubscribeEntries"
    and "\<forall>e \<in> set acc. length (sub_filter e) < 256"
  shows "length es \<le> kMaxSubscribeEntries \<and> (\<forall>e \<in> set es. length (sub_filter e) < 256)"
  using assms
proof (induction "length buf" arbitrary: buf acc rule: less_induct)
  case less
  let ?n = "unat (read_u16_be buf)"
  show ?case
  proof (cases "3 \<le> length buf \<and> length acc < kMaxSubscribeEntries")
    case True
    then have n: "?n < 256" and r: "parse_subscribe_loop (drop (2 + ?n + 1) buf)
        (acc @ [\<lparr>sub_filter = cstr (slice 2 ?n buf), sub_options_byte = buf ! (2 + ?n)\<rparr>]) = Some (es, rest)"
      using less.prems(1) by (subst (asm) parse_subscribe_loop.simps, auto simp: Let_def split: if_splits)+
    show ?thesis
      using True less.prems length_cstr_slice_less [OF n] by (intro less.hyps [OF _ r]) auto
  next
    case False
    with less.prems show ?thesis by (subst (asm) parse_subscribe_loop.simps) auto
  qed
qed

lemma unsubscribe_loop_ok:
  assumes "parse_unsubscribe_loop buf acc = Some (es, rest)" and "length acc \<le> kMaxSubscribeEntries"
    and "\<forall>e \<in> set acc. length (sub_filter e) < 256"
  shows "length es \<le> kMaxSubscribeEntries \<and> (\<forall>e \<in> set es. length (sub_filter e) < 256)"
  using assms
proof (induction "length buf" arbitrary: buf acc rule: less_induct)
  case less
  let ?n = "unat (read_u16_be buf)"
  show ?case
  proof (cases "2 \<le> length buf \<and> length acc < kMaxSubscribeEntries")
    case True
    then have n: "?n < 256" and r: "parse_unsubscribe_loop (drop (2 + ?n) buf)
        (acc @ [\<lparr>sub_filter = cstr (slice 2 ?n buf), sub_options_byte = 0\<rparr>]) = Some (es, rest)"
      using less.prems(1) by (subst (asm) parse_unsubscribe_loop.simps, auto simp: Let_def split: if_splits)+
    show ?thesis
      using True less.prems length_cstr_slice_less [OF n] by (intro less.hyps [OF _ r]) auto
  next
    case False
    with less.prems show ?thesis by (subst (asm) parse_unsubscribe_loop.simps) auto
  qed
qed

lemma subscribe_payload_ok: "packet_ok pkt \<Longrightarrow> packet_ok (snd (parse_subscribe_payload buf pkt))"
  using subscribe_loop_ok [of buf "[]"]
  by (auto simp: parse_subscribe_payload_def packet_ok_def split: option.splits prod.splits)

lemma unsubscribe_payload_ok: "packet_ok pkt \<Longrightarrow> packet_ok (snd (parse_unsubscribe_payload buf pkt))"
  using unsubscribe_loop_ok [of buf "[]"]
  by (auto simp: parse_unsubscribe_payload_def packet_ok_def split: option.splits prod.splits)

lemma fold_keeps: "(\<And>x s. P s \<Longrightarrow> P (f x s)) \<Longrightarrow> P s \<Longrightarrow> P (fold f xs s)"
  by (induction xs arbitrary: s) auto

lemma extract_ok:
  "packet_ok pkt \<Longrightarrow> packet_ok (extract_connect_limits L pool pkt)"
  "packet_ok pkt \<Longrightarrow> packet_ok (extract_will_delay pool pkt)"
  "packet_ok pkt \<Longrightarrow> packet_ok (extract_disconnect_session_expiry pool pkt)"
  unfolding extract_connect_limits_def extract_will_delay_def extract_disconnect_session_expiry_def
  by (rule fold_keeps; simp add: packet_ok_def)+

section \<open>One byte\<close>

text \<open>Facts about a state \<open>(p, mp, pp)\<close> that the phases rely on.\<close>

lemma parser_invD:
  assumes "parser_core (p, mp, pp)"
  shows "mp_inv mp" "pp_inv pp" "packet_ok (pa_packet p)" "length (pa_rl_buf p) \<le> 4"
    "length (pa_control_buf p) \<le> kControlBufSize"
  using assms by (simp_all add: parser_core_pair)

lemma finish_packet_inv:
  assumes "parser_core st" shows "parser_inv (finish_packet L st)"
proof -
  obtain p mp pp where st: "st = (p, mp, pp)" by (cases st) auto
  note inv = assms [unfolded st] and i = parser_invD [OF assms [unfolded st]]
  consider (publish) "pk_type (pa_packet p) = Publish \<and> message_handle_valid (pa_active_payload p)"
    | (connect) "pk_type (pa_packet p) = Connect" | (disconnect) "pk_type (pa_packet p) = Disconnect"
    | (subscribe) "pk_type (pa_packet p) = Subscribe" | (unsubscribe) "pk_type (pa_packet p) = Unsubscribe"
    | (other) "\<not> (pk_type (pa_packet p) = Publish \<and> message_handle_valid (pa_active_payload p))"
        "pk_type (pa_packet p) \<notin> {Connect, Disconnect, Subscribe, Unsubscribe}"
    by blast
  then show ?thesis
  proof cases
    case connect
    obtain ok pkt1 mp1 pp1 where c: "parse_connect_payload (pa_control_buf p) (pa_packet p) mp pp = (ok, pkt1, mp1, pp1)"
      by (cases "parse_connect_payload (pa_control_buf p) (pa_packet p) mp pp") auto
    with connect connect_payload_ok [OF i(3,1,2) c] inv show ?thesis
      by (simp add: st finish_packet_def parser_inv_pair parser_core_pair extract_ok enter_error_inv)
  next
    case subscribe
    with inv subscribe_payload_ok [OF i(3), of "pa_control_buf p"] show ?thesis
      by (auto simp: st finish_packet_def parser_inv_pair parser_core_pair split: prod.splits intro!: enter_error_inv)
  next
    case unsubscribe
    with inv unsubscribe_payload_ok [OF i(3), of "pa_control_buf p"] show ?thesis
      by (auto simp: st finish_packet_def parser_inv_pair parser_core_pair split: prod.splits intro!: enter_error_inv)
  qed (use inv in \<open>auto simp: st finish_packet_def parser_inv_pair parser_core_pair extract_ok\<close>, simp_all add: packet_ok_def)
qed

lemmas phase_inv = enter_error_inv finish_packet_inv

lemma fixed_header_inv: "parser_inv st \<Longrightarrow> parser_inv (consume_fixed_header b st)"
  by (cases st) (simp add: consume_fixed_header_def parser_inv_pair parser_core_pair packet_ok_def)

lemma start_body_inv:
  assumes "parser_core st" shows "parser_inv (start_body st)"
proof -
  obtain p mp pp where st: "st = (p, mp, pp)" by (cases st) auto
  have "mp_inv (snd (acquire_empty mp))"
    using assms by (intro mp_inv_acquire_empty) (simp add: st parser_inv_pair parser_core_pair)
  with assms show ?thesis
    by (auto simp: st start_body_def parser_inv_pair parser_core_pair phase_inv Let_def split: prod.splits)
qed

text \<open>Four bytes always settle a remaining length, so a fifth is never stored.\<close>

lemma remaining_length_decided: "length rl = 4 \<Longrightarrow> result (varint_decode rl) \<noteq> NeedMore"
  using varint_decode_cases [of rl] length_takeWhile_le [of "\<lambda>b. bit b 7" "take 4 rl"]
  by (auto simp: Let_def cont_prefix_def)

lemma remaining_length_inv:
  assumes "parser_inv st" and "pa_phase (fst st) = RemainingLength"
  shows "parser_inv (consume_remaining_length L b st)"
proof -
  obtain p mp pp where st: "st = (p, mp, pp)" by (cases st) auto
  have len: "length (pa_rl_buf p) < 4" using assms by (simp add: st parser_inv_pair parser_core_pair)
  let ?rl = "pa_rl_buf p @ [b]"
  have "length ?rl < 4" if "result (varint_decode ?rl) = NeedMore"
    using remaining_length_decided [of ?rl] that len by fastforce
  with assms len show ?thesis
    by (auto simp: st consume_remaining_length_def Let_def parser_inv_pair parser_core_pair packet_ok_def
        intro!: phase_inv start_body_inv)
qed

lemma publish_header_inv: "parser_inv st \<Longrightarrow> pa_phase (fst st) \<noteq> RemainingLength \<Longrightarrow> parser_inv (publish_header L st)"
  by (cases st) (auto simp: publish_header_def Let_def parser_inv_pair parser_core_pair packet_ok_def enter_properties_def
      intro!: phase_inv length_cstr_slice_less)

lemma publish_vh_inv: "parser_inv st \<Longrightarrow> pa_phase (fst st) \<noteq> RemainingLength \<Longrightarrow> parser_inv (consume_publish_vh L st)"
  by (cases st) (auto simp: consume_publish_vh_def Let_def parser_inv_pair parser_core_pair
      intro!: phase_inv publish_header_inv)

lemma packet_id_vh_inv: "parser_inv st \<Longrightarrow> parser_inv (consume_packet_id_vh st)"
  by (cases st) (auto simp: consume_packet_id_vh_def Let_def parser_inv_pair parser_core_pair packet_ok_def enter_properties_def)

lemma connect_vh_inv:
  assumes "parser_inv st" and "pa_phase (fst st) \<noteq> RemainingLength"
  shows "parser_inv (consume_connect_vh st)"
proof -
  obtain p mp pp where st: "st = (p, mp, pp)" by (cases st) auto
  have "packet_ok (snd (parse_connect_variable_header (pa_control_buf p) (pa_packet p)))"
    using assms by (intro connect_vh_ok) (simp add: st parser_inv_pair parser_core_pair)
  with assms show ?thesis
    by (auto simp: st consume_connect_vh_def Let_def parser_inv_pair parser_core_pair enter_properties_def
        split: prod.splits intro!: phase_inv)
qed

lemma ack_vh_inv: "parser_inv st \<Longrightarrow> pa_phase (fst st) \<noteq> RemainingLength \<Longrightarrow> parser_inv (consume_ack_vh L st)"
  by (cases st) (auto simp: consume_ack_vh_def Let_def parser_inv_pair parser_core_pair packet_ok_def enter_properties_def
      intro!: phase_inv)

lemma disconnect_vh_inv: "parser_inv st \<Longrightarrow> pa_phase (fst st) \<noteq> RemainingLength \<Longrightarrow> parser_inv (consume_disconnect_vh L st)"
  by (cases st) (auto simp: consume_disconnect_vh_def Let_def parser_inv_pair parser_core_pair packet_ok_def enter_properties_def
      intro!: phase_inv)

lemma variable_header_inv:
  assumes "parser_inv st" and "pa_phase (fst st) = VariableHeader"
  shows "parser_inv (consume_variable_header L b st)"
proof -
  obtain p mp pp where st: "st = (p, mp, pp)" by (cases st) auto
  show ?thesis
  proof (cases "length (pa_control_buf p) \<ge> kControlBufSize")
    case True
    with assms show ?thesis by (simp add: st consume_variable_header_def enter_error_inv parser_core_of_inv)
  next
    case False
    let ?st = "(p\<lparr>pa_control_buf := pa_control_buf p @ [b],
        pa_remaining_consumed := pa_remaining_consumed p + 1\<rparr>, mp, pp)"
    have "parser_inv ?st" "pa_phase (fst ?st) \<noteq> RemainingLength" "parser_inv (fst ?st\<lparr>pa_phase := Properties\<rparr>, mp, pp)"
      using assms False by (simp_all add: st parser_inv_pair parser_core_pair)
    with False show ?thesis
      by (simp add: st consume_variable_header_def Let_def publish_vh_inv packet_id_vh_inv connect_vh_inv
          ack_vh_inv disconnect_vh_inv finish_packet_inv parser_core_of_inv)
  qed
qed

lemma finish_properties_inv:
  assumes "parser_inv st" and "pa_phase (fst st) \<noteq> RemainingLength"
  shows "parser_inv (finish_properties L st)"
proof -
  obtain p mp pp where st: "st = (p, mp, pp)" by (cases st) auto
  obtain vr h pp1 where r: "parse_and_validate_properties (pk_type (pa_packet p)) (pa_control_buf p) pp = (vr, h, pp1)"
    by (cases "parse_and_validate_properties (pk_type (pa_packet p)) (pa_control_buf p) pp") auto
  have "pp_inv pp1" using parse_properties_inv [OF _ r] assms by (simp add: st parser_inv_pair parser_core_pair)
  with assms r show ?thesis
    by (auto simp: st finish_properties_def Let_def parser_inv_pair parser_core_pair packet_ok_def intro!: phase_inv)
qed

lemma properties_inv:
  assumes "parser_inv st" and "pa_phase (fst st) = Properties"
  shows "parser_inv (consume_properties L b st)"
  using assms
  by (cases st) (auto simp: consume_properties_def Let_def parser_inv_pair parser_core_pair
      intro!: enter_error_inv finish_properties_inv)

lemma payload_inv:
  assumes "parser_inv st" and "pa_phase (fst st) = Payload"
  shows "parser_inv (consume_payload L b st)"
proof -
  obtain p mp pp where st: "st = (p, mp, pp)" by (cases st) auto
  have "mp_inv (snd (append_payload (pa_active_payload p) [b] mp))"
    using assms by (intro mp_inv_append) (simp add: st parser_inv_pair parser_core_pair)
  with assms show ?thesis
    by (auto simp: st consume_payload_def Let_def parser_inv_pair parser_core_pair split: prod.splits intro!: phase_inv)
qed

lemma consume_byte_inv: "parser_inv st \<Longrightarrow> parser_inv (snd (consume_byte L b st))"
  by (cases "pa_phase (fst st)") (simp_all add: consume_byte_def fixed_header_inv remaining_length_inv
      variable_header_inv properties_inv payload_inv)

lemma feed_inv: "parser_inv st \<Longrightarrow> parser_inv (snd (feed L bs st))"
proof (induction bs arbitrary: st)
  case (Cons b bs)
  then have "parser_inv (snd (feed L bs (snd (consume_byte L b st))))"
    by (intro Cons.IH consume_byte_inv)
  with Cons.prems consume_byte_inv [OF Cons.prems, of L b] show ?case
    by (cases "consume_byte L b st"; cases "feed L bs (snd (consume_byte L b st))") auto
qed simp

section \<open>Any use of the parser\<close>

text \<open>What the broker does with a parser between two packets: feed it, or reset it.\<close>

datatype parser_op = Feed "byte list" | Reset | ResetProtocolLevel

primrec run_op :: "BrokerLimits \<Rightarrow> parser_op \<Rightarrow> parser_state \<Rightarrow> parser_state" where
  "run_op L (Feed bs) st = snd (feed L bs st)"
| "run_op L Reset st = (parser_reset (fst st), snd st)"
| "run_op L ResetProtocolLevel st = (reset_protocol_level (fst st), snd st)"

lemma run_op_inv: "parser_inv st \<Longrightarrow> parser_inv (run_op L c st)"
  by (cases c; cases st) (simp_all add: feed_inv parser_inv_reset, simp add: reset_protocol_level_def parser_inv_pair)

text \<open>Claim C3. The parser never writes outside its arrays, whatever bytes arrive and however it is
  fed and reset: the remaining-length buffer holds at most 4 bytes, the control buffer at most
  1024, every name of the decoded packet leaves room for its terminator in its character array,
  at most 8 subscription entries are stored, and the message pool and the property pool stay
  consistent.\<close>

theorem parser_never_overruns:
  assumes "mp_inv mp" and "pp_inv pp"
    and "fold (run_op L) cs (PacketParser_new limits, mp, pp) = (p, mp', pp')"
  shows "length (pa_rl_buf p) \<le> 4 \<and> length (pa_control_buf p) \<le> 1024
    \<and> length (pk_topic (pa_packet p)) < 256 \<and> length (pk_client_id (pa_packet p)) < 256
    \<and> length (pk_protocol_name (pa_packet p)) < 16 \<and> length (pk_will_topic (pa_packet p)) < 256
    \<and> length (pk_username (pa_packet p)) < 64 \<and> length (pk_password (pa_packet p)) \<le> 64
    \<and> length (pk_subscribe_entries (pa_packet p)) \<le> 8
    \<and> (\<forall>e \<in> set (pk_subscribe_entries (pa_packet p)). length (sub_filter e) < 256)
    \<and> mp_inv mp' \<and> pp_inv pp'"
proof -
  have "parser_inv (fold (run_op L) cs (PacketParser_new limits, mp, pp))"
    by (rule fold_keeps) (simp_all add: run_op_inv parser_inv_new assms(1,2))
  then show ?thesis
    unfolding assms(3)
    by (simp add: parser_inv_pair packet_ok_def kControlBufSize_def kMaxUsernameLen_def
        kMaxPasswordLen_def kMaxSubscribeEntries_def)
qed

theorem parser_never_overruns_witness:
  "length (pa_control_buf (fst (fold (run_op broker_limits_host) [Feed [0x30, 4, 0, 1], Reset, Feed [0x82]]
     (PacketParser_new \<lparr>pl_max_packet_bytes = 16, pl_max_topic_bytes = 8, pl_control_buffer_bytes = 64\<rparr>,
      MessagePool_new 4 2 2, PropertyPool_new 2 16)))) \<le> 1024"
proof -
  let ?st = "(PacketParser_new \<lparr>pl_max_packet_bytes = 16, pl_max_topic_bytes = 8, pl_control_buffer_bytes = 64\<rparr>,
      MessagePool_new 4 2 2, PropertyPool_new 2 16)"
  obtain p mp' pp' where r: "fold (run_op broker_limits_host) [Feed [0x30, 4, 0, 1], Reset, Feed [0x82]] ?st = (p, mp', pp')"
    by (rule prod_cases3)
  have "mp_inv (MessagePool_new 4 2 2)" "pp_inv (PropertyPool_new 2 16)"
    by (simp_all add: mp_inv_new pp_inv_new)
  from parser_never_overruns [OF this r] show ?thesis unfolding r by simp
qed

section \<open>How the input is cut\<close>

lemma feed_stopped: "pa_phase (fst st) \<in> {Complete, Error} \<Longrightarrow> feed L bs st = (0, st)"
  by (cases bs) auto

lemma consume_byte_count:
  "fst (consume_byte L b st) = (if pa_phase (fst st) \<in> {Complete, Error} then 0 else 1)"
  by (simp add: consume_byte_def split: ParsePhase.split)

lemma feed_Cons:
  "feed L (b # bs) st =
     (if pa_phase (fst st) \<in> {Complete, Error} then (0, st)
      else (Suc (fst (feed L bs (snd (consume_byte L b st)))), snd (feed L bs (snd (consume_byte L b st)))))"
  using consume_byte_count [of L b st]
  by (cases "consume_byte L b st"; cases "feed L bs (snd (consume_byte L b st))") auto

lemma feed_append:
  "feed L (xs @ ys) st =
     (fst (feed L xs st) + fst (feed L ys (snd (feed L xs st))), snd (feed L ys (snd (feed L xs st))))"
  by (induction xs arbitrary: st) (simp_all add: feed_Cons feed_stopped del: feed.simps(2))


section \<open>Every packet ends\<close>

text \<open>
  An upper bound on the bytes a packet can still take, and that each byte lowers it. The 32-bit
  counter of consumed bytes wraps to 0 behind its largest value; the bound allows for that.
\<close>

definition body_left :: "PacketParser \<Rightarrow> nat" where
  "body_left p = (if unat (pa_remaining_consumed p) = 2 ^ 32 - 1 then Suc (max 1 (unat (pa_remaining_total p)))
     else max 1 (unat (pa_remaining_total p) - unat (pa_remaining_consumed p)))"

definition staging_left :: "PacketParser \<Rightarrow> nat" where
  "staging_left p = Suc (kControlBufSize - length (pa_control_buf p))"

definition bytes_left :: "PacketParser \<Rightarrow> nat" where
  "bytes_left p =
     (let whole = Suc (max 1 (unat (pl_max_packet_bytes (pa_limits p))))
      in case pa_phase p of
           Idle \<Rightarrow> 6 + 2 * Suc kControlBufSize + whole
         | FixedHeader \<Rightarrow> 6 + 2 * Suc kControlBufSize + whole
         | RemainingLength \<Rightarrow> Suc (4 - length (pa_rl_buf p)) + 2 * Suc kControlBufSize + whole
         | VariableHeader \<Rightarrow> staging_left p + Suc kControlBufSize + Suc (max 1 (unat (pa_remaining_total p)))
         | Properties \<Rightarrow> staging_left p + Suc (max 1 (unat (pa_remaining_total p)))
         | Payload \<Rightarrow> body_left p
         | Complete \<Rightarrow> 0
         | Error \<Rightarrow> 0)"

lemma bytes_left_0: "bytes_left p = 0 \<longleftrightarrow> pa_phase p \<in> {Complete, Error}"
  by (cases "pa_phase p") (auto simp: bytes_left_def body_left_def staging_left_def Let_def)

lemma phase_error: "pa_phase (fst (enter_error r st)) = Error"
  by (cases st) (simp add: enter_error_def Let_def)

lemma phase_finish: "pa_phase (fst (finish_packet L st)) \<in> {Complete, Error}"
proof -
  obtain p mp pp where st: "st = (p, mp, pp)" by (cases st) auto
  obtain c where c: "parse_connect_payload (pa_control_buf p) (pa_packet p) mp pp = c" by simp
  show ?thesis
    using phase_error
    by (cases c; cases "parse_subscribe_payload (pa_control_buf p) (pa_packet p)";
        cases "parse_unsubscribe_payload (pa_control_buf p) (pa_packet p)")
      (simp add: st c finish_packet_def Let_def)
qed

lemma bytes_left_ended:
  "bytes_left (fst (enter_error r st)) = 0" "bytes_left (fst (finish_packet L st)) = 0"
  using phase_error phase_finish by (simp_all add: bytes_left_0)

lemma fixed_header_progress:
  "pa_phase (fst st) \<in> {Idle, FixedHeader} \<Longrightarrow> bytes_left (fst (consume_fixed_header b st)) < bytes_left (fst st)"
  by (cases st) (auto simp: consume_fixed_header_def bytes_left_def Let_def)

lemma bytes_left_phase:
  "pa_phase p = RemainingLength \<Longrightarrow> bytes_left p = Suc (4 - length (pa_rl_buf p)) + 2 * Suc kControlBufSize
     + Suc (max 1 (unat (pl_max_packet_bytes (pa_limits p))))"
  "pa_phase p = VariableHeader \<Longrightarrow>
     bytes_left p = staging_left p + Suc kControlBufSize + Suc (max 1 (unat (pa_remaining_total p)))"
  "pa_phase p = Properties \<Longrightarrow> bytes_left p = staging_left p + Suc (max 1 (unat (pa_remaining_total p)))"
  "pa_phase p = Payload \<Longrightarrow> bytes_left p = body_left p"
  by (simp_all add: bytes_left_def Let_def)

lemma body_left_le: "body_left p \<le> Suc (max 1 (unat (pa_remaining_total p)))"
  by (auto simp: body_left_def)

lemma start_body_left:
  "bytes_left (fst (start_body (p, mp, pp))) \<le> 2 * Suc kControlBufSize + Suc (max 1 (unat (pa_remaining_total p)))"
  using body_left_le [of "p\<lparr>pa_phase := Payload\<rparr>"]
  by (cases "acquire_empty mp") (simp add: start_body_def Let_def bytes_left_ended bytes_left_phase staging_left_def)

lemma remaining_length_progress:
  assumes "pa_phase (fst st) = RemainingLength"
  shows "bytes_left (fst (consume_remaining_length L b st)) < bytes_left (fst st)"
proof -
  obtain p mp pp where st: "st = (p, mp, pp)" by (cases st) auto
  let ?d = "varint_decode (pa_rl_buf p @ [b])"
  let ?p = "p\<lparr>pa_rl_buf := pa_rl_buf p @ [b], pa_remaining_total := vvalue ?d,
    pa_packet := (pa_packet p)\<lparr>pk_remaining_length := vvalue ?d\<rparr>,
    pa_remaining_consumed := 0, pa_control_buf := [], pa_property_len_known := False,
    pa_property_section_len := 0\<rparr>"
  have "bytes_left (fst (start_body (?p, mp, pp))) < bytes_left p"
    if "vvalue ?d \<le> pl_max_packet_bytes (pa_limits p)"
    using that start_body_left [of ?p mp pp] assms
    by (simp add: st bytes_left_phase word_le_nat_alt max_def split: if_splits)
  with assms show ?thesis
    by (auto simp: st consume_remaining_length_def Let_def bytes_left_ended bytes_left_phase not_less)
qed

lemma publish_header_left:
  assumes "pa_phase p = VariableHeader"
  shows "bytes_left (fst (publish_header L (p, mp, pp))) \<le> bytes_left p"
  using assms body_left_le
  by (auto simp: publish_header_def Let_def bytes_left_ended bytes_left_phase enter_properties_def staging_left_def
      intro: order_trans [OF body_left_le])

lemma bytes_left_target: "pa_phase p = VariableHeader \<Longrightarrow> bytes_left (p\<lparr>pa_control_target := n\<rparr>) = bytes_left p"
  by (simp add: bytes_left_phase staging_left_def)

lemma publish_vh_left:
  assumes "pa_phase p = VariableHeader"
  shows "bytes_left (fst (consume_publish_vh L (p, mp, pp))) \<le> bytes_left p"
  using assms publish_header_left [of "p\<lparr>pa_control_target := n\<rparr>" for n]
  by (auto simp: consume_publish_vh_def Let_def bytes_left_ended bytes_left_target intro: publish_header_left)

lemma packet_id_vh_left:
  "pa_phase p = VariableHeader \<Longrightarrow> bytes_left (fst (consume_packet_id_vh (p, mp, pp))) \<le> bytes_left p"
  by (auto simp: consume_packet_id_vh_def Let_def bytes_left_phase enter_properties_def staging_left_def
      intro: order_trans [OF body_left_le])

lemma connect_vh_left:
  "pa_phase p = VariableHeader \<Longrightarrow> bytes_left (fst (consume_connect_vh (p, mp, pp))) \<le> bytes_left p"
  by (cases "parse_connect_variable_header (pa_control_buf p) (pa_packet p)")
    (auto simp: consume_connect_vh_def Let_def bytes_left_ended bytes_left_phase enter_properties_def staging_left_def
      intro: order_trans [OF body_left_le])

lemma ack_vh_left:
  "pa_phase p = VariableHeader \<Longrightarrow> bytes_left (fst (consume_ack_vh L (p, mp, pp))) \<le> bytes_left p"
  by (auto simp: consume_ack_vh_def Let_def bytes_left_ended bytes_left_phase enter_properties_def staging_left_def)

lemma disconnect_vh_left:
  "pa_phase p = VariableHeader \<Longrightarrow> bytes_left (fst (consume_disconnect_vh L (p, mp, pp))) \<le> bytes_left p"
  by (auto simp: consume_disconnect_vh_def Let_def bytes_left_ended bytes_left_phase enter_properties_def staging_left_def)

lemma variable_header_progress:
  assumes "pa_phase (fst st) = VariableHeader"
  shows "bytes_left (fst (consume_variable_header L b st)) < bytes_left (fst st)"
proof -
  obtain p mp pp where st: "st = (p, mp, pp)" by (cases st) auto
  let ?p = "p\<lparr>pa_control_buf := pa_control_buf p @ [b], pa_remaining_consumed := pa_remaining_consumed p + 1\<rparr>"
  show ?thesis
  proof (cases "length (pa_control_buf p) \<ge> kControlBufSize")
    case True
    with assms show ?thesis
      by (simp add: st consume_variable_header_def bytes_left_ended bytes_left_phase)
  next
    case False
    with assms have less: "bytes_left ?p < bytes_left p" and ph: "pa_phase ?p = VariableHeader"
      by (simp_all add: st bytes_left_phase staging_left_def)
    have "bytes_left (?p\<lparr>pa_phase := Properties\<rparr>) \<le> bytes_left ?p"
      using ph by (simp add: bytes_left_phase staging_left_def)
    then have "bytes_left (fst (consume_variable_header L b st)) \<le> bytes_left ?p"
      using False publish_vh_left [OF ph] packet_id_vh_left [OF ph] connect_vh_left [OF ph] ack_vh_left [OF ph]
        disconnect_vh_left [OF ph]
      by (simp add: st consume_variable_header_def Let_def bytes_left_ended)
    with less show ?thesis by (simp add: st)
  qed
qed

lemma finish_properties_left:
  "bytes_left (fst (finish_properties L (p, mp, pp))) \<le> Suc (max 1 (unat (pa_remaining_total p)))"
  by (cases "parse_and_validate_properties (pk_type (pa_packet p)) (pa_control_buf p) pp")
    (auto simp: finish_properties_def Let_def bytes_left_ended bytes_left_phase intro: order_trans [OF body_left_le])

lemma properties_progress:
  assumes "pa_phase (fst st) = Properties"
  shows "bytes_left (fst (consume_properties L b st)) < bytes_left (fst st)"
proof -
  obtain p mp pp where st: "st = (p, mp, pp)" by (cases st) auto
  have "bytes_left (fst (finish_properties L (q, mp, pp))) < bytes_left p"
    if "pa_remaining_total q = pa_remaining_total p" for q
    using finish_properties_left [of L q mp pp] that assms
    by (simp add: st bytes_left_phase staging_left_def)
  moreover have "bytes_left q < bytes_left p"
    if "pa_phase q = Properties" "pa_remaining_total q = pa_remaining_total p"
      "length (pa_control_buf q) = Suc (length (pa_control_buf p))" "length (pa_control_buf p) < kControlBufSize" for q
    using that assms by (simp add: st bytes_left_phase staging_left_def)
  moreover have "0 < bytes_left p" using assms by (simp add: st bytes_left_phase staging_left_def)
  ultimately show ?thesis
    using assms by (simp add: st consume_properties_def Let_def bytes_left_ended)
qed

lemma payload_progress:
  assumes "pa_phase (fst st) = Payload"
  shows "bytes_left (fst (consume_payload L b st)) < bytes_left (fst st)"
proof -
  obtain p mp pp where st: "st = (p, mp, pp)" by (cases st) auto
  have "body_left q < body_left p"
    if "\<not> body_consumed q" "pa_remaining_total q = pa_remaining_total p"
      "pa_remaining_consumed q = pa_remaining_consumed p + 1" for q
  proof -
    let ?c = "unat (pa_remaining_consumed p)" and ?t = "unat (pa_remaining_total p)"
    have c: "unat (pa_remaining_consumed q) = (if ?c = 2 ^ 32 - 1 then 0 else ?c + 1)"
      using that(3) unat_u32_less [of "pa_remaining_consumed p"] unat_word_ariths(1) [of "pa_remaining_consumed p" 1]
      by (auto simp del: unat_u32_less intro!: mod_less)
    have t: "?t < 2 ^ 32" using unat_u32_less [of "pa_remaining_total p"] by simp
    have "unat (pa_remaining_consumed q) < ?t"
      using that(1,2) by (simp add: body_consumed_def not_le word_less_nat_alt)
    with that(2) c t show ?thesis by (auto simp: body_left_def simp del: unat_u32_less split: if_splits)
  qed
  moreover have "0 < body_left p" by (auto simp: body_left_def)
  ultimately show ?thesis
    using assms
    by (cases "append_payload (pa_active_payload p) [b] mp")
      (simp add: st consume_payload_def Let_def bytes_left_ended bytes_left_phase)
qed

lemma consume_byte_progress:
  "pa_phase (fst st) \<notin> {Complete, Error} \<Longrightarrow> bytes_left (fst (snd (consume_byte L b st))) < bytes_left (fst st)"
  by (cases "pa_phase (fst st)") (simp_all add: consume_byte_def fixed_header_progress remaining_length_progress
      variable_header_progress properties_progress payload_progress)

lemma feed_ends: "bytes_left (fst st) \<le> length bs \<Longrightarrow> pa_phase (fst (snd (feed L bs st))) \<in> {Complete, Error}"
proof (induction bs arbitrary: st)
  case (Cons b bs)
  show ?case
  proof (cases "pa_phase (fst st) \<in> {Complete, Error}")
    case False
    then have "bytes_left (fst (snd (consume_byte L b st))) \<le> length bs"
      using consume_byte_progress [of st L b] Cons.prems by simp
    from Cons.IH [OF this] False show ?thesis by (simp add: feed_Cons del: feed.simps(2))
  qed (simp add: feed_stopped)
qed (simp add: bytes_left_0)

text \<open>Claim C12. Every packet ends: a parser that has been reset decides, complete or error, within
  2057 bytes plus the largest body its limits allow, whatever the bytes are. A peer cannot hold the
  parser in the middle of a packet by sending more data.\<close>

theorem parser_decides:
  assumes "2057 + max 1 (unat (pl_max_packet_bytes (pa_limits p))) \<le> length bs"
  shows "pa_phase (fst (snd (feed L bs (parser_reset p, mp, pp)))) \<in> {Complete, Error}"
  using assms by (intro feed_ends) (simp add: parser_reset_def bytes_left_def Let_def kControlBufSize_def)

theorem parser_decides_witness:
  "pa_phase (fst (snd (feed broker_limits_host (replicate 2073 0x82)
     (parser_reset (PacketParser_new \<lparr>pl_max_packet_bytes = 16, pl_max_topic_bytes = 8, pl_control_buffer_bytes = 64\<rparr>),
      MessagePool_new 4 2 2, PropertyPool_new 2 16)))) \<in> {Complete, Error}"
proof -
  let ?p = "PacketParser_new \<lparr>pl_max_packet_bytes = 16, pl_max_topic_bytes = 8, pl_control_buffer_bytes = 64\<rparr>"
  have "2057 + max 1 (unat (pl_max_packet_bytes (pa_limits ?p))) \<le> length (replicate 2073 (0x82 :: u8))"
    by (simp add: PacketParser_new_def parser_reset_def kControlBufSize_def)
  then show ?thesis by (rule parser_decides)
qed

end
