(* ===== verification/Trie_Inv.thy ===== *)
theory Trie_Inv
  imports Topic_Trie
begin

text \<open>
  The invariant of the subscription trie and what its operations do to the table of subscriptions,
  from session and filter to options.

  The invariant names what the links stand for: \<open>kids n\<close> is the list of children of node \<open>n\<close>, \<open>links n\<close> the
  list of the subscriptions at node \<open>n\<close>. Children have larger numbers than their parent, so the
  descent ends; the entries at a node are exactly those in use whose filter ends there, so a removed
  entry is on no chain when it is used again.
\<close>

section \<open>Chains\<close>

text \<open>The indices on a chain of links that ends with 0xFFFF.\<close>

primrec chain :: "(nat \<Rightarrow> u16) \<Rightarrow> u16 \<Rightarrow> nat list \<Rightarrow> bool" where
  "chain nx p [] \<longleftrightarrow> p = 0xFFFF"
| "chain nx p (i # is) \<longleftrightarrow> p = of_nat i \<and> i < 65535 \<and> chain nx (nx i) is"

lemma chain_cong: "(\<And>i. i \<in> set xs \<Longrightarrow> nx i = nx' i) \<Longrightarrow> chain nx p xs = chain nx' p xs"
  by (induction xs arbitrary: p) auto

lemma chain_head: "i < 65535 \<Longrightarrow> (of_nat i :: u16) \<noteq> 0xFFFF \<and> unat (of_nat i :: u16) = i"
proof -
  assume "i < 65535"
  then have u: "unat (of_nat i :: u16) = i" by (simp add: unat_of_nat_u16)
  moreover have "unat (0xFFFF :: u16) = 65535" by simp
  ultimately show ?thesis using \<open>i < 65535\<close> by (metis less_irrefl)
qed

lemma siblings_chain:
  "chain (\<lambda>i. nd_next_sibling (ns ! i)) p xs \<Longrightarrow> length xs \<le> fuel \<Longrightarrow> siblings fuel ns p = Some (map of_nat xs)"
proof (induction xs arbitrary: p fuel)
  case Nil
  then show ?case by (cases fuel) simp_all
next
  case (Cons i xs)
  then show ?case using chain_head [of i] by (cases fuel) auto
qed

lemma distinct_below: "distinct xs \<Longrightarrow> (\<And>i. i \<in> set xs \<Longrightarrow> i < n) \<Longrightarrow> length xs \<le> n"
  using card_mono [of "{..<n}" "set xs"] by (auto simp: distinct_card subsetI)

section \<open>The tree of nodes\<close>

text \<open>\<open>kids n\<close> are the children of node \<open>n\<close>, the newest first: larger numbers than their parent's.\<close>

definition sizes_ok :: "TopicTrie \<Rightarrow> bool" where
  "sizes_ok t \<longleftrightarrow> tt_root t = 0 \<and> 0 < tt_node_count t \<and> tt_node_count t \<le> length (tt_nodes t)
     \<and> length (tt_nodes t) \<le> 65535 \<and> \<not> nd_is_wildcard_hash (tt_nodes t ! 0)"

definition kids_ok :: "TopicTrie \<Rightarrow> nat list \<Rightarrow> nat \<Rightarrow> bool" where
  "kids_ok t cs n \<longleftrightarrow> chain (\<lambda>i. nd_next_sibling (tt_nodes t ! i)) (nd_first_child (tt_nodes t ! n)) cs
     \<and> distinct cs \<and> (\<forall>c \<in> set cs. n < c \<and> c < tt_node_count t)"

definition label_ok :: "TopicTrie \<Rightarrow> nat \<Rightarrow> bool" where
  "label_ok t n \<longleftrightarrow> (nd_is_wildcard_plus (tt_nodes t ! n) \<or> nd_is_wildcard_hash (tt_nodes t ! n)
     \<or> tt_node_count t \<le> n \<longrightarrow> nd_segment (tt_nodes t ! n) = [])
     \<and> \<not> (nd_is_wildcard_plus (tt_nodes t ! n) \<and> nd_is_wildcard_hash (tt_nodes t ! n))"

definition nodes_inv :: "(nat \<Rightarrow> nat list) \<Rightarrow> TopicTrie \<Rightarrow> bool" where
  "nodes_inv kids t \<longleftrightarrow> sizes_ok t \<and> (\<forall>n < tt_node_count t. kids_ok t (kids n) n)
     \<and> (\<forall>n < length (tt_nodes t). label_ok t n)"

lemma nodes_invD:
  assumes "nodes_inv kids t"
  shows "sizes_ok t" and "n < tt_node_count t \<Longrightarrow> kids_ok t (kids n) n" and "n < length (tt_nodes t) \<Longrightarrow> label_ok t n"
  using assms by (simp_all add: nodes_inv_def)

text \<open>What a longer tree keeps of a shorter one.\<close>

definition tree_grows :: "(nat \<Rightarrow> nat list) \<Rightarrow> TopicTrie \<Rightarrow> (nat \<Rightarrow> nat list) \<Rightarrow> TopicTrie \<Rightarrow> bool" where
  "tree_grows kids t kids' t' \<longleftrightarrow>
     tt_subs t' = tt_subs t \<and> tt_next_sub_id t' = tt_next_sub_id t \<and> tt_root t' = tt_root t \<and> tt_node_count t \<le> tt_node_count t'
     \<and> (\<forall>n < tt_node_count t. set (kids n) \<subseteq> set (kids' n)
          \<and> nd_segment (tt_nodes t' ! n) = nd_segment (tt_nodes t ! n)
          \<and> nd_is_wildcard_plus (tt_nodes t' ! n) = nd_is_wildcard_plus (tt_nodes t ! n)
          \<and> nd_is_wildcard_hash (tt_nodes t' ! n) = nd_is_wildcard_hash (tt_nodes t ! n)
          \<and> nd_first_sub (tt_nodes t' ! n) = nd_first_sub (tt_nodes t ! n)
          \<and> (nd_terminal (tt_nodes t ! n) \<longrightarrow> nd_terminal (tt_nodes t' ! n)))
     \<and> (\<forall>n. tt_node_count t \<le> n \<and> n < tt_node_count t' \<longrightarrow> nd_first_sub (tt_nodes t' ! n) = 0xFFFF)"

lemma tree_grows_refl [simp]: "tree_grows kids t kids t"
  by (auto simp: tree_grows_def)

lemma tree_grows_trans: "tree_grows k1 t1 k2 t2 \<Longrightarrow> tree_grows k2 t2 k3 t3 \<Longrightarrow> tree_grows k1 t1 k3 t3"
  unfolding tree_grows_def by (auto simp: subset_iff) (metis leI order.strict_trans1)+

lemma nodes_inv_kids:
  assumes "nodes_inv kids t" and "n < tt_node_count t"
  shows "siblings (length (tt_nodes t)) (tt_nodes t) (nd_first_child (tt_nodes t ! n)) = Some (map of_nat (kids n))"
    and "c \<in> set (kids n) \<Longrightarrow> n < c \<and> c < tt_node_count t \<and> c < 65535"
proof -
  have s: "tt_node_count t \<le> length (tt_nodes t)" "length (tt_nodes t) \<le> 65535"
    using nodes_invD(1) [OF assms(1)] by (simp_all add: sizes_ok_def)
  have k: "chain (\<lambda>i. nd_next_sibling (tt_nodes t ! i)) (nd_first_child (tt_nodes t ! n)) (kids n)" "distinct (kids n)"
    "\<And>c. c \<in> set (kids n) \<Longrightarrow> n < c \<and> c < tt_node_count t"
    using nodes_invD(2) [OF assms] by (simp_all add: kids_ok_def)
  from k(3) [of c] s show "c \<in> set (kids n) \<Longrightarrow> n < c \<and> c < tt_node_count t \<and> c < 65535" by simp
  have "length (kids n) \<le> length (tt_nodes t)"
    using distinct_below [OF k(2), of "tt_node_count t"] k(3) s by (meson order_trans)
  then show "siblings (length (tt_nodes t)) (tt_nodes t) (nd_first_child (tt_nodes t ! n)) = Some (map of_nat (kids n))"
    by (rule siblings_chain [OF k(1)])
qed

text \<open>Marking a node as terminal.\<close>

definition mark :: "nat \<Rightarrow> TopicTrie \<Rightarrow> TopicTrie" where
  "mark c t = t\<lparr>tt_nodes := (tt_nodes t)[c := (tt_nodes t ! c)\<lparr>nd_terminal := True\<rparr>]\<rparr>"

lemma mark_grows:
  assumes "nodes_inv kids t" and "c < tt_node_count t"
  shows "nodes_inv kids (mark c t)" and "tree_grows kids t kids (mark c t)" and "nd_terminal (tt_nodes (mark c t) ! c)"
proof -
  have l: "c < length (tt_nodes t)" using assms nodes_invD(1) [OF assms(1)] by (simp add: sizes_ok_def)
  have f: "nd_next_sibling (tt_nodes (mark c t) ! i) = nd_next_sibling (tt_nodes t ! i)"
    "nd_first_child (tt_nodes (mark c t) ! i) = nd_first_child (tt_nodes t ! i)"
    "nd_segment (tt_nodes (mark c t) ! i) = nd_segment (tt_nodes t ! i)"
    "nd_is_wildcard_plus (tt_nodes (mark c t) ! i) = nd_is_wildcard_plus (tt_nodes t ! i)"
    "nd_is_wildcard_hash (tt_nodes (mark c t) ! i) = nd_is_wildcard_hash (tt_nodes t ! i)" for i
    by (simp_all add: mark_def nth_upd)
  have g: "tt_node_count (mark c t) = tt_node_count t" "length (tt_nodes (mark c t)) = length (tt_nodes t)" "tt_root (mark c t) = tt_root t"
    by (simp_all add: mark_def)
  have "nodes_inv kids (mark c t) = nodes_inv kids t"
    by (simp only: nodes_inv_def sizes_ok_def kids_ok_def label_ok_def f g)
  with assms(1) show "nodes_inv kids (mark c t)" by simp
  show "tree_grows kids t kids (mark c t)" unfolding tree_grows_def f by (auto simp: mark_def nth_upd)
  show "nd_terminal (tt_nodes (mark c t) ! c)" using l by (simp add: mark_def)
qed

lemma add_child_grows:
  assumes inv: "nodes_inv kids t" and p: "p < tt_node_count t" and room: "tt_node_count t < length (tt_nodes t)"
    and seg: "length segment < 256" "pl \<or> ha \<longrightarrow> segment = []" "\<not> (pl \<and> ha)"
    and a: "add_child (of_nat p) segment pl ha t = (nid, t')"
  shows "\<exists>kids'. nodes_inv kids' t' \<and> tree_grows kids t kids' t' \<and> nid = of_nat (tt_node_count t) \<and> tt_node_count t' = Suc (tt_node_count t)
    \<and> tt_node_count t \<in> set (kids' p) \<and> nd_segment (tt_nodes t' ! tt_node_count t) = segment
    \<and> nd_is_wildcard_plus (tt_nodes t' ! tt_node_count t) = pl \<and> nd_is_wildcard_hash (tt_nodes t' ! tt_node_count t) = ha"
proof -
  let ?k = "tt_node_count t"
  let ?ns = "tt_nodes t"
  let ?kids = "kids(p := ?k # kids p, ?k := [])"
  have k: "?k < 65535" "p < 65535" "p < length ?ns" using nodes_invD(1) [OF inv] p room by (auto simp: sizes_ok_def)
  have u: "unat (of_nat ?k :: u16) = ?k" "(of_nat ?k :: u16) \<noteq> 0xFFFF" "unat (of_nat p :: u16) = p"
    using chain_head [OF k(1)] chain_head [OF k(2)] by simp_all
  have fresh: "nd_segment (?ns ! ?k) = []" using nodes_invD(3) [OF inv room] by (simp add: label_ok_def)
  let ?n = "(?ns ! ?k)\<lparr>nd_first_child := 0xFFFF, nd_next_sibling := 0xFFFF, nd_first_sub := 0xFFFF,
      nd_segment := segment, nd_is_wildcard_plus := pl, nd_is_wildcard_hash := ha, nd_next_sibling := nd_first_child (?ns ! p)\<rparr>"
  have t': "nid = of_nat ?k" "tt_node_count t' = Suc ?k" "tt_subs t' = tt_subs t" "tt_root t' = tt_root t"
    "tt_next_sub_id t' = tt_next_sub_id t" "length (tt_nodes t') = length ?ns"
    using a room u by (auto simp: add_child_def alloc_node_def Let_def)
  have nodes: "tt_nodes t' = ?ns[?k := ?n, p := (?ns ! p)\<lparr>nd_first_child := of_nat ?k\<rparr>]"
    using a room u k p seg fresh by (auto simp: add_child_def alloc_node_def Let_def)
  have at: "tt_nodes t' ! i = (if i = p then (?ns ! p)\<lparr>nd_first_child := of_nat ?k\<rparr> else if i = ?k then ?n else ?ns ! i)" for i
    using k p room by (simp add: nodes nth_upd)
  have old: "chain (\<lambda>i. nd_next_sibling (tt_nodes t' ! i)) q (kids n) = chain (\<lambda>i. nd_next_sibling (?ns ! i)) q (kids n)" if "n < ?k" for q n
    using nodes_inv_kids(2) [OF inv that] by (intro chain_cong) (auto simp: at)
  have ch: "chain (\<lambda>i. nd_next_sibling (tt_nodes t' ! i)) (nd_first_child (tt_nodes t' ! n)) (?kids n)" if nk: "n < Suc ?k" for n
  proof -
    have c: "chain (\<lambda>i. nd_next_sibling (?ns ! i)) (nd_first_child (?ns ! m)) (kids m)" if "m < ?k" for m
      using nodes_invD(2) [OF inv that] by (simp add: kids_ok_def)
    consider "n = ?k" | "n = p" | "n < ?k" "n \<noteq> p" using nk p by linarith
    then show ?thesis
    proof cases
      case 2
      then show ?thesis using p old [of p] c [of p] k by (simp add: at)
    next
      case 3
      then show ?thesis using old [of n "nd_first_child (?ns ! n)"] c [of n] by (simp add: at)
    qed (use p in \<open>simp add: at\<close>)
  qed
  have kd: "distinct (?kids n) \<and> (\<forall>c \<in> set (?kids n). n < c \<and> c < Suc ?k)" if nk: "n < Suc ?k" for n
  proof -
    have d: "distinct (kids m)" if "m < ?k" for m using nodes_invD(2) [OF inv that] by (simp add: kids_ok_def)
    consider "n = ?k" | "n < ?k" using nk by linarith
    then show ?thesis
    proof cases
      case 2
      have "?k \<notin> set (kids p)" using nodes_inv_kids(2) [OF inv p] by blast
      with 2 p d [of n] nodes_inv_kids(2) [OF inv 2] show ?thesis by (auto simp: less_Suc_eq)
    qed simp
  qed
  have "label_ok t' n" if "n < length ?ns" for n
    using nodes_invD(3) [OF inv that] seg p room by (auto simp: label_ok_def t' at)
  moreover have "kids_ok t' (?kids n) n" if "n < Suc ?k" for n
    unfolding kids_ok_def t' using ch [OF that] kd [OF that] by blast
  moreover have "sizes_ok t'"
    using nodes_invD(1) [OF inv] p room by (simp add: sizes_ok_def t' at)
  ultimately have "nodes_inv ?kids t'" unfolding nodes_inv_def t' by blast
  moreover have "tree_grows kids t ?kids t'"
    unfolding tree_grows_def using p by (auto simp: t' at)
  ultimately show ?thesis
    using p t' by (intro exI [of _ ?kids]) (auto simp: at)
qed

text \<open>The node of a level is marked as terminal and labelled with it.\<close>

definition edge :: "byte list \<Rightarrow> Node \<Rightarrow> bool" where
  "edge cur m \<longleftrightarrow> nd_terminal m \<and> (nd_is_wildcard_plus m \<longleftrightarrow> hd cur = c_plus) \<and> (nd_is_wildcard_hash m \<longleftrightarrow> hd cur = c_hash)
     \<and> (hd cur \<noteq> c_plus \<and> hd cur \<noteq> c_hash \<longrightarrow> nd_segment m = take (segment_len cur) cur)"

lemma find_SomeD: "find P xs = Some x \<Longrightarrow> x \<in> set xs \<and> P x"
  by (induction xs) (auto split: if_splits)

lemma tree_growsD:
  assumes "tree_grows kids t kids' t'" and "n < tt_node_count t"
  shows "set (kids n) \<subseteq> set (kids' n)" and "edge cur (tt_nodes t ! n) \<Longrightarrow> edge cur (tt_nodes t' ! n)"
    and "nd_first_sub (tt_nodes t' ! n) = nd_first_sub (tt_nodes t ! n)"
  using assms(1) [unfolded tree_grows_def] assms(2) unfolding edge_def by metis+

lemma find_or_add_child_grows:
  assumes inv: "nodes_inv kids t" and p: "p < tt_node_count t"
    and seg: "length segment < 256" "pl \<or> ha \<longrightarrow> segment = []" "\<not> (pl \<and> ha)"
  shows "\<exists>c t' kids'. find_or_add_child (of_nat p) segment pl ha t = Some (c, t') \<and> nodes_inv kids' t' \<and> tree_grows kids t kids' t'
    \<and> (c \<noteq> nil16 \<longrightarrow> unat c \<in> set (kids' p) \<and> child_matches segment pl ha (tt_nodes t' ! unat c))"
proof -
  have sz: "tt_node_count t \<le> length (tt_nodes t)" "length (tt_nodes t) \<le> 65535"
    using nodes_invD(1) [OF inv] by (simp_all add: sizes_ok_def)
  have up: "unat (of_nat p :: u16) = p" using chain_head [of p] p sz by simp
  note sib = nodes_inv_kids(1) [OF inv p]
  show ?thesis
  proof (cases "find (\<lambda>c. child_matches segment pl ha (tt_nodes t ! unat c)) (map of_nat (kids p) :: u16 list)")
    case (Some c)
    then obtain i where i: "i \<in> set (kids p)" "c = of_nat i" "child_matches segment pl ha (tt_nodes t ! unat c)"
      using find_SomeD by fastforce
    then have "unat c = i" using nodes_inv_kids(2) [OF inv p i(1)] chain_head [of i] by simp
    with Some i show ?thesis
      using inv by (intro exI [of _ c] exI [of _ t] exI [of _ kids]) (simp add: find_or_add_child_def up sib)
  next
    case None
    obtain c t' where a: "add_child (of_nat p) segment pl ha t = (c, t')" by (rule prod.exhaust)
    have f: "find_or_add_child (of_nat p) segment pl ha t = Some (c, t')"
      using None by (simp add: find_or_add_child_def up sib a)
    show ?thesis
    proof (cases "tt_node_count t < length (tt_nodes t)")
      case True
      from add_child_grows [OF inv p True seg a] obtain kids' where k:
        "nodes_inv kids' t'" "tree_grows kids t kids' t'" "c = of_nat (tt_node_count t)" "tt_node_count t \<in> set (kids' p)"
        "nd_segment (tt_nodes t' ! tt_node_count t) = segment" "nd_is_wildcard_plus (tt_nodes t' ! tt_node_count t) = pl"
        "nd_is_wildcard_hash (tt_nodes t' ! tt_node_count t) = ha" by blast
      have "unat c = tt_node_count t" using k(3) True sz chain_head [of "tt_node_count t"] by simp
      with f k show ?thesis
        by (intro exI [of _ c] exI [of _ t'] exI [of _ kids']) (auto simp: child_matches_def)
    next
      case False
      then have "c = nil16 \<and> t' = t" using a by (simp add: add_child_def alloc_node_def)
      with f inv show ?thesis by (intro exI [of _ c] exI [of _ t'] exI [of _ kids]) simp
    qed
  qed
qed

section \<open>Paths of filters\<close>

text \<open>The path of a filter.\<close>

inductive trie_path :: "(nat \<Rightarrow> nat list) \<Rightarrow> Node list \<Rightarrow> byte list \<Rightarrow> nat \<Rightarrow> nat \<Rightarrow> bool"
  for kids :: "nat \<Rightarrow> nat list" and ns :: "Node list"
where
  path_last: "c \<in> set (kids n) \<Longrightarrow> edge cur (ns ! c) \<Longrightarrow> next_segment cur = None \<Longrightarrow> trie_path kids ns cur n c"
| path_step: "c \<in> set (kids n) \<Longrightarrow> edge cur (ns ! c) \<Longrightarrow> next_segment cur = Some r \<Longrightarrow> trie_path kids ns r c e
    \<Longrightarrow> trie_path kids ns cur n e"

text \<open>Filters without empty levels, with \<open>#\<close> only in the last one.\<close>

definition plain_filter :: "byte list \<Rightarrow> bool" where
  "plain_filter f \<longleftrightarrow> [] \<notin> set (levels f) \<and> (\<forall>l \<in> set (butlast (levels f)). hd l \<noteq> c_hash)"

lemma plain_filterD:
  assumes "plain_filter f"
  shows "f \<noteq> []" and "0 < segment_len f" and "next_segment f = Some r \<Longrightarrow> plain_filter r \<and> hd f \<noteq> c_hash"
proof -
  have l: "takeWhile (\<lambda>c. c \<noteq> c_slash) f \<noteq> []"
    using assms levels.simps [of f] by (auto simp: plain_filter_def)
  then show "f \<noteq> []" "0 < segment_len f" by (auto simp: segment_len_def)
  have "hd (takeWhile (\<lambda>c. c \<noteq> c_slash) f) = hd f" using l by (cases f) (auto split: if_splits)
  moreover assume "next_segment f = Some r"
  then have "levels f = takeWhile (\<lambda>c. c \<noteq> c_slash) f # levels r" using levels.simps [of f] by simp
  ultimately show "plain_filter r \<and> hd f \<noteq> c_hash" using assms by (simp add: plain_filter_def)
qed

lemma trie_path_grows:
  assumes "trie_path kids (tt_nodes t) cur n e" and "nodes_inv kids t" and "tree_grows kids t kids' t'" and "n < tt_node_count t"
  shows "trie_path kids' (tt_nodes t') cur n e"
  using assms(1,4)
proof (induction rule: trie_path.induct)
  have kid: "c \<in> set (kids' n) \<and> edge cur (tt_nodes t' ! c) \<and> c < tt_node_count t"
    if "c \<in> set (kids n)" "edge cur (tt_nodes t ! c)" "n < tt_node_count t" for c n cur
  proof -
    have c: "c < tt_node_count t" using nodes_inv_kids(2) [OF assms(2) that(3,1)] by simp
    from that tree_growsD(1) [OF assms(3) that(3)] tree_growsD(2) [OF assms(3) c that(2)] c show ?thesis by auto
  qed
  {
    case (path_last c n cur)
    from kid [OF path_last(1,2,4)] path_last(3) show ?case by (simp add: trie_path.path_last)
  next
    case (path_step c n cur r e)
    note k = kid [OF path_step(1,2,6)]
    with path_step.IH have "trie_path kids' (tt_nodes t') r c e" by blast
    with k path_step(3) show ?case by (blast intro: trie_path.path_step)
  }
qed

lemma child_matches_edge:
  assumes "nodes_inv kids t" and "c < tt_node_count t" and "plain_filter cur"
    and "child_matches (if hd cur \<noteq> c_plus \<and> hd cur \<noteq> c_hash then take (segment_len cur) cur else []) (hd cur = c_plus) (hd cur = c_hash)
      (tt_nodes t ! c)"
  shows "edge cur (tt_nodes (mark c t) ! c)"
proof -
  have l: "c < length (tt_nodes t)" using nodes_invD(1) [OF assms(1)] assms(2) by (simp add: sizes_ok_def)
  have "take (segment_len cur) cur \<noteq> []" using plain_filterD(1,2) [OF assms(3)] by simp
  with nodes_invD(3) [OF assms(1) l] assms(4) show ?thesis
    using l by (auto simp: edge_def mark_def child_matches_def label_ok_def split: if_splits)
qed

lemma walk_filter_grows:
  "nodes_inv kids t \<Longrightarrow> n < tt_node_count t \<Longrightarrow>
   \<exists>res t' kids'. walk_filter cur (of_nat n) t = Some (res, t') \<and> nodes_inv kids' t' \<and> tree_grows kids t kids' t'
     \<and> (\<forall>e. res = Some e \<longrightarrow> unat e < tt_node_count t' \<and> (plain_filter cur \<longrightarrow> trie_path kids' (tt_nodes t') cur n (unat e)))"
proof (induction "length cur" arbitrary: cur n t kids rule: less_induct)
  case less
  have un: "unat (of_nat n :: u16) = n"
    using nodes_invD(1) [OF less.prems(1)] less.prems(2) chain_head [of n] by (simp add: sizes_ok_def)
  let ?lit = "hd cur \<noteq> c_plus \<and> hd cur \<noteq> c_hash"
  let ?seg = "if ?lit then take (segment_len cur) cur else []"
  show ?case
  proof (cases "cur = [] \<or> ?lit \<and> segment_len cur \<ge> 256")
    case True
    then consider "cur = []" | "cur \<noteq> []" "?lit" "segment_len cur \<ge> 256" by blast
    then show ?thesis
      using less.prems un plain_filterD(1) [of cur]
      by cases (intro exI [of _ t] exI [of _ kids] exI conjI, (subst walk_filter.simps, simp), auto)+
  next
    case False
    have "length ?seg < 256" using False by (auto simp: min_less_iff_disj)
    from find_or_add_child_grows [OF less.prems this, of "hd cur = c_plus" "hd cur = c_hash"]
    obtain c t1 kids1 where f: "find_or_add_child (of_nat n) ?seg (hd cur = c_plus) (hd cur = c_hash) t = Some (c, t1)"
      "nodes_inv kids1 t1" "tree_grows kids t kids1 t1"
      "c \<noteq> nil16 \<Longrightarrow> unat c \<in> set (kids1 n) \<and> child_matches ?seg (hd cur = c_plus) (hd cur = c_hash) (tt_nodes t1 ! unat c)"
      by auto
    have unf: "walk_filter cur (of_nat n) t = (if c = nil16 then Some (None, t1)
        else case next_segment cur of None \<Rightarrow> Some (Some c, mark (unat c) t1) | Some r \<Rightarrow> walk_filter r c (mark (unat c) t1))"
      using False f(1) by (subst walk_filter.simps) (auto simp: Let_def mark_def split: option.split)
    show ?thesis
    proof (cases "c = nil16")
      case True
      with unf f show ?thesis by (intro exI [of _ None] exI [of _ t1] exI [of _ kids1]) simp
    next
      case False
      have n1: "n < tt_node_count t1" using f(3) less.prems(2) by (simp add: tree_grows_def)
      have kid: "unat c \<in> set (kids1 n)" and cm: "child_matches ?seg (hd cur = c_plus) (hd cur = c_hash) (tt_nodes t1 ! unat c)"
        using f(4) [OF False] by simp_all
      have c: "unat c < tt_node_count t1" using nodes_inv_kids(2) [OF f(2) n1 kid] by simp
      let ?t2 = "mark (unat c) t1"
      note m = mark_grows [OF f(2) c]
      have g: "tree_grows kids t kids1 ?t2" by (rule tree_grows_trans [OF f(3) m(2)])
      have e: "plain_filter cur \<Longrightarrow> edge cur (tt_nodes ?t2 ! unat c)" by (rule child_matches_edge [OF f(2) c _ cm])
      have c2: "unat c < tt_node_count ?t2" using c by (simp add: mark_def)
      show ?thesis
      proof (cases "next_segment cur")
        case None
        with unf False m(1) g c2 e kid show ?thesis
          by (intro exI [of _ "Some c"] exI [of _ ?t2] exI [of _ kids1]) (auto intro: trie_path.path_last)
      next
        case (Some r)
        have "length r < length cur" by (rule next_segment_shorter [OF Some])
        from less.hyps [OF this m(1) c2] obtain res t' kids' where w:
          "walk_filter r c ?t2 = Some (res, t')" "nodes_inv kids' t'" "tree_grows kids1 ?t2 kids' t'"
          "\<And>d. res = Some d \<Longrightarrow> unat d < tt_node_count t' \<and> (plain_filter r \<longrightarrow> trie_path kids' (tt_nodes t') r (unat c) (unat d))"
          by auto
        have "trie_path kids' (tt_nodes t') cur n (unat d)" if "res = Some d" "plain_filter cur" for d
        proof (rule trie_path.path_step [OF _ _ Some])
          show "unat c \<in> set (kids' n)" using tree_growsD(1) [OF w(3), of n] kid n1 by (auto simp: mark_def)
          show "edge cur (tt_nodes t' ! unat c)" by (rule tree_growsD(2) [OF w(3) c2 e [OF that(2)]])
          show "trie_path kids' (tt_nodes t') r (unat c) (unat d)"
            using w(4) [OF that(1)] plain_filterD(3) [OF that(2) Some] by simp
        qed
        with unf False Some w tree_grows_trans [OF g w(3)] show ?thesis
          by (intro exI [of _ res] exI [of _ t'] exI [of _ kids']) simp
      qed
    qed
  qed
qed

section \<open>Subscriptions\<close>

text \<open>Two tries with the same tree: only the subscriptions differ.\<close>

definition same_tree :: "TopicTrie \<Rightarrow> TopicTrie \<Rightarrow> bool" where
  "same_tree t t' \<longleftrightarrow> tt_root t' = tt_root t \<and> tt_node_count t' = tt_node_count t \<and> length (tt_nodes t') = length (tt_nodes t)
     \<and> (\<forall>i. (tt_nodes t' ! i)\<lparr>nd_first_sub := 0\<rparr> = (tt_nodes t ! i)\<lparr>nd_first_sub := 0\<rparr>)"

lemma same_treeD:
  assumes "same_tree t t'"
  shows "nd_next_sibling (tt_nodes t' ! i) = nd_next_sibling (tt_nodes t ! i)"
    "nd_first_child (tt_nodes t' ! i) = nd_first_child (tt_nodes t ! i)"
    "nd_segment (tt_nodes t' ! i) = nd_segment (tt_nodes t ! i)" "nd_terminal (tt_nodes t' ! i) = nd_terminal (tt_nodes t ! i)"
    "nd_is_wildcard_plus (tt_nodes t' ! i) = nd_is_wildcard_plus (tt_nodes t ! i)"
    "nd_is_wildcard_hash (tt_nodes t' ! i) = nd_is_wildcard_hash (tt_nodes t ! i)"
proof -
  have "(tt_nodes t' ! i)\<lparr>nd_first_sub := 0\<rparr> = (tt_nodes t ! i)\<lparr>nd_first_sub := 0\<rparr>" using assms by (simp add: same_tree_def)
  then show "nd_next_sibling (tt_nodes t' ! i) = nd_next_sibling (tt_nodes t ! i)"
    "nd_first_child (tt_nodes t' ! i) = nd_first_child (tt_nodes t ! i)"
    "nd_segment (tt_nodes t' ! i) = nd_segment (tt_nodes t ! i)" "nd_terminal (tt_nodes t' ! i) = nd_terminal (tt_nodes t ! i)"
    "nd_is_wildcard_plus (tt_nodes t' ! i) = nd_is_wildcard_plus (tt_nodes t ! i)"
    "nd_is_wildcard_hash (tt_nodes t' ! i) = nd_is_wildcard_hash (tt_nodes t ! i)"
    by (cases "tt_nodes t ! i"; cases "tt_nodes t' ! i"; simp)+
qed

lemma same_tree_keeps:
  assumes "same_tree t t'"
  shows "nodes_inv kids t' = nodes_inv kids t" and "trie_path kids (tt_nodes t') = trie_path kids (tt_nodes t)"
proof -
  have g: "tt_root t' = tt_root t" "tt_node_count t' = tt_node_count t" "length (tt_nodes t') = length (tt_nodes t)"
    using assms by (simp_all add: same_tree_def)
  show "nodes_inv kids t' = nodes_inv kids t"
    by (simp only: nodes_inv_def sizes_ok_def kids_ok_def label_ok_def same_treeD [OF assms] g)
  have "trie_path kids ns' cur n e" if "trie_path kids ns cur n e" "\<And>cur i. edge cur (ns' ! i) = edge cur (ns ! i)" for ns ns' cur n e
    using that(1) by (induction rule: trie_path.induct) (use that(2) in \<open>auto intro: trie_path.intros\<close>)
  moreover have "edge cur (tt_nodes t' ! i) = edge cur (tt_nodes t ! i)" for cur i
    by (simp only: edge_def same_treeD [OF assms])
  ultimately show "trie_path kids (tt_nodes t') = trie_path kids (tt_nodes t)"
    by (intro ext iffI) blast+
qed

text \<open>\<open>is\<close> are the subscriptions at node \<open>n\<close>, in the order of their links.\<close>

definition sub_chain_ok :: "TopicTrie \<Rightarrow> nat list \<Rightarrow> nat \<Rightarrow> bool" where
  "sub_chain_ok t is n \<longleftrightarrow> chain (\<lambda>i. se_next (tt_subs t ! i)) (nd_first_sub (tt_nodes t ! n)) is \<and> distinct is
     \<and> set is = {i. i < length (tt_subs t) \<and> se_in_use (tt_subs t ! i) \<and> unat (se_node_id (tt_subs t ! i)) = n}"

definition subs_inv :: "(nat \<Rightarrow> nat list) \<Rightarrow> TopicTrie \<Rightarrow> bool" where
  "subs_inv links t \<longleftrightarrow> length (tt_subs t) \<le> 65535 \<and> (\<forall>n < tt_node_count t. sub_chain_ok t (links n) n)
     \<and> (\<forall>s \<in> set (tt_subs t). se_in_use s \<longrightarrow> unat (se_node_id s) < tt_node_count t)"

definition paths_inv :: "(nat \<Rightarrow> nat list) \<Rightarrow> TopicTrie \<Rightarrow> bool" where
  "paths_inv kids t \<longleftrightarrow> (\<forall>s \<in> set (tt_subs t). se_in_use s \<and> plain_filter (se_filter s)
     \<longrightarrow> trie_path kids (tt_nodes t) (se_filter s) 0 (unat (se_node_id s)))"

definition trie_inv :: "TopicTrie \<Rightarrow> bool" where
  "trie_inv t \<longleftrightarrow> (\<exists>kids links. nodes_inv kids t \<and> subs_inv links t \<and> paths_inv kids t)"

lemma subs_invD:
  assumes "subs_inv links t"
  shows "length (tt_subs t) \<le> 65535" and "n < tt_node_count t \<Longrightarrow> sub_chain_ok t (links n) n"
    and "i < length (tt_subs t) \<Longrightarrow> se_in_use (tt_subs t ! i) \<Longrightarrow> unat (se_node_id (tt_subs t ! i)) < tt_node_count t"
  using assms by (simp_all add: subs_inv_def)

section \<open>Removing a subscription\<close>

definition relink :: "u16 option \<Rightarrow> nat \<Rightarrow> u16 \<Rightarrow> TopicTrie \<Rightarrow> TopicTrie" where
  "relink prev node v t =
     (case prev of
        None \<Rightarrow> t\<lparr>tt_nodes := (tt_nodes t)[node := (tt_nodes t ! node)\<lparr>nd_first_sub := v\<rparr>]\<rparr>
      | Some s \<Rightarrow> t\<lparr>tt_subs := (tt_subs t)[unat s := (tt_subs t ! unat s)\<lparr>se_next := v\<rparr>]\<rparr>)"

lemma unlink_loop_chain:
  "chain (\<lambda>i. se_next (tt_subs t ! i)) cur (as @ i # bs) \<Longrightarrow> i \<notin> set as \<Longrightarrow> length as < hops \<Longrightarrow>
   unlink_loop hops cur prev (of_nat i) node t =
     relink (if as = [] then prev else Some (of_nat (last as))) node (se_next (tt_subs t ! i)) t"
proof (induction as arbitrary: cur prev hops)
  case Nil
  then obtain h where "hops = Suc h" by (cases hops) auto
  with Nil chain_head [of i] show ?case by (simp add: relink_def split: option.split)
next
  case (Cons a as)
  then obtain h where h: "hops = Suc h" by (cases hops) auto
  have a: "a < 65535" "i < 65535" "cur = of_nat a" "chain (\<lambda>i. se_next (tt_subs t ! i)) (se_next (tt_subs t ! a)) (as @ i # bs)"
  proof -
    have "chain nx p (xs @ i # ys) \<Longrightarrow> i < 65535" for nx p xs ys by (induction xs arbitrary: p) auto
    from this [OF Cons.prems(1)] show "i < 65535" .
  qed (use Cons.prems(1) in auto)
  have "(of_nat a :: u16) \<noteq> of_nat i"
    using Cons.prems(2) chain_head [OF a(1)] chain_head [OF a(2)] by (metis list.set_intros(1))
  with h a chain_head [OF a(1)] Cons.IH [OF a(4), of h "Some cur"] Cons.prems show ?case by simp
qed

lemma chain_unlink:
  assumes "chain nx p (as @ l # i # bs)" and "distinct (as @ l # i # bs)"
    and "\<And>j. j \<noteq> l \<Longrightarrow> j \<noteq> i \<Longrightarrow> nx' j = nx j" and "nx' l = nx i"
  shows "chain nx' p (as @ l # bs)"
  using assms(1,2)
proof (induction as arbitrary: p)
  case Nil
  have "chain nx' (nx i) bs = chain nx (nx i) bs" 
  proof (rule chain_cong)
    fix j assume "j \<in> set bs"
    with Nil.prems(2) have "j \<noteq> l" "j \<noteq> i" by auto
    then show "nx' j = nx j" by (rule assms(3))
  qed
  with Nil assms(4) show ?case by simp
next
  case (Cons a as)
  then show ?case using assms(3) [of a] by auto
qed

lemma same_tree_first_sub:
  "same_tree t (t\<lparr>tt_nodes := (tt_nodes t)[n := (tt_nodes t ! n)\<lparr>nd_first_sub := v\<rparr>], tt_subs := ss, tt_next_sub_id := k\<rparr>)"
  "same_tree t (t\<lparr>tt_subs := ss\<rparr>)"
  by (simp_all add: same_tree_def nth_upd)

text \<open>What is left after the removal of entry \<open>i\<close>, which stands between \<open>as\<close> and \<open>bs\<close> at its node.\<close>

lemma drop_sub_effect:
  assumes inv: "nodes_inv kids t" "subs_inv links t" and i: "i < length (tt_subs t)" "se_in_use (tt_subs t ! i)"
    and n: "n = unat (se_node_id (tt_subs t ! i))" and sp: "links n = as @ i # bs"
  shows "same_tree t (drop_sub i t)" "tt_next_sub_id (drop_sub i t) = tt_next_sub_id t"
    "length (tt_subs (drop_sub i t)) = length (tt_subs t)"
    "tt_subs (drop_sub i t) ! j = (tt_subs t ! j)\<lparr>se_in_use := se_in_use (tt_subs t ! j) \<and> j \<noteq> i,
       se_next := (if j = i then nil16 else if as \<noteq> [] \<and> j = last as then se_next (tt_subs t ! i) else se_next (tt_subs t ! j))\<rparr>"
    "nd_first_sub (tt_nodes (drop_sub i t) ! m) =
       (if as = [] \<and> m = n then se_next (tt_subs t ! i) else nd_first_sub (tt_nodes t ! m))"
proof -
  have n1: "n < tt_node_count t" using subs_invD(3) [OF inv(2) i] n by simp
  have sz: "tt_node_count t \<le> length (tt_nodes t)" "length (tt_nodes t) \<le> 65535" "length (tt_subs t) \<le> 65535"
    using nodes_invD(1) [OF inv(1)] subs_invD(1) [OF inv(2)] by (simp_all add: sizes_ok_def)
  have c: "chain (\<lambda>i. se_next (tt_subs t ! i)) (nd_first_sub (tt_nodes t ! n)) (as @ i # bs)" "distinct (as @ i # bs)"
    "\<And>j. j \<in> set (as @ i # bs) \<Longrightarrow> j < length (tt_subs t)"
    using subs_invD(2) [OF inv(2) n1] unfolding sub_chain_ok_def sp by auto
  have "length (as @ i # bs) \<le> length (tt_subs t)" by (rule distinct_below [OF c(2,3)])
  then have "unlink_loop (length (tt_subs t)) (nd_first_sub (tt_nodes t ! n)) None (of_nat i) n t
      = relink (if as = [] then None else Some (of_nat (last as))) n (se_next (tt_subs t ! i)) t"
    by (intro unlink_loop_chain [OF c(1)]) (use c(2) in auto)
  moreover have "se_node_id (tt_subs t ! i) \<noteq> nil16"
  proof
    assume "se_node_id (tt_subs t ! i) = nil16"
    then have "n = 65535" using n by simp
    with n1 sz show False by simp
  qed
  ultimately have u: "unlink_sub i t = (let t' = relink (if as = [] then None else Some (of_nat (last as))) n (se_next (tt_subs t ! i)) t
      in t'\<lparr>tt_subs := (tt_subs t')[i := (tt_subs t' ! i)\<lparr>se_next := nil16\<rparr>]\<rparr>)"
    using n n1 sz by (simp add: unlink_sub_def Let_def)
  show "same_tree t (drop_sub i t)" "tt_next_sub_id (drop_sub i t) = tt_next_sub_id t"
    "length (tt_subs (drop_sub i t)) = length (tt_subs t)"
    by (auto simp: drop_sub_def u relink_def Let_def same_tree_def nth_upd)
  have la: "as \<noteq> [] \<Longrightarrow> unat (of_nat (last as) :: u16) = last as \<and> last as \<noteq> i \<and> last as < length (tt_subs t)"
  proof -
    assume "as \<noteq> []"
    then have l: "last as \<in> set as" by simp
    with c(2) c(3) [of "last as"] have "last as \<noteq> i" "last as < length (tt_subs t)" by auto
    with sz chain_head [of "last as"] show ?thesis by simp
  qed
  show "tt_subs (drop_sub i t) ! j = (tt_subs t ! j)\<lparr>se_in_use := se_in_use (tt_subs t ! j) \<and> j \<noteq> i,
       se_next := (if j = i then nil16 else if as \<noteq> [] \<and> j = last as then se_next (tt_subs t ! i) else se_next (tt_subs t ! j))\<rparr>"
    using la i by (auto simp: drop_sub_def u relink_def Let_def nth_upd)
  show "nd_first_sub (tt_nodes (drop_sub i t) ! m) =
       (if as = [] \<and> m = n then se_next (tt_subs t ! i) else nd_first_sub (tt_nodes t ! m))"
    using n1 sz by (auto simp: drop_sub_def u relink_def Let_def nth_upd)
qed

lemma drop_sub_inv:
  assumes "trie_inv t" and i: "i < length (tt_subs t)" "se_in_use (tt_subs t ! i)"
  shows "trie_inv (drop_sub i t)" and "length (tt_subs (drop_sub i t)) = length (tt_subs t)"
    and "\<exists>v. tt_subs (drop_sub i t) ! j = (tt_subs t ! j)\<lparr>se_in_use := se_in_use (tt_subs t ! j) \<and> j \<noteq> i, se_next := v\<rparr>"
proof -
  obtain kids links where inv: "nodes_inv kids t" "subs_inv links t" "paths_inv kids t" using assms by (auto simp: trie_inv_def)
  define n where "n = unat (se_node_id (tt_subs t ! i))"
  have n1: "n < tt_node_count t" using subs_invD(3) [OF inv(2) i] n_def by simp
  have "i \<in> set (links n)" using subs_invD(2) [OF inv(2) n1] i by (simp add: sub_chain_ok_def n_def)
  then obtain as bs where sp: "links n = as @ i # bs" by (meson split_list)
  note e = drop_sub_effect [OF inv(1,2) i n_def sp]
  let ?t = "drop_sub i t"
  let ?nx = "\<lambda>t i. se_next (tt_subs t ! i)"
  show len: "length (tt_subs ?t) = length (tt_subs t)" by (rule e(3))
  show "\<exists>v. tt_subs ?t ! j = (tt_subs t ! j)\<lparr>se_in_use := se_in_use (tt_subs t ! j) \<and> j \<noteq> i, se_next := v\<rparr>" for j
    using e(4) by blast
  have k: "chain (?nx t) (nd_first_sub (tt_nodes t ! m)) (links m)" "distinct (links m)"
    "set (links m) = {i. i < length (tt_subs t) \<and> se_in_use (tt_subs t ! i) \<and> unat (se_node_id (tt_subs t ! i)) = m}"
    if "m < tt_node_count t" for m
    using subs_invD(2) [OF inv(2) that] by (simp_all add: sub_chain_ok_def)
  let ?links = "links(n := as @ bs)"
  have "sub_chain_ok ?t (?links m) m" if m: "m < tt_node_count t" for m
  proof -
    have st: "set (?links m) = {i. i < length (tt_subs ?t) \<and> se_in_use (tt_subs ?t ! i) \<and> unat (se_node_id (tt_subs ?t ! i)) = m}"
    proof -
      have "set (?links m) = set (links m) - {i}" using k(2,3) [OF n1] k(3) [OF m] sp by (auto simp: n_def)
      then show ?thesis unfolding k(3) [OF m] e(3,4) by auto
    qed
    have ds: "distinct (?links m)" using k(2) [OF m] k(2) [OF n1] sp by auto
    have "chain (?nx ?t) (nd_first_sub (tt_nodes ?t ! m)) (?links m)"
    proof (cases "m = n")
      case False
      have "chain (?nx ?t) q (links m) = chain (?nx t) q (links m)" for q
      proof (rule chain_cong)
        fix j assume "j \<in> set (links m)"
        then have "j \<notin> set (links n)" using False k(3) [OF m] k(3) [OF n1] by auto
        then show "?nx ?t j = ?nx t j" unfolding sp e(4) by auto
      qed
      with False k(1) [OF m] show ?thesis by (simp add: e(5))
    next
      case True
      have d: "distinct (as @ i # bs)" and c: "chain (?nx t) (nd_first_sub (tt_nodes t ! n)) (as @ i # bs)"
        using k(1,2) [OF n1] sp by simp_all
      show ?thesis
      proof (cases as rule: rev_cases)
        case Nil
        have "chain (?nx ?t) (?nx t i) bs = chain (?nx t) (?nx t i) bs"
          by (rule chain_cong) (use d Nil in \<open>auto simp: e(4)\<close>)
        with c True Nil show ?thesis by (simp add: e(5))
      next
        case (snoc as0 l)
        have "chain (?nx ?t) (nd_first_sub (tt_nodes t ! n)) (as0 @ l # bs)"
          by (rule chain_unlink [where i = i and nx = "?nx t"]) (use c d snoc in \<open>auto simp: e(4)\<close>)
        with True snoc show ?thesis by (simp add: e(5))
      qed
    qed
    with st ds show ?thesis by (simp add: sub_chain_ok_def)
  qed
  moreover have cnt: "tt_node_count ?t = tt_node_count t" using e(1) by (simp add: same_tree_def)
  moreover have old: "\<exists>j < length (tt_subs t). se_in_use (tt_subs t ! j) \<and> se_node_id s = se_node_id (tt_subs t ! j) \<and> se_filter s = se_filter (tt_subs t ! j)"
    if "s \<in> set (tt_subs ?t)" "se_in_use s" for s
    using that by (auto simp: in_set_conv_nth e(3,4))
  ultimately have "subs_inv ?links ?t"
    using subs_invD(1,3) [OF inv(2)] unfolding subs_inv_def e(3) by fastforce
  moreover have "paths_inv kids ?t"
    using old inv(3) unfolding paths_inv_def same_tree_keeps(2) [OF e(1)] by (metis nth_mem)
  ultimately show "trie_inv ?t"
    using inv(1) same_tree_keeps(1) [OF e(1)] by (auto simp: trie_inv_def)
qed

section \<open>The table of subscriptions\<close>

text \<open>What the entries stand for: options by session and filter.\<close>

definition key_is :: "u16 \<Rightarrow> byte list \<Rightarrow> SubEntry \<Rightarrow> bool" where
  "key_is sid flt s \<longleftrightarrow> se_in_use s \<and> se_session_id s = sid \<and> se_filter s = flt"

definition sub_table :: "TopicTrie \<Rightarrow> u16 \<times> byte list \<Rightarrow> (u8 \<times> u8) option" where
  "sub_table t k = map_option (\<lambda>i. (se_max_qos (tt_subs t ! i), se_options_byte (tt_subs t ! i)))
     (first_idx (key_is (fst k) (snd k)) (tt_subs t))"

definition keys_unique :: "SubEntry list \<Rightarrow> bool" where
  "keys_unique ss \<longleftrightarrow> (\<forall>i < length ss. \<forall>j < length ss. \<forall>sid flt. key_is sid flt (ss ! i) \<and> key_is sid flt (ss ! j) \<longrightarrow> i = j)"

definition trie_wf :: "TopicTrie \<Rightarrow> bool" where
  "trie_wf t \<longleftrightarrow> trie_inv t \<and> keys_unique (tt_subs t)"

lemma sub_table_Some:
  assumes "keys_unique (tt_subs t)"
  shows "sub_table t (sid, flt) = Some v \<longleftrightarrow>
    (\<exists>i < length (tt_subs t). key_is sid flt (tt_subs t ! i) \<and> v = (se_max_qos (tt_subs t ! i), se_options_byte (tt_subs t ! i)))"
proof -
  have "first_idx (key_is sid flt) (tt_subs t) = Some i \<longleftrightarrow> i < length (tt_subs t) \<and> key_is sid flt (tt_subs t ! i)" for i
  proof
    assume "i < length (tt_subs t) \<and> key_is sid flt (tt_subs t ! i)"
    with assms show "first_idx (key_is sid flt) (tt_subs t) = Some i"
      unfolding keys_unique_def by (intro first_idx_unique) blast+
  qed auto
  then show ?thesis by (auto simp: sub_table_def)
qed

lemma option_ext: "(\<And>v. x = Some v \<longleftrightarrow> y = Some v) \<Longrightarrow> x = y"
  by (metis not_Some_eq)

lemma drop_sub_wf:
  assumes wf: "trie_wf t" and i: "i < length (tt_subs t)" "key_is sid flt (tt_subs t ! i)"
  shows "trie_wf (drop_sub i t)" and "sub_table (drop_sub i t) = (sub_table t)((sid, flt) := None)"
    and "length (tt_subs (drop_sub i t)) = length (tt_subs t)"
    and "j \<noteq> i \<Longrightarrow> key_is sid' flt' (tt_subs (drop_sub i t) ! j) = key_is sid' flt' (tt_subs t ! j)"
    and "\<not> se_in_use (tt_subs (drop_sub i t) ! i)"
proof -
  have "trie_inv t" and uq: "keys_unique (tt_subs t)" and u: "se_in_use (tt_subs t ! i)" using wf i by (simp_all add: trie_wf_def key_is_def)
  note d = drop_sub_inv [OF \<open>trie_inv t\<close> i(1) u]
  have key: "key_is s f (tt_subs (drop_sub i t) ! j) \<longleftrightarrow> key_is s f (tt_subs t ! j) \<and> j \<noteq> i" for s f j
    using d(3) [of j] by (auto simp: key_is_def)
  have val: "se_max_qos (tt_subs (drop_sub i t) ! j) = se_max_qos (tt_subs t ! j)"
    "se_options_byte (tt_subs (drop_sub i t) ! j) = se_options_byte (tt_subs t ! j)" for j
    using d(3) [of j] by auto
  show "length (tt_subs (drop_sub i t)) = length (tt_subs t)" by (rule d(2))
  show "j \<noteq> i \<Longrightarrow> key_is sid' flt' (tt_subs (drop_sub i t) ! j) = key_is sid' flt' (tt_subs t ! j)" by (simp add: key)
  show "\<not> se_in_use (tt_subs (drop_sub i t) ! i)" using d(3) [of i] by auto
  have uq': "keys_unique (tt_subs (drop_sub i t))" using uq by (auto simp: keys_unique_def key d(2))
  then show "trie_wf (drop_sub i t)" using d(1) by (simp add: trie_wf_def)
  show "sub_table (drop_sub i t) = (sub_table t)((sid, flt) := None)"
  proof
    fix k :: "u16 \<times> byte list"
    obtain s f where k: "k = (s, f)" by (rule prod.exhaust)
    show "sub_table (drop_sub i t) k = ((sub_table t)((sid, flt) := None)) k"
    proof (cases "k = (sid, flt)")
      case True
      have "\<not> key_is sid flt x" if x: "x \<in> set (tt_subs (drop_sub i t))" for x
      proof -
        obtain j where "j < length (tt_subs t)" "x = tt_subs (drop_sub i t) ! j" using x by (auto simp: in_set_conv_nth d(2))
        then show ?thesis using uq i key unfolding keys_unique_def by blast
      qed
      then have "first_idx (key_is sid flt) (tt_subs (drop_sub i t)) = None" by (simp add: first_idx_None_iff)
      with True show ?thesis by (simp add: sub_table_def)
    next
      case False
      then have "\<not> key_is s f (tt_subs t ! i)" using i(2) k by (auto simp: key_is_def)
      then have "key_is s f (tt_subs (drop_sub i t) ! j) = key_is s f (tt_subs t ! j)" for j using key by blast
      then have "sub_table (drop_sub i t) (s, f) = Some v \<longleftrightarrow> sub_table t (s, f) = Some v" for v
        by (simp only: sub_table_Some [OF uq] sub_table_Some [OF uq'] val d(2))
      then have "sub_table (drop_sub i t) k = sub_table t k" unfolding k by (rule option_ext)
      with False show ?thesis by auto
    qed
  qed
qed

lemma unsubscribe_table:
  assumes wf: "trie_wf t" and r: "trie_unsubscribe flt sid t = (ok, t')"
  shows "trie_wf t'" and "sub_table t' = (sub_table t)((sid, flt) := None)" and "ok \<longleftrightarrow> sub_table t (sid, flt) \<noteq> None"
proof -
  have k: "(\<lambda>s. se_in_use s \<and> se_session_id s = sid \<and> se_filter s = flt) = key_is sid flt"
    by (auto simp: key_is_def fun_eq_iff)
  have "trie_wf t' \<and> sub_table t' = (sub_table t)((sid, flt) := None) \<and> (ok \<longleftrightarrow> sub_table t (sid, flt) \<noteq> None)"
  proof (cases "first_idx (key_is sid flt) (tt_subs t)")
    case None
    then have "sub_table t (sid, flt) = None" by (simp add: sub_table_def)
    with r wf None k show ?thesis by (auto simp: trie_unsubscribe_def fun_upd_idem)
  next
    case (Some i)
    then have i: "i < length (tt_subs t)" "key_is sid flt (tt_subs t ! i)" by auto
    from r Some k drop_sub_wf(1,2) [OF wf i] show ?thesis by (auto simp: trie_unsubscribe_def sub_table_def)
  qed
  then show "trie_wf t'" "sub_table t' = (sub_table t)((sid, flt) := None)" "ok \<longleftrightarrow> sub_table t (sid, flt) \<noteq> None" by blast+
qed

text \<open>The loop over the entries, up to entry \<open>k\<close>.\<close>

lemma unsubscribe_all_table:
  assumes wf: "trie_wf t"
  shows "trie_wf (unsubscribe_all sid t)"
    and "sub_table (unsubscribe_all sid t) = (\<lambda>k. if fst k = sid then None else sub_table t k)"
proof -
  define step where "step = (\<lambda>i t. if se_in_use (tt_subs t ! i) \<and> se_session_id (tt_subs t ! i) = sid then drop_sub i t else t)"
  define ok where "ok = (\<lambda>k t'. trie_wf t' \<and> length (tt_subs t') = length (tt_subs t)
    \<and> (\<forall>i < k. \<not> (se_in_use (tt_subs t' ! i) \<and> se_session_id (tt_subs t' ! i) = sid))
    \<and> (\<forall>s f. s \<noteq> sid \<longrightarrow> sub_table t' (s, f) = sub_table t (s, f)))"
  have "ok k (fold step [0..<k] t)" if "k \<le> length (tt_subs t)" for k
    using that
  proof (induction k)
    case 0
    then show ?case using wf by (simp add: ok_def)
  next
    case (Suc k)
    let ?t = "fold step [0..<k] t"
    have h: "ok k ?t" using Suc by simp
    show ?case
    proof (cases "se_in_use (tt_subs ?t ! k) \<and> se_session_id (tt_subs ?t ! k) = sid")
      case False
      with h show ?thesis by (simp add: step_def ok_def less_Suc_eq) blast
    next
      case True
      have w: "trie_wf ?t" "k < length (tt_subs ?t)" "key_is sid (se_filter (tt_subs ?t ! k)) (tt_subs ?t ! k)"
        using h True Suc.prems by (auto simp: ok_def key_is_def)
      note d = drop_sub_wf [OF w]
      have "\<not> (se_in_use (tt_subs (drop_sub k ?t) ! i) \<and> se_session_id (tt_subs (drop_sub k ?t) ! i) = sid)" if "i < Suc k" for i
      proof (cases "i = k")
        case False
        then show ?thesis
          using that h d(4) [of i sid "se_filter (tt_subs (drop_sub k ?t) ! i)"] unfolding ok_def key_is_def by (metis less_antisym)
      qed (use d(5) in blast)
      with h d(1-3) True show ?thesis by (simp add: step_def ok_def)
    qed
  qed
  from this [of "length (tt_subs t)"] have r: "ok (length (tt_subs t)) (unsubscribe_all sid t)"
    by (simp add: unsubscribe_all_def step_def)
  then show "trie_wf (unsubscribe_all sid t)" by (simp add: ok_def)
  have "\<forall>x \<in> set (tt_subs (unsubscribe_all sid t)). \<not> (se_in_use x \<and> se_session_id x = sid)"
    using r unfolding ok_def all_set_conv_all_nth by metis
  then have "sub_table (unsubscribe_all sid t) (sid, f) = None" for f
    by (auto simp: sub_table_def first_idx_None_iff key_is_def)
  with r show "sub_table (unsubscribe_all sid t) = (\<lambda>k. if fst k = sid then None else sub_table t k)"
    by (auto simp: ok_def fun_eq_iff)
qed

section \<open>Adding a subscription\<close>

lemma tree_grows_inv:
  assumes inv: "nodes_inv kids t" "subs_inv links t" "paths_inv kids t" and g: "nodes_inv kids' t'" "tree_grows kids t kids' t'"
  shows "subs_inv (\<lambda>n. if n < tt_node_count t then links n else []) t' \<and> paths_inv kids' t'"
proof -
  have f: "tt_subs t' = tt_subs t" "tt_node_count t \<le> tt_node_count t'"
    "\<And>n. tt_node_count t \<le> n \<Longrightarrow> n < tt_node_count t' \<Longrightarrow> nd_first_sub (tt_nodes t' ! n) = nil16"
    using g(2) by (auto simp: tree_grows_def)
  have "sub_chain_ok t' (if n < tt_node_count t then links n else []) n" if n: "n < tt_node_count t'" for n
  proof (cases "n < tt_node_count t")
    case True
    with subs_invD(2) [OF inv(2) True] tree_growsD(3) [OF g(2) True] show ?thesis by (simp add: sub_chain_ok_def f)
  next
    case False
    with n f(3) subs_invD(3) [OF inv(2)] show ?thesis by (auto simp: sub_chain_ok_def f)
  qed
  moreover have "\<forall>s \<in> set (tt_subs t). se_in_use s \<longrightarrow> unat (se_node_id s) < tt_node_count t'"
    using inv(2) f(2) unfolding subs_inv_def by fastforce
  ultimately have "subs_inv (\<lambda>n. if n < tt_node_count t then links n else []) t'"
    using subs_invD(1) [OF inv(2)] unfolding subs_inv_def f(1) by blast
  moreover have "0 < tt_node_count t" using nodes_invD(1) [OF inv(1)] by (simp add: sizes_ok_def)
  then have "paths_inv kids' t'"
    using inv(3) trie_path_grows [OF _ inv(1) g(2)] unfolding paths_inv_def f(1) by blast
  ultimately show ?thesis ..
qed

lemma insert_sub_inv:
  assumes inv: "nodes_inv kids t" "subs_inv links t" "paths_inv kids t"
    and i: "i < length (tt_subs t)" "\<not> se_in_use (tt_subs t ! i)"
    and n: "unat (se_node_id s) = n" "n < tt_node_count t" and s: "se_in_use s" "se_next s = nd_first_sub (tt_nodes t ! n)"
    and p: "plain_filter (se_filter s) \<Longrightarrow> trie_path kids (tt_nodes t) (se_filter s) 0 n"
  shows "trie_inv (t\<lparr>tt_next_sub_id := k, tt_subs := (tt_subs t)[i := s],
    tt_nodes := (tt_nodes t)[n := (tt_nodes t ! n)\<lparr>nd_first_sub := of_nat i\<rparr>]\<rparr>)" (is "trie_inv ?t")
proof -
  have tree: "same_tree t ?t" by (simp add: same_tree_def nth_upd)
  have nl: "n < length (tt_nodes t)" using nodes_invD(1) [OF inv(1)] n by (simp add: sizes_ok_def)
  have i1: "i < 65535" using i subs_invD(1) [OF inv(2)] by simp
  let ?links = "links(n := i # links n)"
  have "sub_chain_ok ?t (?links m) m" if m: "m < tt_node_count t" for m
  proof -
    have k: "chain (\<lambda>i. se_next (tt_subs t ! i)) (nd_first_sub (tt_nodes t ! m)) (links m)" "distinct (links m)"
      "set (links m) = {i. i < length (tt_subs t) \<and> se_in_use (tt_subs t ! i) \<and> unat (se_node_id (tt_subs t ! i)) = m}"
      using subs_invD(2) [OF inv(2) m] by (simp_all add: sub_chain_ok_def)
    have ni: "i \<notin> set (links m)" using k(3) i by simp
    have "chain (\<lambda>j. se_next (tt_subs ?t ! j)) q (links m) = chain (\<lambda>j. se_next (tt_subs t ! j)) q (links m)" for q
      by (rule chain_cong) (use ni in \<open>auto simp: nth_upd\<close>)
    with k(1) i(1) i1 n s nl have c: "chain (\<lambda>j. se_next (tt_subs ?t ! j)) (nd_first_sub (tt_nodes ?t ! m)) (?links m)"
      by (auto simp: nth_upd)
    have "set (?links m) = {j. j < length (tt_subs ?t) \<and> se_in_use (tt_subs ?t ! j) \<and> unat (se_node_id (tt_subs ?t ! j)) = m}"
      using k(3) i n s by (auto simp: nth_upd)
    with c k(2) ni show ?thesis by (auto simp: sub_chain_ok_def)
  qed
  moreover have "\<forall>x \<in> set (tt_subs ?t). se_in_use x \<longrightarrow> unat (se_node_id x) < tt_node_count t"
    using inv(2) n unfolding subs_inv_def by (auto dest!: in_set_upd)
  ultimately have "subs_inv ?links ?t"
    using subs_invD(1) [OF inv(2)] by (simp add: subs_inv_def)
  moreover have "paths_inv kids ?t"
    unfolding paths_inv_def same_tree_keeps(2) [OF tree]
  proof (intro ballI impI, elim conjE)
    fix x assume x: "x \<in> set (tt_subs ?t)" "se_in_use x" "plain_filter (se_filter x)"
    then have "x = s \<or> x \<in> set (tt_subs t)" by (auto dest!: in_set_upd)
    then show "trie_path kids (tt_nodes t) (se_filter x) 0 (unat (se_node_id x))"
      using x p n inv(3) unfolding paths_inv_def by blast
  qed
  ultimately show ?thesis using inv(1) same_tree_keeps(1) [OF tree] by (auto simp: trie_inv_def)
qed

lemma trie_new_wf:
  assumes "0 < n" "n \<le> 65535" "m \<le> 65535"
  shows "trie_wf (TopicTrie_new n m)"
proof -
  let ?t = "TopicTrie_new n m"
  have f: "tt_root ?t = 0" "tt_node_count ?t = 1" "tt_subs ?t = replicate m sub_unused"
    "tt_nodes ?t = (replicate n node_zero)[0 := node_zero\<lparr>nd_first_child := nil16, nd_next_sibling := nil16, nd_first_sub := nil16\<rparr>]"
    using assms by (simp_all add: TopicTrie_new_def alloc_node_def Let_def)
  have "nodes_inv (\<lambda>_. []) ?t"
    using assms by (auto simp: nodes_inv_def sizes_ok_def kids_ok_def label_ok_def f nth_upd node_zero_def)
  moreover have "subs_inv (\<lambda>_. []) ?t"
    using assms by (auto simp: subs_inv_def sub_chain_ok_def f sub_unused_def nth_upd)
  moreover have "paths_inv (\<lambda>_. []) ?t" by (simp add: paths_inv_def f sub_unused_def)
  moreover have "keys_unique (tt_subs ?t)" by (simp add: keys_unique_def key_is_def f sub_unused_def)
  ultimately show ?thesis by (auto simp: trie_wf_def trie_inv_def)
qed

text \<open>The table after one entry is replaced by one with the key (\<open>sid\<close>, \<open>flt\<close>).\<close>

lemma sub_table_set:
  assumes uq: "keys_unique ss" and ss: "tt_subs t = ss" "tt_subs t' = ss[i := e]" and i: "i < length ss" "key_is sid flt e"
    and new: "key_is sid flt (ss ! i) \<or> \<not> se_in_use (ss ! i) \<and> (\<forall>x \<in> set ss. \<not> key_is sid flt x)"
  shows "keys_unique (tt_subs t')" and "sub_table t' = (sub_table t)((sid, flt) \<mapsto> (se_max_qos e, se_options_byte e))"
proof -
  have e: "key_is s f e \<longleftrightarrow> s = sid \<and> f = flt" for s f using i(2) by (auto simp: key_is_def)
  have key: "key_is s f (ss[i := e] ! j) \<longleftrightarrow> (if j = i then s = sid \<and> f = flt else key_is s f (ss ! j))" if "j < length ss" for s f j
    using that e by (simp add: nth_upd)
  have other: "\<not> key_is sid flt (ss ! j)" if "j < length ss" "j \<noteq> i" for j
    using new
  proof
    assume "key_is sid flt (ss ! i)"
    with uq that i show ?thesis unfolding keys_unique_def by blast
  qed (use that in simp)
  have "j = k" if "j < length ss" "k < length ss" "key_is s f (ss[i := e] ! j)" "key_is s f (ss[i := e] ! k)" for j k s f
  proof -
    consider "j = i" | "k = i" | "j \<noteq> i" "k \<noteq> i" by blast
    then show ?thesis
    proof cases
      case 3
      with that key have "key_is s f (ss ! j)" "key_is s f (ss ! k)" by auto
      with uq that show ?thesis unfolding keys_unique_def by blast
    qed (use that key other in metis)+
  qed
  then show uq': "keys_unique (tt_subs t')" unfolding keys_unique_def ss(2) length_list_update by blast
  have uqt: "keys_unique (tt_subs t)" using uq ss by simp
  show "sub_table t' = (sub_table t)((sid, flt) \<mapsto> (se_max_qos e, se_options_byte e))"
  proof
    fix k :: "u16 \<times> byte list"
    obtain s f where k: "k = (s, f)" by (rule prod.exhaust)
    show "sub_table t' k = ((sub_table t)((sid, flt) \<mapsto> (se_max_qos e, se_options_byte e))) k"
    proof (cases "k = (sid, flt)")
      case True
      have "sub_table t' (sid, flt) = Some (se_max_qos e, se_options_byte e)"
        unfolding sub_table_Some [OF uq'] ss using i by (intro exI [of _ i]) simp
      with True show ?thesis by simp
    next
      case False
      have nk: "\<not> key_is s f (ss ! i)" "\<not> key_is s f e" using new False k e by (auto simp: key_is_def)
      have "sub_table t' (s, f) = Some v \<longleftrightarrow> sub_table t (s, f) = Some v" for v
        unfolding sub_table_Some [OF uq'] sub_table_Some [OF uqt] ss length_list_update
        using nk by (metis nth_list_update_eq nth_list_update_neq)
      then have "sub_table t' k = sub_table t k" unfolding k by (rule option_ext)
      with False show ?thesis by auto
    qed
  qed
qed

lemma resubscribe_inv:
  assumes "trie_inv t" and "i < length (tt_subs t)"
  shows "trie_inv (t\<lparr>tt_subs := (tt_subs t)[i := (tt_subs t ! i)\<lparr>se_max_qos := q, se_options_byte := opts\<rparr>]\<rparr>)" (is "trie_inv ?t")
proof -
  obtain kids links where inv: "nodes_inv kids t" "subs_inv links t" "paths_inv kids t" using assms by (auto simp: trie_inv_def)
  have f: "se_next (tt_subs ?t ! j) = se_next (tt_subs t ! j)" "se_in_use (tt_subs ?t ! j) = se_in_use (tt_subs t ! j)"
    "se_node_id (tt_subs ?t ! j) = se_node_id (tt_subs t ! j)" "se_filter (tt_subs ?t ! j) = se_filter (tt_subs t ! j)" for j
    by (simp_all add: nth_upd)
  have g: "length (tt_subs ?t) = length (tt_subs t)" "tt_nodes ?t = tt_nodes t" "tt_node_count ?t = tt_node_count t" by simp_all
  have "subs_inv links ?t" using inv(2) unfolding subs_inv_def sub_chain_ok_def all_set_conv_all_nth f g .
  moreover have "paths_inv kids ?t" using inv(3) unfolding paths_inv_def all_set_conv_all_nth f g .
  moreover have "nodes_inv kids ?t" using inv(1) same_tree_keeps(1) [OF same_tree_first_sub(2)] by simp
  ultimately show ?thesis by (auto simp: trie_inv_def)
qed

lemma subscribe_table:
  assumes wf: "trie_wf t" and len: "length flt \<le> 255"
  shows "\<exists>r t'. trie_subscribe flt sid q opts t = Some (r, t') \<and> trie_wf t'
    \<and> sub_table t' = (if sr_ok r then (sub_table t)((sid, flt) \<mapsto> (q, opts)) else sub_table t)
    \<and> (sr_existed r \<longleftrightarrow> sr_ok r \<and> sub_table t (sid, flt) \<noteq> None)
    \<and> (sub_table t (sid, flt) \<noteq> None \<and> filter_valid flt \<and> subscription_options_valid opts \<longrightarrow> sr_ok r)"
proof -
  have uq: "keys_unique (tt_subs t)" and "trie_inv t" using wf by (simp_all add: trie_wf_def)
  then obtain kids links where inv: "nodes_inv kids t" "subs_inv links t" "paths_inv kids t" by (auto simp: trie_inv_def)
  have k: "(\<lambda>s. se_in_use s \<and> se_session_id s = sid \<and> se_filter s = flt) = key_is sid flt"
    by (auto simp: key_is_def fun_eq_iff)
  have wf1: "trie_wf t" using wf .
  show ?thesis
  proof (cases "filter_valid flt \<and> subscription_options_valid opts")
    case False
    with wf show ?thesis by (auto simp: trie_subscribe_def Let_def)
  next
    case valid: True
    show ?thesis
    proof (cases "first_idx (key_is sid flt) (tt_subs t)")
      case (Some i)
      then have i: "i < length (tt_subs t)" "key_is sid flt (tt_subs t ! i)" by auto
      let ?e = "(tt_subs t ! i)\<lparr>se_max_qos := q, se_options_byte := opts\<rparr>"
      let ?t = "t\<lparr>tt_subs := (tt_subs t)[i := ?e]\<rparr>"
      have "key_is sid flt ?e" using i by (simp add: key_is_def)
      note set = sub_table_set [OF uq refl _ i(1) this, of ?t]
      have "sub_table t (sid, flt) \<noteq> None" using Some by (simp add: sub_table_def)
      with valid Some k set i resubscribe_inv [OF \<open>trie_inv t\<close> i(1), of opts q] show ?thesis
        by (simp add: trie_subscribe_def Let_def trie_wf_def)
    next
      case None
      then have new: "\<forall>x \<in> set (tt_subs t). \<not> key_is sid flt x" and tn: "sub_table t (sid, flt) = None"
        by (simp_all add: first_idx_None_iff sub_table_def)
      show ?thesis
      proof (cases "first_idx (\<lambda>s. \<not> se_in_use s) (tt_subs t)")
        case no: None
        with valid None k wf tn show ?thesis by (simp add: trie_subscribe_def Let_def)
      next
        case (Some i)
        then have i: "i < length (tt_subs t)" "\<not> se_in_use (tt_subs t ! i)" by auto
        have "0 < tt_node_count t" "tt_root t = of_nat 0" using nodes_invD(1) [OF inv(1)] by (simp_all add: sizes_ok_def)
        with walk_filter_grows [OF inv(1), of 0 flt] obtain res t1 kids1 where
          w: "walk_filter flt (tt_root t) t = Some (res, t1)" "nodes_inv kids1 t1" "tree_grows kids t kids1 t1"
            "\<And>e. res = Some e \<Longrightarrow> unat e < tt_node_count t1 \<and> (plain_filter flt \<longrightarrow> trie_path kids1 (tt_nodes t1) flt 0 (unat e))"
          by auto
        obtain links1 where inv1: "subs_inv links1 t1" "paths_inv kids1 t1" using tree_grows_inv [OF inv w(2,3)] by blast
        have subs: "tt_subs t1 = tt_subs t" using w(3) by (simp add: tree_grows_def)
        then have tab1: "sub_table t1 = sub_table t" by (simp add: sub_table_def fun_eq_iff)
        show ?thesis
        proof (cases res)
          case rn: None
          have "trie_wf t1" using w(2) inv1 uq subs by (auto simp: trie_wf_def trie_inv_def)
          with rn valid None Some k w tn tab1 show ?thesis by (simp add: trie_subscribe_def Let_def)
        next
          case (Some e)
          let ?s = "\<lparr>se_sub_id = tt_next_sub_id t1, se_session_id = sid, se_max_qos = q, se_options_byte = opts, se_node_id = e,
            se_next = nd_first_sub (tt_nodes t1 ! unat e), se_filter = flt, se_in_use = True\<rparr>"
          let ?t = "t1\<lparr>tt_next_sub_id := tt_next_sub_id t1 + 1, tt_subs := (tt_subs t1)[i := ?s],
            tt_nodes := (tt_nodes t1)[unat e := (tt_nodes t1 ! unat e)\<lparr>nd_first_sub := of_nat i\<rparr>]\<rparr>"
          have "trie_inv ?t"
            by (rule insert_sub_inv [OF w(2) inv1]) (use i subs w(4) [OF Some] in simp_all)
          moreover have key: "key_is sid flt ?s" by (simp add: key_is_def)
          note set = sub_table_set [OF uq refl _ i(1) key, of ?t]
          ultimately show ?thesis
            using valid None \<open>first_idx (\<lambda>s. \<not> se_in_use s) (tt_subs t) = Some i\<close> k w Some set new i tn subs len
            by (simp add: trie_subscribe_def Let_def trie_wf_def)
        qed
      qed
    qed
  qed
qed

end
