(* ===== verification/Broker_Tables.thy ===== *)
theory Broker_Tables
  imports Broker_Handlers Parser_Inv Trie_Inv
begin

text \<open>
  The invariant of the broker's memory: every table keeps the size it was allocated with, every
  queue is a well-formed ring within its array, no two in-flight entries of a session share a packet
  identifier, every parser stays within its buffers, the subscription trie is well formed and both pools are
  consistent. This theory has
  the invariant and what each primitive step keeps of it; \<open>Broker_Inv\<close> carries it through the
  broker.
\<close>

section \<open>The tables\<close>

definition tq_ok :: "BrokerLimits \<Rightarrow> TxQueue \<Rightarrow> bool" where
  "tq_ok L q \<longleftrightarrow> tq_depth q = TxQueueDepthPerClient L \<and> tq_count q \<le> tq_depth q
     \<and> (\<exists>es. tq_entries q = Some es \<and> length es = tq_depth q)
     \<and> (0 < tq_depth q \<longrightarrow> tq_head q < tq_depth q \<and> tq_tail q = (tq_head q + tq_count q) mod tq_depth q)"

definition oq_ok :: "BrokerLimits \<Rightarrow> OfflineQueue \<Rightarrow> bool" where
  "oq_ok L q \<longleftrightarrow> oq_inv q \<and> oq_depth q = OfflineQueuePerClient L"

definition ob_ok :: "BrokerLimits \<Rightarrow> SessionOutboundInflight \<Rightarrow> bool" where
  "ob_ok L t \<longleftrightarrow> ob_inv t \<and> length (ob_entries t) = QosInflightPerClient L"

definition ib_ok :: "BrokerLimits \<Rightarrow> SessionInboundQoS2 \<Rightarrow> bool" where
  "ib_ok L t \<longleftrightarrow> ib_inv t \<and> length t = QosInflightPerClient L"

definition parser_ok :: "PacketParser \<Rightarrow> bool" where
  "parser_ok p \<longleftrightarrow> packet_ok (pa_packet p) \<and> length (pa_rl_buf p) \<le> 4
     \<and> length (pa_control_buf p) \<le> kControlBufSize
     \<and> (pa_phase p = RemainingLength \<longrightarrow> length (pa_rl_buf p) < 4)"

definition conn_ok :: "BrokerLimits \<Rightarrow> ConnectionSlot \<Rightarrow> bool" where
  "conn_ok L c \<longleftrightarrow> tq_ok L (cn_tx c) \<and> parser_ok (cn_parser c)"

definition broker_inv :: "BrokerLimits \<Rightarrow> Broker \<Rightarrow> bool" where
  "broker_inv L b \<longleftrightarrow>
     bk_limits b = L \<and> mp_inv (bk_msg_pool b) \<and> pp_inv (bk_prop_pool b)
     \<and> length (bk_sessions b) = MaxTcpClients L
     \<and> length (bk_connections b) = MaxTcpClients L \<and> list_all (conn_ok L) (bk_connections b)
     \<and> length (bk_offline_queues b) = MaxTcpClients L \<and> list_all (oq_ok L) (bk_offline_queues b)
     \<and> length (bk_outbound_inflight b) = MaxTcpClients L \<and> list_all (ob_ok L) (bk_outbound_inflight b)
     \<and> length (bk_inbound_qos2 b) = MaxTcpClients L \<and> list_all (ib_ok L) (bk_inbound_qos2 b)
     \<and> length (rs_entries (bk_retained b)) = MaxRetainedEntries L
     \<and> length (tt_nodes (bk_topic_trie b)) = 256 \<and> length (tt_subs (bk_topic_trie b)) = MaxSubsTotal L
     \<and> trie_wf (bk_topic_trie b)"

lemma parser_inv_split: "parser_inv (p, mp, pp) \<longleftrightarrow> parser_ok p \<and> mp_inv mp \<and> pp_inv pp"
  by (auto simp: parser_inv_pair parser_ok_def)

lemma list_all_upd: "list_all P xs \<Longrightarrow> (i < length xs \<Longrightarrow> P (xs ! i) \<Longrightarrow> P x) \<Longrightarrow> list_all P (xs[i := x])"
  by (auto simp: list_all_length nth_upd)

subsection \<open>Queues\<close>

lemma tq_ok_new: "tq_ok L (TxQueue_new (TxQueueDepthPerClient L) limit (Some (replicate (TxQueueDepthPerClient L) x)))"
  by (simp add: tq_ok_def TxQueue_new_def)

lemma tq_ok_enqueue: "tq_ok L q \<Longrightarrow> tq_ok L (snd (tq_enqueue pd sz q))"
  by (auto simp: tq_ok_def tq_enqueue_def Let_def mod_Suc_eq)

lemma tq_ok_pop: "tq_ok L q \<Longrightarrow> tq_ok L (snd (tq_pop q))"
  by (auto simp: tq_ok_def tq_pop_def Let_def ring_tail_step)

lemma tq_ok_advance: "tq_ok L q \<Longrightarrow> tq_ok L (snd (tq_advance_offset n q))"
  by (auto simp: tq_ok_def tq_advance_offset_def Let_def)

lemma oq_ok_new: "oq_ok L (OfflineQueue_new (OfflineQueuePerClient L) (Some (replicate (OfflineQueuePerClient L) x)))"
  by (auto simp: oq_ok_def intro!: oq_inv_new) (simp add: OfflineQueue_new_def)

lemma oq_ok_enqueue:
  assumes "oq_ok L q" and "oq_enqueue pd q = (ok, q')"
  shows "oq_ok L q'"
proof (cases ok)
  case True
  with assms oq_enqueue_accept [of q pd q'] have "oq_inv q'" by (simp add: oq_ok_def)
  moreover have "oq_depth q' = oq_depth q"
    using assms(2) by (auto simp: oq_enqueue_def split: option.splits if_splits)
  ultimately show ?thesis using assms(1) by (simp add: oq_ok_def)
next
  case False
  with assms show ?thesis by (auto simp: oq_enqueue_def split: option.splits if_splits)
qed

lemma oq_ok_pop: "oq_ok L q \<Longrightarrow> oq_ok L (snd (oq_pop q))"
  using oq_pop_step [of q] by (auto simp: oq_ok_def oq_pop_def)

subsection \<open>In-flight tables\<close>

lemma ob_ok_new: "ob_ok L (SessionOutboundInflight_new (QosInflightPerClient L))"
  by (simp add: ob_ok_def ob_inv_new) (simp add: SessionOutboundInflight_new_def)

lemma ib_ok_new: "ib_ok L (SessionInboundQoS2_new (QosInflightPerClient L))"
  by (simp add: ib_ok_def ib_inv_new) (simp add: SessionInboundQoS2_new_def)

lemma ob_ok_insert:
  assumes "ob_ok L t" and "ob_insert k m tp q r ph t = (ok, t')"
  shows "ob_ok L t'"
proof (cases ok)
  case True
  with assms ob_put_effect [of t k "(m, tp, q, r, ph)" t'] show ?thesis by (simp add: ob_ok_def ob_put_def)
next
  case False
  with assms show ?thesis by (auto simp: ob_insert_def split: option.splits if_splits)
qed

lemma ob_ok_remove: "ob_ok L t \<Longrightarrow> ob_ok L (fst (snd (ob_remove k t ps)))"
  using ob_drop_effect [of t k] by (simp add: ob_ok_def ob_remove_drop)

lemma keyed_cong:
  assumes "keyed live key es" and "length es' = length es"
    and "\<And>i. i < length es \<Longrightarrow> live (es' ! i) \<Longrightarrow> live (es ! i) \<and> key (es' ! i) = key (es ! i)"
  shows "keyed live key es'"
  using assms by (simp add: keyed_def)

lemma ob_ok_clear: "ob_ok L t \<Longrightarrow> ob_ok L (reset_packet_ids (fst (ob_clear t ps)))"
  by (auto simp: ob_ok_def ob_inv_def ob_clear_def reset_packet_ids_def oi_zero_def elim!: keyed_cong split: if_splits)

lemma ob_ok_next_id: "ob_ok L t \<Longrightarrow> ob_ok L (snd (next_packet_id t))"
proof -
  have "ob_entries (snd (next_packet_id_loop n t)) = ob_entries t" for n
    by (induction n arbitrary: t) (simp_all add: Let_def)
  then show "ob_ok L t \<Longrightarrow> ob_ok L (snd (next_packet_id t))"
    by (simp add: ob_ok_def ob_inv_def next_packet_id_def)
qed

lemma ob_ok_phase:
  "ob_ok L t \<Longrightarrow> ob_ok L (t\<lparr>ob_entries := (ob_entries t)[i := (ob_entries t ! i)\<lparr>oi_qos2_phase := ph\<rparr>]\<rparr>)"
  by (auto simp: ob_ok_def ob_inv_def nth_upd elim!: keyed_cong split: if_splits)

lemma ib_ok_insert:
  assumes "ib_ok L t" and "ib_insert k tp m n r q d t = (e, t')"
  shows "ib_ok L t'"
proof (cases "fst (ib_put k (tp, m, n, r, q, d) t)")
  case True
  with assms ib_put_effect [of t k "(tp, m, n, r, q, d)" t'] show ?thesis
    by (auto simp: ib_ok_def ib_put_def split: prod.splits)
next
  case False
  with assms show ?thesis
    by (auto simp: ib_put_def ib_insert_def Let_def split: option.splits if_splits)
qed

lemma ib_ok_remove: "ib_ok L t \<Longrightarrow> ib_ok L (fst (snd (ib_remove k t mp)))"
  using ib_drop_effect [of t k] by (simp add: ib_ok_def ib_remove_drop)

lemma ib_ok_clear: "ib_ok L t \<Longrightarrow> ib_ok L (fst (ib_clear t mp))"
  by (auto simp: ib_ok_def ib_inv_def ib_clear_def ii_zero_def elim!: keyed_cong split: if_splits)

lemma ib_ok_pubrec: "ib_ok L t \<Longrightarrow> ib_ok L (t[i := (t ! i)\<lparr>ii_pubrec_sent := x\<rparr>])"
  by (auto simp: ib_ok_def ib_inv_def nth_upd elim!: keyed_cong split: if_splits)

subsection \<open>Retained messages\<close>

lemma retained_put_keeps:
  assumes "retained_put topic m rs (mp, ti) = (ok, rs', mp', ti')" and "mp_inv mp"
  shows "mp_inv mp'" and "length (rs_entries rs') = length (rs_entries rs)"
proof -
  have acq: "mp_inv (snd (msg_acquire h q))" "mp_inv (msg_release k q)" if "mp_inv q" for h k q
    using that mp_inv_acquire mp_inv_release by auto
  have "mp_inv (snd (msg_acquire m (msg_release k mp)))" "mp_inv (snd (msg_acquire m mp))"
    "mp_inv (msg_release m (snd (msg_acquire m mp)))" for k
    using acq assms(2) by auto
  then show "mp_inv mp'" and "length (rs_entries rs') = length (rs_entries rs)"
    using assms
    by (auto simp: retained_put_def retained_replace_def retained_insert_def Let_def
        split: if_splits option.splits prod.splits) (metis snd_conv)+
qed

lemma retained_remove_keeps:
  assumes "retained_remove topic rs (mp, ti) = (rs', mp', ti')" and "mp_inv mp"
  shows "mp_inv mp'" and "length (rs_entries rs') = length (rs_entries rs)"
  using assms mp_inv_release
  by (auto simp: retained_remove_def Let_def split: option.splits)

subsection \<open>The trie\<close>

lemma alloc_node_length: "length (tt_nodes (snd (alloc_node t))) = length (tt_nodes t)"
  "tt_subs (snd (alloc_node t)) = tt_subs t"
  by (simp_all add: alloc_node_def Let_def)

lemma find_or_add_child_length:
  assumes "find_or_add_child parent seg p h t = Some (c, t')"
  shows "length (tt_nodes t') = length (tt_nodes t)" "tt_subs t' = tt_subs t"
  using assms alloc_node_length [of t]
  by (auto simp: find_or_add_child_def add_child_def Let_def split: option.splits if_splits prod.splits)

lemma walk_filter_length:
  assumes "walk_filter cur node t = Some (r, t')"
  shows "length (tt_nodes t') = length (tt_nodes t) \<and> tt_subs t' = tt_subs t"
  using assms
proof (induction cur node t arbitrary: r t' rule: walk_filter.induct)
  case (1 cur node t)
  let ?plain = "hd cur \<noteq> c_plus \<and> hd cur \<noteq> c_hash"
  show ?case
  proof (cases "cur = [] \<or> ?plain \<and> segment_len cur \<ge> 256")
    case True
    with "1.prems" show ?thesis by (subst (asm) walk_filter.simps) (auto simp: Let_def split: if_splits)
  next
    case False
    let ?r = "find_or_add_child node (if ?plain then take (segment_len cur) cur else []) (hd cur = c_plus) (hd cur = c_hash) t"
    obtain c t1 where f: "?r = Some (c, t1)"
      using "1.prems" False by (subst (asm) walk_filter.simps) (auto simp: Let_def split: option.splits if_splits)
    note fl = find_or_add_child_length [OF f]
    let ?t2 = "t1\<lparr>tt_nodes := (tt_nodes t1)[unat c := (tt_nodes t1 ! unat c)\<lparr>nd_terminal := True\<rparr>]\<rparr>"
    have unf: "walk_filter cur node t = (if c = 0xFFFF then Some (None, t1)
        else case next_segment cur of None \<Rightarrow> Some (Some c, ?t2) | Some r \<Rightarrow> walk_filter r c ?t2)"
      using False f by (subst walk_filter.simps) (auto simp: Let_def)
    show ?thesis
    proof (cases "c = 0xFFFF \<or> next_segment cur = None")
      case True
      with "1.prems" unf fl show ?thesis by (auto split: if_splits)
    next
      case nx: False
      then obtain rest where rest: "next_segment cur = Some rest" by auto
      have "walk_filter rest c ?t2 = Some (r, t')" using "1.prems" unf nx rest by simp
      then have "length (tt_nodes t') = length (tt_nodes ?t2) \<and> tt_subs t' = tt_subs ?t2"
        by (rule "1.IH" [rotated -1]) (use False f nx rest in auto)
      with fl show ?thesis by simp
    qed
  qed
qed

lemma trie_subscribe_length:
  assumes "trie_subscribe flt sid q opts t = Some (r, t')"
  shows "length (tt_nodes t') = length (tt_nodes t)" "length (tt_subs t') = length (tt_subs t)"
  using assms walk_filter_length [of flt "tt_root t" t]
  by (auto simp: trie_subscribe_def Let_def split: if_splits option.splits)

lemma unlink_loop_length:
  "length (tt_nodes (unlink_loop n cur prev sl node t)) = length (tt_nodes t)
   \<and> length (tt_subs (unlink_loop n cur prev sl node t)) = length (tt_subs t)"
  by (induction n arbitrary: cur prev) (auto split: option.split)

lemma drop_sub_length:
  "length (tt_nodes (drop_sub i t)) = length (tt_nodes t)" "length (tt_subs (drop_sub i t)) = length (tt_subs t)"
  by (simp_all add: drop_sub_def unlink_sub_def Let_def unlink_loop_length)

lemma trie_unsubscribe_length:
  "length (tt_nodes (snd (trie_unsubscribe flt sid t))) = length (tt_nodes t)"
  "length (tt_subs (snd (trie_unsubscribe flt sid t))) = length (tt_subs t)"
  by (simp_all add: trie_unsubscribe_def drop_sub_length split: option.split)

lemma unsubscribe_all_length:
  "length (tt_nodes (unsubscribe_all sid t)) = length (tt_nodes t) \<and> length (tt_subs (unsubscribe_all sid t)) = length (tt_subs t)"
  unfolding unsubscribe_all_def by (rule fold_keeps) (auto simp: drop_sub_length)

section \<open>Steps that return\<close>

text \<open>A result has the property, when there is one; and the rules for the ways the model combines
  such results.\<close>

definition upholds :: "('a \<Rightarrow> bool) \<Rightarrow> 'a option \<Rightarrow> bool" where
  "upholds P r \<longleftrightarrow> (\<forall>x. r = Some x \<longrightarrow> P x)"

lemma upholds_simps [simp]: "upholds P None" "upholds P (Some x) = P x"
  by (simp_all add: upholds_def)

lemma upholds_map: "upholds Q r \<Longrightarrow> (\<And>x. Q x \<Longrightarrow> P (f x)) \<Longrightarrow> upholds P (map_option f r)"
  by (auto simp: upholds_def)

lemma upholds_bind: "upholds Q r \<Longrightarrow> (\<And>x. Q x \<Longrightarrow> upholds P (f x)) \<Longrightarrow> upholds P (r \<bind> f)"
  by (cases r) auto

lemma upholds_case:
  "upholds Q r \<Longrightarrow> (\<And>x. Q x \<Longrightarrow> upholds P (f x)) \<Longrightarrow> upholds P (case r of None \<Rightarrow> None | Some x \<Rightarrow> f x)"
  by (cases r) auto

lemma upholds_fold_opt_mem:
  "(\<And>x s. x \<in> set xs \<Longrightarrow> P s \<Longrightarrow> upholds P (f x s)) \<Longrightarrow> P s \<Longrightarrow> upholds P (fold_opt f xs s)"
proof (induction xs arbitrary: s)
  case (Cons x xs)
  have "upholds P (f x s)" by (rule Cons.prems(1)) (simp_all add: Cons.prems(2))
  then show ?case
    using Cons.IH [OF Cons.prems(1)] by (cases "f x s") simp_all
qed simp

lemma upholds_fold_opt:
  "(\<And>x s. P s \<Longrightarrow> upholds P (f x s)) \<Longrightarrow> P s \<Longrightarrow> upholds P (fold_opt f xs s)"
  by (rule upholds_fold_opt_mem)

section \<open>Primitive steps\<close>

named_theorems keeps
  \<comment> \<open>operations that keep the invariant\<close>

lemma broker_inv_new:
  assumes "0 < PayloadBlockSize L" and "PayloadBlockCount L \<le> 65535" and "PayloadSlotCount L \<le> 65535"
    and "PayloadBlockCount L * PayloadBlockSize L < 2 ^ 32" and "MaxTcpClients L \<le> 65535" and "MaxSubsTotal L \<le> 65535"
  shows "broker_inv L (Broker_new L)"
proof -
  have "length (tt_nodes (TopicTrie_new n m)) = n" "length (tt_subs (TopicTrie_new n m)) = m" for n m
    by (simp_all add: TopicTrie_new_def Let_def alloc_node_def)
  moreover have "parser_ok (PacketParser_new limits)" for limits
    by (simp add: parser_ok_def PacketParser_new_def parser_reset_def packet_ok_init)
  ultimately show ?thesis
    using assms
    by (simp add: broker_inv_def Broker_new_def Let_def mp_inv_new pp_inv_new conn_ok_def tq_ok_new oq_ok_new
        ob_ok_new ib_ok_new list_all_iff RetainedStore_new_def trie_new_wf)
qed

lemma broker_inv_trie: "broker_inv L b \<Longrightarrow> trie_wf (bk_topic_trie b)"
  by (simp add: broker_inv_def)

lemma broker_inv_limits: "broker_inv L b \<Longrightarrow> bk_limits b = L"
  by (simp add: broker_inv_def)

lemma keeps_other [simp]:
  "broker_inv L (b\<lparr>bk_topic_intern := ti\<rparr>) = broker_inv L b"
  "broker_inv L (b\<lparr>bk_metrics := m\<rparr>) = broker_inv L b"
  "broker_inv L (b\<lparr>bk_log := l\<rparr>) = broker_inv L b"
  "broker_inv L (b\<lparr>bk_current_tick := t\<rparr>) = broker_inv L b"
  "broker_inv L (b\<lparr>bk_global_logical_tx := g\<rparr>) = broker_inv L b"
  "broker_inv L (b\<lparr>bk_assign_serial := n\<rparr>) = broker_inv L b"
  "broker_inv L (b\<lparr>bk_policy := p\<rparr>) = broker_inv L b"
  "broker_inv L (b\<lparr>bk_auth := a\<rparr>) = broker_inv L b"
  "broker_inv L (bump f b) = broker_inv L b"
  "broker_inv L (upd_sess i g' b) = broker_inv L b"
  "broker_inv L (client_gone b) = broker_inv L b"
  "broker_inv L (release_topic th b) = broker_inv L b"
  by (simp_all add: broker_inv_def bump_def upd_sess_def client_gone_def release_topic_def)

lemma keeps_pool [keeps]:
  "broker_inv L b \<Longrightarrow> mp_inv mp \<Longrightarrow> broker_inv L (b\<lparr>bk_msg_pool := mp\<rparr>)"
  "broker_inv L b \<Longrightarrow> pp_inv pp \<Longrightarrow> broker_inv L (b\<lparr>bk_prop_pool := pp\<rparr>)"
  by (simp_all add: broker_inv_def)

lemma keeps_msg_pool: "broker_inv L b \<Longrightarrow> mp_inv (bk_msg_pool b)"
  by (simp add: broker_inv_def)

lemma keeps_conn:
  assumes "broker_inv L b" and "unat tid < MaxTcpClients L \<Longrightarrow> conn_ok L (conn b tid) \<Longrightarrow> conn_ok L (f (conn b tid))"
  shows "broker_inv L (upd_conn tid f b)"
  using assms by (auto simp: broker_inv_def upd_conn_def intro!: list_all_upd)

lemma conn_ok_at: "broker_inv L b \<Longrightarrow> unat tid < MaxTcpClients L \<Longrightarrow> conn_ok L (conn b tid)"
  by (simp add: broker_inv_def list_all_length)

lemma keeps_offline:
  assumes "broker_inv L b" and "i < MaxTcpClients L \<Longrightarrow> oq_ok L (bk_offline_queues b ! i) \<Longrightarrow> oq_ok L q"
  shows "broker_inv L (b\<lparr>bk_offline_queues := (bk_offline_queues b)[i := q]\<rparr>)"
  using assms by (auto simp: broker_inv_def intro!: list_all_upd)

lemma keeps_outbound:
  assumes "broker_inv L b" and "i < MaxTcpClients L \<Longrightarrow> ob_ok L (bk_outbound_inflight b ! i) \<Longrightarrow> ob_ok L t"
  shows "broker_inv L (b\<lparr>bk_outbound_inflight := (bk_outbound_inflight b)[i := t]\<rparr>)"
  using assms by (auto simp: broker_inv_def intro!: list_all_upd)

lemma keeps_inbound:
  assumes "broker_inv L b" and "i < MaxTcpClients L \<Longrightarrow> ib_ok L (bk_inbound_qos2 b ! i) \<Longrightarrow> ib_ok L t"
  shows "broker_inv L (b\<lparr>bk_inbound_qos2 := (bk_inbound_qos2 b)[i := t]\<rparr>)"
  using assms by (auto simp: broker_inv_def intro!: list_all_upd)

lemma keeps_trie:
  assumes "broker_inv L b" and "length (tt_nodes t) = length (tt_nodes (bk_topic_trie b))"
    and "length (tt_subs t) = length (tt_subs (bk_topic_trie b))" and "trie_wf t"
  shows "broker_inv L (b\<lparr>bk_topic_trie := t\<rparr>)"
  using assms by (simp add: broker_inv_def)

end
