(* ===== verification/Broker_Inv.thy ===== *)
theory Broker_Inv
  imports Broker_Tables
begin

text \<open>
  The invariant of \<open>Broker_Tables\<close> is kept by every function of \<open>broker.cpp\<close>, and so by every
  sequence of platform calls. Functions that can close a connection keep it when the function
  \<open>d\<close> that they call for that does.
\<close>

section \<open>Functions that never close a connection\<close>

lemmas pool_keeps = mp_inv_acquire mp_inv_release mp_inv_set_props mp_inv_set_expiry

lemma keeps_refs [keeps]:
  assumes "broker_inv L b"
  shows "broker_inv L (drop_refs m t b)" and "broker_inv L (release_msg m b)"
    and "broker_inv L (release_if_valid m b)" and "broker_inv L (release_will i b)"
proof -
  have mp: "mp_inv (msg_release h (bk_msg_pool b))" for h
    using assms by (intro mp_inv_release) (simp add: broker_inv_def)
  show "broker_inv L (drop_refs m t b)" "broker_inv L (release_msg m b)"
    using assms mp by (simp_all add: drop_refs_def release_msg_def keeps_pool)
  show r: "broker_inv L (release_if_valid m b)" for m
    using assms mp by (simp add: release_if_valid_def release_msg_def keeps_pool)
  show "broker_inv L (release_will i b)"
    using assms r by (simp add: release_will_def)
qed

lemma oi_release_inv: "mp_inv (fst ps) \<Longrightarrow> mp_inv (fst (oi_release e ps))"
  by (simp add: oi_release_def mp_inv_release)

lemma ii_release_inv: "mp_inv mp \<Longrightarrow> mp_inv (ii_release e mp)"
  by (simp add: ii_release_def mp_inv_release)

lemma keeps_qos_state [keeps]:
  assumes "broker_inv L b" shows "broker_inv L (clear_session_qos_state i b)"
proof -
  obtain ob mp ti where o: "ob_clear (bk_outbound_inflight b ! i) (bk_msg_pool b, bk_topic_intern b) = (ob, mp, ti)"
    by (rule prod_cases3)
  obtain ib mp1 where n: "ib_clear (bk_inbound_qos2 b ! i) mp = (ib, mp1)" by (rule prod.exhaust)
  have "mp_inv (fst (fold oi_release xs (bk_msg_pool b, bk_topic_intern b)))" for xs
    by (rule fold_keeps [where P = "\<lambda>ps. mp_inv (fst ps)"])
      (simp_all add: oi_release_inv keeps_msg_pool [OF assms])
  from this [of "filter oi_in_use (ob_entries (bk_outbound_inflight b ! i))"] have mp: "mp_inv mp"
    using o by (simp add: ob_clear_def)
  have "mp_inv (fold ii_release xs mp)" for xs
    by (rule fold_keeps) (simp_all add: ii_release_inv mp)
  then have mp1: "mp_inv mp1" using n by (auto simp: ib_clear_def)
  have "broker_inv L (b\<lparr>bk_outbound_inflight := (bk_outbound_inflight b)[i := reset_packet_ids ob]\<rparr>)"
    by (rule keeps_outbound [OF assms]) (use o ob_ok_clear in \<open>metis fst_conv\<close>)
  moreover have "ib_ok L (bk_inbound_qos2 b ! i) \<Longrightarrow> ib_ok L ib"
    using n ib_ok_clear [of L "bk_inbound_qos2 b ! i" mp] by simp
  ultimately have "broker_inv L (b\<lparr>bk_outbound_inflight := (bk_outbound_inflight b)[i := reset_packet_ids ob],
      bk_inbound_qos2 := (bk_inbound_qos2 b)[i := ib]\<rparr>)"
    using keeps_inbound [of L "b\<lparr>bk_outbound_inflight := (bk_outbound_inflight b)[i := reset_packet_ids ob]\<rparr>" i ib]
    by simp
  with mp1 assms o n show ?thesis
    by (simp add: clear_session_qos_state_def) (simp add: broker_inv_def)
qed

lemma keeps_offline_pop:
  "broker_inv L b \<Longrightarrow> broker_inv L (b\<lparr>bk_offline_queues := (bk_offline_queues b)[i := snd (oq_pop (bk_offline_queues b ! i))]\<rparr>)"
  by (rule keeps_offline) (simp_all add: oq_ok_pop)

lemma keeps_drain_offline [keeps]: "broker_inv L b \<Longrightarrow> broker_inv L (drain_offline n i b)"
  by (induction n arbitrary: b) (auto simp: Let_def keeps_offline_pop keeps split: option.split)

lemma keeps_session_state [keeps]: "broker_inv L b \<Longrightarrow> broker_inv L (clear_session_state i subs b)"
proof -
  assume inv: "broker_inv L b"
  then have "broker_inv L (b\<lparr>bk_topic_trie := unsubscribe_all (of_nat i) (bk_topic_trie b)\<rparr>)"
    by (intro keeps_trie) (simp_all add: unsubscribe_all_length unsubscribe_all_table(1) [OF broker_inv_trie])
  with inv show ?thesis by (simp add: clear_session_state_def Let_def keeps)
qed

lemma keeps_write [keeps]:
  "broker_inv L b \<Longrightarrow> broker_inv L (snd (call_write tid data b))"
  "broker_inv L b \<Longrightarrow> broker_inv L (send_disconnect tid reason b)"
  "broker_inv L b \<Longrightarrow> broker_inv L (snd (write_bytes tid data b))"
  "broker_inv L b \<Longrightarrow> broker_inv L (snd (send_ack enc tid pid reason b))"
proof -
  show w: "broker_inv L b \<Longrightarrow> broker_inv L (snd (call_write tid data b))" for b tid data
    by (simp add: call_write_def Let_def split: option.split)
  then show "broker_inv L b \<Longrightarrow> broker_inv L (send_disconnect tid reason b)"
    by (simp add: send_disconnect_def Let_def)
  show wb: "broker_inv L b \<Longrightarrow> broker_inv L (snd (write_bytes tid data b))" for data
    using w [of b tid data] by (auto simp: write_bytes_def split: prod.split option.split)
  show "broker_inv L b \<Longrightarrow> broker_inv L (snd (send_ack enc tid pid reason b))"
    using wb by (simp add: send_ack_def Let_def)
qed

lemmas send_defs = send_puback_def send_pubrec_def send_pubrel_def send_pubcomp_def

lemma keeps_close [keeps]: "broker_inv L b \<Longrightarrow> broker_inv L (close_transport tid b)"
  by (auto simp: close_transport_def Let_def intro!: keeps_conn) (simp add: conn_ok_def)

lemma keeps_attach [keeps]: "broker_inv L b \<Longrightarrow> broker_inv L (snd (attach_transport t b))"
  by (auto simp: attach_transport_def intro!: keeps_conn split: option.split)
    (simp add: conn_ok_def parser_ok_def parser_reset_def reset_protocol_level_def packet_ok_init)

lemma keeps_touch [keeps]: "broker_inv L b \<Longrightarrow> broker_inv L (touch_keepalive tid now b)"
  by (simp add: touch_keepalive_def split: option.split)

subsection \<open>Deliveries\<close>

lemma keeps_release_outbound [keeps]: "broker_inv L b \<Longrightarrow> broker_inv L (release_outbound_inflight i pid b)"
proof -
  assume inv: "broker_inv L b"
  obtain ok ob mp ti where r: "ob_remove pid (bk_outbound_inflight b ! i) (bk_msg_pool b, bk_topic_intern b) = (ok, ob, mp, ti)"
    by (metis prod_cases4)
  have "mp_inv mp"
    using r keeps_msg_pool [OF inv] oi_release_inv [of "(bk_msg_pool b, bk_topic_intern b)"]
    by (auto simp: ob_remove_def split: option.splits) (metis fst_conv)
  moreover have "broker_inv L (b\<lparr>bk_outbound_inflight := (bk_outbound_inflight b)[i := ob]\<rparr>)"
    using r ob_ok_remove [of L "bk_outbound_inflight b ! i" pid "(bk_msg_pool b, bk_topic_intern b)"]
    by (intro keeps_outbound [OF inv]) simp
  ultimately show ?thesis
    using r inv by (simp add: release_outbound_inflight_def) (simp add: broker_inv_def)
qed

lemma keeps_complete [keeps]: "broker_inv L b \<Longrightarrow> broker_inv L (snd (complete_tx_delivery tid pd b))"
proof -
  assume inv: "broker_inv L b"
  have "broker_inv L (b\<lparr>bk_outbound_inflight := (bk_outbound_inflight b)[k := t]\<rparr>)"
    if "ob_insert pid m tp q r ph (bk_outbound_inflight b ! k) = (ok, t)" for k pid m tp q r ph ok t
    by (rule keeps_outbound [OF inv]) (rule ob_ok_insert [OF _ that])
  with inv show ?thesis
    by (auto simp: complete_tx_delivery_def Let_def keeps split: option.split prod.split)
qed

lemma keeps_metadata [keeps]: "broker_inv L b \<Longrightarrow> broker_inv L (attach_publish_metadata m props t b)"
proof -
  assume inv: "broker_inv L b"
  have "mp_inv (snd (set_props m buf (bk_msg_pool b)))" for buf
    by (rule mp_inv_set_props) (rule keeps_msg_pool [OF inv])
  with inv keeps_msg_pool [OF inv] show ?thesis
    by (auto simp: attach_publish_metadata_def Let_def intro!: keeps_pool mp_inv_set_expiry split: prod.split)
qed

lemma acquired_inv: "broker_inv L b \<Longrightarrow> msg_acquire m (bk_msg_pool b) = (ok, mp) \<Longrightarrow> mp_inv mp"
  using mp_inv_acquire [OF keeps_msg_pool, of L b m] by simp

lemma keeps_acquired:
  "broker_inv L b \<Longrightarrow> msg_acquire m (bk_msg_pool b) = (ok, mp) \<Longrightarrow> broker_inv L (b\<lparr>bk_msg_pool := mp\<rparr>)"
  using acquired_inv keeps_pool(1) by blast

lemma keeps_enqueue_offline [keeps]: "broker_inv L b \<Longrightarrow> broker_inv L (snd (enqueue_offline i pd b))"
proof -
  assume inv: "broker_inv L b"
  obtain ok mp where a: "msg_acquire (pd_message pd) (bk_msg_pool b) = (ok, mp)" by (rule prod.exhaust)
  obtain ok2 ti where t: "topic_acquire (pd_topic pd) (bk_topic_intern b) = (ok2, ti)" by (rule prod.exhaust)
  obtain ok3 q where e: "oq_enqueue pd (bk_offline_queues b ! i) = (ok3, q)" by (rule prod.exhaust)
  let ?b1 = "b\<lparr>bk_msg_pool := mp, bk_topic_intern := ti\<rparr>"
  have mp: "mp_inv mp" by (rule acquired_inv [OF inv a])
  then have b1: "broker_inv L ?b1" and "broker_inv L (b\<lparr>bk_msg_pool := msg_release (pd_message pd) mp, bk_topic_intern := ti\<rparr>)"
    using inv by (simp_all add: keeps_pool mp_inv_release)
  moreover have "broker_inv L (?b1\<lparr>bk_offline_queues := (bk_offline_queues ?b1)[i := q]\<rparr>)"
    by (rule keeps_offline [OF b1]) (use e oq_ok_enqueue in simp)
  ultimately show ?thesis
    using inv a t e mp by (auto simp: enqueue_offline_def Let_def keeps split: bool.split)
qed

lemma keeps_conn_tx:
  assumes "broker_inv L b" and "unat tid < MaxTcpClients L \<Longrightarrow> tq_ok L (cn_tx (conn b tid)) \<Longrightarrow> tq_ok L tx"
  shows "broker_inv L (upd_conn tid (\<lambda>c. c\<lparr>cn_tx := tx\<rparr>) b)"
  using assms by (intro keeps_conn) (simp_all add: conn_ok_def)

lemma keeps_enqueue_tx:
  assumes "broker_inv L b" and "tq_enqueue pd n (cn_tx (conn b tid)) = (ok, tx)"
  shows "broker_inv L (upd_conn tid (\<lambda>c. c\<lparr>cn_tx := tx\<rparr>) b)"
  using assms(2) tq_ok_enqueue [of L "cn_tx (conn b tid)" pd n] by (intro keeps_conn_tx [OF assms(1)]) simp

lemma keeps_retransmit [keeps]: "broker_inv L b \<Longrightarrow> broker_inv L (snd (enqueue_retransmit tid e b))"
proof -
  assume inv: "broker_inv L b"
  obtain ok mp where a: "msg_acquire (oi_message e) (bk_msg_pool b) = (ok, mp)" by (rule prod.exhaust)
  obtain ok2 ti where t: "topic_acquire (oi_topic e) (bk_topic_intern b) = (ok2, ti)" by (rule prod.exhaust)
  let ?b1 = "b\<lparr>bk_msg_pool := mp, bk_topic_intern := ti\<rparr>"
  have mp: "mp_inv mp" by (rule acquired_inv [OF inv a])
  then have b1: "broker_inv L ?b1" and "broker_inv L (b\<lparr>bk_msg_pool := msg_release (oi_message e) mp, bk_topic_intern := ti\<rparr>)"
    using inv by (simp_all add: keeps_pool mp_inv_release)
  moreover have "broker_inv L (upd_conn tid (\<lambda>c. c\<lparr>cn_tx := tx\<rparr>) (?b1\<lparr>bk_global_logical_tx := g\<rparr>))"
    if "tq_enqueue pd n (cn_tx (conn b tid)) = (ok3, tx)" for pd n ok3 tx g
    by (rule keeps_enqueue_tx) (use b1 that in simp_all)
  ultimately show ?thesis
    using inv a t mp by (auto simp: enqueue_retransmit_def Let_def keeps split: bool.split prod.split)
qed

lemma keeps_retransmit_session [keeps]: "broker_inv L b \<Longrightarrow> broker_inv L (retransmit_session_inflight tid i b)"
proof -
  assume inv: "broker_inv L b"
  then have "broker_inv L (fold (\<lambda>k b. case ob_entry_at (bk_outbound_inflight b ! i) k of None \<Rightarrow> b
      | Some e \<Rightarrow> if \<not> oi_in_use e then b
          else if oi_delivery_qos e = 2 \<and> oi_qos2_phase e = AwaitingPubcomp
          then snd (send_pubrel tid (oi_packet_id e) Success b) else snd (enqueue_retransmit tid e b)) xs b)" for xs
    by (rule fold_keeps [where P = "broker_inv L", rotated]) (auto simp: keeps send_defs split: option.split)
  with inv show ?thesis by (simp add: retransmit_session_inflight_def)
qed

lemma keeps_drop_retained [keeps]: "broker_inv L b \<Longrightarrow> broker_inv L (drop_retained th b)"
proof -
  assume inv: "broker_inv L b"
  obtain rs mp ti where r: "retained_remove th (bk_retained b) (bk_msg_pool b, bk_topic_intern b) = (rs, mp, ti)"
    by (rule prod_cases3)
  from retained_remove_keeps [OF this keeps_msg_pool [OF inv]] inv show ?thesis
    by (simp add: drop_retained_def r) (simp add: broker_inv_def)
qed

lemma keeps_sweep [keeps]: "broker_inv L b \<Longrightarrow> broker_inv L (sweep_expired_retained b)"
  unfolding sweep_expired_retained_def by (rule fold_keeps) (auto simp: keeps split: option.split)

section \<open>Functions that can close a connection\<close>

definition safe :: "BrokerLimits \<Rightarrow> disconnector \<Rightarrow> bool" where
  "safe L d \<longleftrightarrow> (\<forall>tid slow b. broker_inv L b \<longrightarrow> upholds (broker_inv L) (d tid slow b))"

lemma safeD: "safe L d \<Longrightarrow> broker_inv L b \<Longrightarrow> upholds (broker_inv L) (d tid slow b)"
  by (simp add: safe_def)

text \<open>The result of a function that also returns a value.\<close>

abbreviation inv_snd :: "BrokerLimits \<Rightarrow> 'a \<times> Broker \<Rightarrow> bool" where
  "inv_snd L \<equiv> \<lambda>r. broker_inv L (snd r)"

lemma upholds_pair: "upholds (broker_inv L) r \<Longrightarrow> upholds (inv_snd L) (map_option (Pair x) r)"
  by (rule upholds_map) simp_all

lemma upholds_if: "(c \<Longrightarrow> upholds P x) \<Longrightarrow> (\<not> c \<Longrightarrow> upholds P y) \<Longrightarrow> upholds P (if c then x else y)"
  by simp

lemma upholds_snd: "upholds (inv_snd L) r \<Longrightarrow> upholds (broker_inv L) (map_option snd r)"
  by (rule upholds_map) simp_all

lemma keeps_pop_tx [keeps]: "broker_inv L b \<Longrightarrow> broker_inv L (pop_tx tid b)"
proof -
  assume inv: "broker_inv L b"
  obtain r tx where p: "tq_pop (cn_tx (conn b tid)) = (r, tx)" by (rule prod.exhaust)
  have "broker_inv L (upd_conn tid (\<lambda>c. c\<lparr>cn_tx := tx\<rparr>) b)"
    using p tq_ok_pop [of L "cn_tx (conn b tid)"] by (intro keeps_conn_tx [OF inv]) simp
  then show ?thesis by (simp add: pop_tx_def p Let_def)
qed

lemma keeps_purge [keeps]:
  "broker_inv L b \<Longrightarrow> broker_inv L (purge_loop n tid b)" "broker_inv L b \<Longrightarrow> broker_inv L (purge_tx_queue tid b)"
proof -
  show p: "broker_inv L b \<Longrightarrow> broker_inv L (purge_loop n tid b)" for n b
    by (induction n arbitrary: b) (auto simp: keeps split: option.split)
  then show "broker_inv L b \<Longrightarrow> broker_inv L (purge_tx_queue tid b)"
    by (simp add: purge_tx_queue_def)
qed

lemma drain_loop_inv: "safe L d \<Longrightarrow> broker_inv L b \<Longrightarrow> upholds (broker_inv L) (drain_loop d n tid b)"
proof (induction n arbitrary: b)
  case (Suc n)
  have adv: "broker_inv L (upd_conn tid (\<lambda>c. c\<lparr>cn_tx := snd (tq_advance_offset k (cn_tx c))\<rparr>) b1)"
    if "broker_inv L b1" for k b1
    using that by (intro keeps_conn) (simp_all add: conn_ok_def tq_ok_advance)
  have w: "broker_inv L b1" if "call_write tid out b = (r, b1)" for out r b1
    using keeps_write(1) [OF Suc.prems(2), of tid out] that by simp
  show ?case
    using Suc.prems Suc.IH [OF Suc.prems(1)] adv
    by (auto simp: Let_def keeps safeD dest!: w split: option.split prod.split)
qed simp

lemma drain_tx_inv: "safe L d \<Longrightarrow> broker_inv L b \<Longrightarrow> upholds (broker_inv L) (drain_tx d tid b)"
  by (simp add: drain_tx_def drain_loop_inv)

lemma drain_attempts_inv: "safe L d \<Longrightarrow> broker_inv L b \<Longrightarrow> upholds (inv_snd L) (drain_attempts d n tid est b)"
proof (induction n arbitrary: b)
  case (Suc n)
  then show ?case
    using drain_tx_inv [OF Suc.prems, of tid]
    by (cases "drain_tx d tid b") auto
qed simp

lemma queue_delivery_inv:
  assumes d: "safe L d" and inv: "broker_inv L b"
  shows "upholds (inv_snd L) (queue_delivery d tid topic m pid qos retain est b)"
proof -
  obtain th ti where i: "intern (deref b topic) (bk_topic_intern b) = (th, ti)" by (rule prod.exhaust)
  obtain ok mp where a: "msg_acquire m (bk_msg_pool b) = (ok, mp)" by (rule prod.exhaust)
  let ?b2 = "b\<lparr>bk_topic_intern := ti, bk_msg_pool := mp\<rparr>"
  have b2: "broker_inv L ?b2" using acquired_inv [OF inv a] inv by (simp add: keeps_pool)
  have tx: "broker_inv L (upd_conn tid (\<lambda>c. c\<lparr>cn_tx := tx\<rparr>) ?b2)"
    if "tq_enqueue pd n (cn_tx (conn b tid)) = (k, tx)" for pd n k tx
    by (rule keeps_enqueue_tx [OF b2]) (use that in simp)
  show ?thesis
    using inv b2 tx i a
    by (auto simp: queue_delivery_def Let_def keeps intro!: upholds_pair safeD [OF d] split: bool.split prod.split)
qed

lemma delivery_packet_id_inv: "broker_inv L b \<Longrightarrow> broker_inv L (snd (delivery_packet_id i qos b))"
proof -
  assume inv: "broker_inv L b"
  have "broker_inv L (b\<lparr>bk_outbound_inflight := (bk_outbound_inflight b)[k := t]\<rparr>)"
    if "next_packet_id (bk_outbound_inflight b ! k) = (pid, t)" for k pid t
    using that ob_ok_next_id [of L "bk_outbound_inflight b ! k"] by (intro keeps_outbound [OF inv]) simp
  with inv show ?thesis
    by (auto simp: delivery_packet_id_def Let_def split: prod.split)
qed

lemma enqueue_delivery_inv:
  assumes d: "safe L d" and inv: "broker_inv L b"
  shows "upholds (inv_snd L) (enqueue_delivery d tid session topic m len qos retain b)"
proof -
  have p: "broker_inv L b1" if "delivery_packet_id i q b = (r, b1)" for i q r b1
    using delivery_packet_id_inv [OF inv, of i q] that by simp
  show ?thesis
    using inv
    by (auto simp: enqueue_delivery_def Let_def dest!: p
        intro!: upholds_pair safeD [OF d] upholds_bind [OF drain_attempts_inv [OF d]] queue_delivery_inv [OF d]
        split: option.split prod.split)
qed

subsection \<open>Routing\<close>

lemma keeps_route_retain [keeps]: "broker_inv L b \<Longrightarrow> broker_inv L (route_retain th retain m len b)"
proof -
  assume inv: "broker_inv L b"
  obtain ok rs mp ti where r: "retained_put th m (bk_retained b) (bk_msg_pool b, bk_topic_intern b) = (ok, rs, mp, ti)"
    by (metis prod_cases4)
  note rk = retained_put_keeps [OF r keeps_msg_pool [OF inv]]
  then have "broker_inv L (b\<lparr>bk_retained := rs, bk_msg_pool := mp, bk_topic_intern := ti\<rparr>)"
    using inv by (simp add: broker_inv_def)
  with inv show ?thesis by (simp add: route_retain_def r Let_def keeps)
qed

lemma keeps_route_offline [keeps]: "broker_inv L b \<Longrightarrow> broker_inv L (route_offline sid topic m qos retain b)"
proof -
  assume inv: "broker_inv L b"
  obtain th ti where i: "intern (deref b topic) (bk_topic_intern b) = (th, ti)" by (rule prod.exhaust)
  obtain ok mp where a: "msg_acquire m (bk_msg_pool b) = (ok, mp)" by (rule prod.exhaust)
  have b2: "broker_inv L (b\<lparr>bk_topic_intern := ti, bk_msg_pool := mp\<rparr>)"
    using acquired_inv [OF inv a] inv by (simp add: keeps_pool)
  have "broker_inv L b3" if "enqueue_offline k pd (b\<lparr>bk_topic_intern := ti, bk_msg_pool := mp\<rparr>) = (r, b3)" for k pd r b3
    using keeps_enqueue_offline [OF b2, of k pd] that by simp
  with inv b2 show ?thesis
    by (auto simp: route_offline_def i a Let_def keeps split: bool.split prod.split)
qed

lemma route_to_session_inv:
  "safe L d \<Longrightarrow> broker_inv L b \<Longrightarrow> upholds (broker_inv L) (route_to_session d pub topic q r m len ms sid b)"
  by (auto simp: route_to_session_def Let_def keeps intro!: upholds_snd enqueue_delivery_inv split: option.split)

lemma route_publish_inv:
  assumes d: "safe L d" and inv: "broker_inv L b"
  shows "upholds (broker_inv L) (route_publish d pub topic q r m len b)"
proof -
  obtain th ti where i: "intern (deref b topic) (bk_topic_intern b) = (th, ti)" by (rule prod.exhaust)
  have f: "upholds (broker_inv L) (map_option (release_topic th) (fold_opt (route_to_session d p topic q r m len ms) sids b2))"
    if "broker_inv L b2" for p ms sids b2
    by (rule upholds_map [OF upholds_fold_opt [OF route_to_session_inv [OF d] that]]) simp_all
  show ?thesis
    using inv by (auto simp: route_publish_def i Let_def keeps intro!: f split: option.split)
qed

subsection \<open>Wills and the end of a session\<close>

lemma publish_stored_will_inv:
  assumes d: "safe L d" and inv: "broker_inv L b"
  shows "upholds (broker_inv L) (publish_stored_will d i b)"
proof -
  have "broker_inv L (b\<lparr>bk_msg_pool := set_expiry m e t (bk_msg_pool b)\<rparr>)" for m e t
    by (intro keeps_pool inv mp_inv_set_expiry keeps_msg_pool [OF inv])
  with inv show ?thesis
    by (auto simp: publish_stored_will_def Let_def intro!: upholds_map [OF route_publish_inv [OF d]])
qed

lemma end_session_inv:
  assumes d: "safe L d" and inv: "broker_inv L b"
  shows "upholds (broker_inv L) (end_session d i w b)"
proof -
  have "upholds (broker_inv L) (if w \<and> \<not> sn_suppress_will (sess b i) then publish_stored_will d i b else Some b)"
    using publish_stored_will_inv [OF d inv] inv by simp
  with inv show ?thesis
    by (auto simp: end_session_def keeps intro!: upholds_map)
qed

lemma begin_offline_session_inv:
  "safe L d \<Longrightarrow> broker_inv L b \<Longrightarrow> upholds (broker_inv L) (begin_offline_session d i o' b)"
  by (simp add: begin_offline_session_def Let_def end_session_inv)

lemma tick_offline_session_inv:
  assumes d: "safe L d" and inv: "broker_inv L b"
  shows "upholds (broker_inv L) (tick_offline_session d i b)"
proof -
  have "upholds (broker_inv L) (let t = sn_will_fire_deadline_tick (sess b i) in
      if t \<noteq> SESSION_TICK_NONE \<and> bk_current_tick b \<ge> t
      then map_option (\<lambda>b. upd_sess i (\<lambda>s. s\<lparr>sn_will_fire_deadline_tick := SESSION_TICK_NONE\<rparr>)
             (release_will i b)) (publish_stored_will d i b)
      else Some b)"
    using inv by (auto simp: Let_def keeps intro!: upholds_map [OF publish_stored_will_inv [OF d inv]])
  then show ?thesis
    unfolding tick_offline_session_def
    using inv by (auto intro!: upholds_bind simp: Let_def end_session_inv [OF d])
qed

lemma tick_offline_sessions_inv:
  "safe L d \<Longrightarrow> broker_inv L b \<Longrightarrow> upholds (broker_inv L) (tick_offline_sessions d b)"
  unfolding tick_offline_sessions_def by (rule upholds_fold_opt) (simp_all add: tick_offline_session_inv)

subsection \<open>Closing a connection\<close>

lemma drop_session_inv:
  "safe L d \<Longrightarrow> broker_inv L b \<Longrightarrow> upholds (broker_inv L) (drop_session d slow i b)"
  by (auto simp: drop_session_def intro!: upholds_map [OF begin_offline_session_inv])

lemma keeps_conn_flags [keeps]:
  "broker_inv L b \<Longrightarrow> broker_inv L (upd_conn tid (\<lambda>c. c\<lparr>cn_session := s\<rparr>) b)"
  "broker_inv L b \<Longrightarrow> broker_inv L (upd_conn tid (\<lambda>c. c\<lparr>cn_in_use := u\<rparr>) b)"
  "broker_inv L b \<Longrightarrow> broker_inv L (upd_conn tid (\<lambda>c. c\<lparr>cn_in_use := u, cn_session := s\<rparr>) b)"
  "broker_inv L b \<Longrightarrow> broker_inv L (upd_conn tid (\<lambda>c. c\<lparr>cn_session := s, cn_in_use := u\<rparr>) b)"
  "broker_inv L b \<Longrightarrow> broker_inv L (upd_conn tid (\<lambda>c. c\<lparr>cn_in_use := u, cn_transport := t c\<rparr>) b)"
  "broker_inv L b \<Longrightarrow> broker_inv L (upd_conn tid (\<lambda>c. c\<lparr>cn_protocol_level := l\<rparr>) b)"
  by (rule keeps_conn; simp add: conn_ok_def)+

lemma disconnect_body_inv: "safe L d \<Longrightarrow> safe L (disconnect_body d)"
proof -
  assume d: "safe L d"
  have idle: "upholds (broker_inv L) (disconnect_idle d tid slow b)" if "broker_inv L b" for tid slow b
    unfolding disconnect_idle_def
    by (rule upholds_map [OF upholds_fold_opt [where P = "broker_inv L"]]) (use that in \<open>auto simp: drop_session_inv [OF d]\<close>)
  have "upholds (broker_inv L) (disconnect_body d tid slow b)" if inv: "broker_inv L b" for tid slow b
  proof -
    let ?b1 = "purge_tx_queue tid b"
    have "upholds (broker_inv L) (case session_record ?b1 (cn_session (conn ?b1 tid)) of None \<Rightarrow> Some ?b1
        | Some i \<Rightarrow> if sn_state (sess ?b1 i) = Connected then drop_session d slow i ?b1 else Some ?b1)"
      using inv by (auto simp: keeps drop_session_inv [OF d] split: option.split)
    then show ?thesis
      using inv by (auto simp: disconnect_body_def Let_def idle keeps intro!: upholds_bind)
  qed
  then show ?thesis by (simp add: safe_def)
qed

lemma disconnect_transport_safe: "safe L (disconnect_transport n)"
proof (induction n)
  case 0
  show ?case by (simp add: safe_def)
qed (simp add: disconnect_body_inv)

lemma detach_transport_inv:
  "safe L d \<Longrightarrow> broker_inv L b \<Longrightarrow> upholds (broker_inv L) (detach_transport d tid b)"
  by (auto simp: detach_transport_def keeps intro!: upholds_map [OF safeD])

section \<open>The handlers\<close>

lemma send_connack_inv:
  assumes d: "safe L d" and inv: "broker_inv L b"
  shows "upholds (broker_inv L) (send_connack d tid reason sp cid ka b)"
proof -
  have w: "broker_inv L b1" if "call_write tid out b = (r, b1)" for out r b1
    using keeps_write(1) [OF inv, of tid out] that by simp
  show ?thesis
    using inv by (auto simp: send_connack_def Let_def safeD [OF d] dest!: w split: option.split prod.split)
qed

lemma reject_connect_inv:
  assumes d: "safe L d" and inv: "broker_inv L b"
  shows "upholds (broker_inv L) (reject_connect d tid reason b)"
  unfolding reject_connect_def
  by (rule upholds_map [OF send_connack_inv [OF d]]) (use inv in \<open>auto simp: keeps\<close>)

lemma take_over_inv:
  assumes d: "safe L d" and inv: "broker_inv L b"
  shows "upholds (broker_inv L) (take_over d i old resume b)"
proof -
  have "upholds (broker_inv L) (map_option (release_will i) (publish_stored_will d i b))"
    by (rule upholds_map [OF publish_stored_will_inv [OF d inv]]) (simp add: keeps)
  with inv have "upholds (broker_inv L) (if c then map_option (release_will i) (publish_stored_will d i b) else Some b)" for c
    by simp
  then show ?thesis
    unfolding take_over_def Let_def by (rule upholds_map) (simp add: keeps)
qed

lemma keeps_store_will [keeps]: "broker_inv L b \<Longrightarrow> broker_inv L (store_will i pkt b)"
  by (simp add: store_will_def Let_def keeps)

lemma flush_loop_inv: "safe L d \<Longrightarrow> broker_inv L b \<Longrightarrow> upholds (broker_inv L) (flush_loop d n tid s b)"
proof (induction n arbitrary: b)
  case (Suc n)
  note ih = Suc.IH [OF Suc.prems(1)]
  have e: "upholds (inv_snd L) (enqueue_delivery d tid s t m len q r b)" for t m len q r
    by (rule enqueue_delivery_inv [OF Suc.prems])
  let ?pop = "\<lambda>b. b\<lparr>bk_offline_queues := (bk_offline_queues b)[unat (slot s) := snd (oq_pop (bk_offline_queues b ! unat (slot s)))]\<rparr>"
  have "upholds (broker_inv L) (case enqueue_delivery d tid s t m len q r b of None \<Rightarrow> None
      | Some (ok, b1) \<Rightarrow> if \<not> ok then Some b1 else flush_loop d n tid s (?pop b1))" for t m len q r
    by (rule upholds_case [OF e]) (auto simp: ih keeps_offline_pop)
  then show ?case
    using Suc.prems(2) by (auto simp: Let_def keeps keeps_offline_pop ih split: option.split)
qed simp

lemma flush_offline_queue_inv:
  "safe L d \<Longrightarrow> broker_inv L b \<Longrightarrow> upholds (broker_inv L) (flush_offline_queue d tid s b)"
  by (simp add: flush_offline_queue_def flush_loop_inv)

lemma accept_connect_inv:
  assumes d: "safe L d" and inv: "broker_inv L b"
  shows "upholds (broker_inv L) (accept_connect d tid i cid assigned pkt b)"
  unfolding accept_connect_def Let_def
  by (rule upholds_bind [OF send_connack_inv [OF d]])
    (use inv in \<open>auto simp: keeps flush_offline_queue_inv [OF d]\<close>)

lemma effective_client_id_inv: "broker_inv L b \<Longrightarrow> broker_inv L (snd (effective_client_id pkt b))"
  by (simp add: effective_client_id_def Let_def split: option.split)

lemma handle_connect_inv:
  assumes d: "safe L d" and inv: "broker_inv L b"
  shows "upholds (broker_inv L) (handle_connect d tid pkt b)"
proof -
  define b0 where "b0 = (if unat tid < max_clients b then upd_conn tid (\<lambda>c. c\<lparr>cn_protocol_level := pk_protocol_level pkt\<rparr>) b else b)"
  have b0: "broker_inv L b0" using inv by (simp add: b0_def keeps)
  obtain r b1 where e: "effective_client_id pkt b0 = (r, b1)" by (rule prod.exhaust)
  have b1: "broker_inv L b1" using effective_client_id_inv [OF b0, of pkt] e by simp
  have rej: "upholds (broker_inv L) (reject_connect d tid reason (release_if_valid m b2))" if "broker_inv L b2" for reason m b2
    using that by (intro reject_connect_inv [OF d]) (simp add: keeps)
  have acc: "upholds (broker_inv L) ((if c then take_over d i old res b1 else Some b1)
      \<bind> accept_connect d tid i cid assigned pkt)" for c i old res cid assigned
    by (rule upholds_bind [where Q = "broker_inv L"])
      (use b1 take_over_inv [OF d] accept_connect_inv [OF d] in auto)
  have tgt: "upholds (broker_inv L) (case t of None \<Rightarrow> reject_connect d tid QuotaExceeded (release_if_valid (pk_will_payload pkt) b1)
      | Some i \<Rightarrow> if w then reject_connect d tid TopicNameInvalid (release_if_valid (pk_will_payload pkt) b1)
          else (if c i then take_over d i (old i) res b1 else Some b1) \<bind> accept_connect d tid i cid assigned pkt)"
    for t w c old res cid assigned
    using rej [OF b1] acc by (simp split: option.split)
  show ?thesis
    unfolding handle_connect_def Let_def b0_def [symmetric] e prod.case
    by (rule upholds_if, rule rej [OF b0], cases r) (auto simp del: not_None_eq intro!: rej [OF b1] tgt)
qed

lemma keeps_inbound_mark:
  assumes "broker_inv L b" and "ib_insert k tp m n r q dup (bk_inbound_qos2 b ! i) = (e, t)"
  shows "broker_inv L (b\<lparr>bk_inbound_qos2 := (bk_inbound_qos2 b)[i := t]\<rparr>)"
    and "broker_inv L (b\<lparr>bk_inbound_qos2 := (bk_inbound_qos2 b)[i := t[j := (t ! j)\<lparr>ii_pubrec_sent := x\<rparr>]]\<rparr>)"
  using assms(2) by (auto intro!: keeps_inbound [OF assms(1)] ib_ok_pubrec dest: ib_ok_insert)

lemma handle_publish_qos2_inv:
  assumes d: "safe L d" and inv: "broker_inv L b"
  shows "upholds (broker_inv L) (handle_publish_qos2 d tid pkt i b)"
proof -
  obtain ok mp where a: "msg_acquire (pk_payload pkt) (bk_msg_pool b) = (ok, mp)" by (rule prod.exhaust)
  define b1 where "b1 = b\<lparr>bk_msg_pool := mp\<rparr>"
  have b1: "broker_inv L b1" unfolding b1_def by (rule keeps_acquired [OF inv a])
  define k where "k = unat (slot (sn_self (sess b i)))"
  obtain r t where n: "ib_insert (pk_packet_id pkt) (pk_topic pkt) (pk_payload pkt) (pk_payload_len pkt)
      (pk_retain pkt) (pk_qos pkt) (pk_dup pkt) (bk_inbound_qos2 b1 ! k) = (r, t)" by (rule prod.exhaust)
  note ins = keeps_inbound_mark [OF b1 n]
  have "upholds (broker_inv L) (case r of None \<Rightarrow> d tid False (release_msg (pk_payload pkt) b1)
      | Some e \<Rightarrow> let b2 = b1\<lparr>bk_inbound_qos2 := (bk_inbound_qos2 b1)[k := t]\<rparr> in
          if \<not> ii_pubrec_sent (t ! e)
          then Some (snd (send_pubrec tid (pk_packet_id pkt) Success
                 (b2\<lparr>bk_inbound_qos2 := (bk_inbound_qos2 b2)[k := t[e := (t ! e)\<lparr>ii_pubrec_sent := True\<rparr>]]\<rparr>)))
          else Some b2)"
    using b1 ins by (simp add: Let_def send_defs keeps safeD [OF d] split: option.split)
  moreover have "upholds (broker_inv L) (d tid False b1)"
    by (rule safeD [OF d b1])
  moreover have "upholds (broker_inv L) (Some (snd (send_pubrec tid (pk_packet_id pkt) Success (release_if_valid (pk_payload pkt) b))))"
    using inv by (simp add: keeps send_defs)
  ultimately show ?thesis
    using n by (simp add: handle_publish_qos2_def a Let_def b1_def [symmetric] k_def [symmetric]
        split: bool.split option.split_asm)
qed

lemma handle_publish_inv:
  assumes d: "safe L d" and inv: "broker_inv L b"
  shows "upholds (broker_inv L) (handle_publish d tid pkt b)"
  using inv
  by (auto simp: handle_publish_def Let_def keeps send_defs safeD [OF d] handle_publish_qos2_inv [OF d]
      intro!: upholds_map [OF route_publish_inv [OF d]] split: option.split)

lemma handle_acks_inv [keeps]:
  assumes inv: "broker_inv L b"
  shows "broker_inv L (handle_puback tid pkt b)" and "broker_inv L (handle_pubrec tid pkt b)"
    and "broker_inv L (handle_pubcomp tid pkt b)"
proof -
  have "broker_inv L (b\<lparr>bk_outbound_inflight := (bk_outbound_inflight b)[k := (bk_outbound_inflight b ! k)\<lparr>ob_entries :=
      (ob_entries (bk_outbound_inflight b ! k))[e := (ob_entries (bk_outbound_inflight b ! k) ! e)\<lparr>oi_qos2_phase := ph\<rparr>]\<rparr>]\<rparr>)" for k e ph
    by (rule keeps_outbound [OF inv]) (rule ob_ok_phase)
  with inv show "broker_inv L (handle_pubrec tid pkt b)"
    by (auto simp: handle_pubrec_def Let_def keeps send_defs split: option.split)
  show "broker_inv L (handle_puback tid pkt b)" "broker_inv L (handle_pubcomp tid pkt b)"
    using inv by (auto simp: handle_puback_def handle_pubcomp_def keeps split: option.split)
qed

lemma handle_pubrel_inv:
  assumes d: "safe L d" and inv: "broker_inv L b"
  shows "upholds (broker_inv L) (handle_pubrel d tid pkt b)"
proof -
  have fin: "broker_inv L (b1\<lparr>bk_msg_pool := mp, bk_inbound_qos2 := (bk_inbound_qos2 b1)[k := t]\<rparr>)"
    if b1: "broker_inv L b1" and r: "ib_remove pid (bk_inbound_qos2 b1 ! k) (bk_msg_pool b1) = (ok, t, mp)" for b1 pid k ok t mp
  proof -
    have "mp_inv mp" using r keeps_msg_pool [OF b1] ii_release_inv by (auto simp: ib_remove_def split: option.splits)
    then have "broker_inv L (b1\<lparr>bk_msg_pool := mp\<rparr>)" by (rule keeps_pool(1) [OF b1])
    then show ?thesis
      using keeps_inbound [of L "b1\<lparr>bk_msg_pool := mp\<rparr>" k t] r ib_ok_remove [of L "bk_inbound_qos2 b1 ! k" pid "bk_msg_pool b1"]
      by simp
  qed
  show ?thesis
    using inv
    by (auto simp: handle_pubrel_def Let_def send_defs keeps intro!: upholds_map [OF route_publish_inv [OF d inv]] keeps_write(4) fin
        split: option.split prod.split)
qed

subsection \<open>Subscriptions and the remaining packets\<close>

lemma deliver_retained_inv:
  assumes d: "safe L d" and inv: "broker_inv L b"
  shows "upholds (broker_inv L) (deliver_retained_for_filter d tid session flt opts b)"
proof -
  let ?step = "\<lambda>g ri b. case retained_entry_at (bk_retained b) ri of None \<Rightarrow> Some b
      | Some (th, m) \<Rightarrow> let topic = deref b (topic_ptr b th) in
          if topic = [] \<or> \<not> topic_matches_filter topic flt then Some b
          else if message_expired b m then Some (drop_retained th (bump mt_messages_expired_update b))
          else map_option snd (enqueue_delivery d tid session (topic_ptr b th) m
                 (payload_size (bk_msg_pool b) m) g True b)"
  have "upholds (broker_inv L) (?step g ri b)" if "broker_inv L b" for ri g b
    using that by (auto simp: Let_def keeps intro!: upholds_snd enqueue_delivery_inv [OF d] split: option.split)
  then have "upholds (broker_inv L) (fold_opt (?step g) xs b)" for g xs
    by (rule upholds_fold_opt) (simp_all add: inv)
  with inv show ?thesis
    unfolding deliver_retained_for_filter_def Let_def by (cases "session_record b session") simp_all
qed

lemma subscribe_entry_inv:
  assumes d: "safe L d" and inv: "inv_snd L acc" and len: "length (sub_filter e) \<le> 255"
  shows "upholds (inv_snd L) (subscribe_entry d tid i e acc)"
proof -
  obtain rcs b where acc: "acc = (rcs, b)" by (rule prod.exhaust)
  with inv have b: "broker_inv L b" by simp
  have t: "broker_inv L (b\<lparr>bk_topic_trie := t\<rparr>)" if "trie_subscribe (sub_filter e) s q op (bk_topic_trie b) = Some (r, t)" for s q op r t
    using subscribe_table [OF broker_inv_trie [OF b] len, of s q op] that
    by (intro keeps_trie [OF b] trie_subscribe_length [OF that]) auto
  show ?thesis
    using b t by (auto simp: subscribe_entry_def acc Let_def intro!: upholds_pair deliver_retained_inv [OF d] split: option.split)
qed

lemma handle_subscribe_inv:
  assumes d: "safe L d" and inv: "broker_inv L b" and pkt: "packet_ok pkt"
  shows "upholds (broker_inv L) (handle_subscribe d tid pkt b)"
proof -
  have "length (sub_filter e) \<le> 255" if "e \<in> set (pk_subscribe_entries pkt)" for e
    using pkt that by (auto simp: packet_ok_def)
  then have "upholds (inv_snd L) (fold_opt (subscribe_entry d tid i) (pk_subscribe_entries pkt) ([], b))" for i
    by (intro upholds_fold_opt_mem subscribe_entry_inv [OF d]) (use inv in auto)
  with inv show ?thesis
    by (auto simp: handle_subscribe_def Let_def keeps intro!: upholds_bind split: option.split)
qed

lemma keeps_unsubscribe [keeps]: "broker_inv L b \<Longrightarrow> broker_inv L (handle_unsubscribe tid pkt b)"
proof -
  assume inv: "broker_inv L b"
  have e: "inv_snd L (unsubscribe_entry i e acc)" if a: "inv_snd L acc" for i e acc
  proof -
    obtain ok t where u: "trie_unsubscribe (sub_filter e) (slot (sn_self (sess (snd acc) i))) (bk_topic_trie (snd acc)) = (ok, t)"
      by (rule prod.exhaust)
    have "broker_inv L ((snd acc)\<lparr>bk_topic_trie := t\<rparr>)"
      by (rule keeps_trie [OF a]) (use trie_unsubscribe_length u in \<open>metis snd_conv\<close>,
        use trie_unsubscribe_length u in \<open>metis snd_conv\<close>, use unsubscribe_table(1) [OF broker_inv_trie [OF a] u] in simp)
    with u show ?thesis by (simp add: unsubscribe_entry_def split_beta)
  qed
  have "inv_snd L (fold (unsubscribe_entry i) es ([], b))" for i es
    by (rule fold_keeps [where P = "inv_snd L"]) (use e inv in auto)
  with inv show ?thesis
    by (auto simp: handle_unsubscribe_def Let_def split_beta keeps split: option.split)
qed

lemma keeps_ping [keeps]: "broker_inv L b \<Longrightarrow> broker_inv L (handle_ping tid b)"
  by (simp add: handle_ping_def Let_def keeps)

lemma handle_disconnect_inv:
  "safe L d \<Longrightarrow> broker_inv L b \<Longrightarrow> upholds (broker_inv L) (handle_disconnect d tid pkt b)"
  unfolding handle_disconnect_def by (rule safeD) (simp_all split: option.split)

lemma handle_packet_inv:
  assumes d: "safe L d" and inv: "broker_inv L b" and pkt: "packet_ok pkt"
  shows "upholds (inv_snd L) (handle_packet d tid pkt b)"
proof -
  have "broker_inv L (touch_keepalive tid t b)" for t using inv by (rule keeps)
  then show ?thesis
    unfolding handle_packet_def Let_def
    by (cases "pk_type pkt")
      (simp_all add: upholds_pair handle_connect_inv [OF d] handle_publish_inv [OF d] handle_pubrel_inv [OF d]
        handle_subscribe_inv [OF d _ pkt] handle_disconnect_inv [OF d] safeD [OF d] keeps)
qed

section \<open>Entry points\<close>

lemma feed_conn_inv:
  assumes inv: "broker_inv L b" and "unat tid < MaxTcpClients L"
  shows "broker_inv L (snd (feed_conn tid bs b))"
proof -
  obtain n p mp pp where f: "feed (bk_limits b) bs (cn_parser (conn b tid), bk_msg_pool b, bk_prop_pool b) = (n, p, mp, pp)"
    by (metis prod_cases4)
  have "parser_inv (cn_parser (conn b tid), bk_msg_pool b, bk_prop_pool b)"
    using conn_ok_at [OF assms] inv by (simp add: parser_inv_split conn_ok_def broker_inv_def)
  from feed_inv [OF this, of "bk_limits b" bs] have p: "parser_ok p" "mp_inv mp" "pp_inv pp"
    by (simp_all add: f parser_inv_split)
  then have "broker_inv L (b\<lparr>bk_msg_pool := mp, bk_prop_pool := pp\<rparr>)"
    using inv by (simp add: broker_inv_def)
  then have "broker_inv L (upd_conn tid (\<lambda>c. c\<lparr>cn_parser := p\<rparr>) (b\<lparr>bk_msg_pool := mp, bk_prop_pool := pp\<rparr>))"
    by (rule keeps_conn) (use p in \<open>simp add: conn_ok_def\<close>)
  then show ?thesis by (simp add: feed_conn_def f)
qed

lemma keeps_props [keeps]: "broker_inv L b \<Longrightarrow> broker_inv L (release_props h b)"
  by (auto simp: release_props_def broker_inv_def props_release_effect(1))

lemma keeps_parser_reset [keeps]:
  "broker_inv L b \<Longrightarrow> broker_inv L (upd_conn tid (\<lambda>c. c\<lparr>cn_parser := parser_reset (cn_parser c)\<rparr>) b)"
  by (rule keeps_conn) (simp_all add: conn_ok_def parser_ok_def parser_reset_def packet_ok_init)

lemma read_loop_inv:
  assumes d: "safe L d" and tid: "unat tid < MaxTcpClients L"
  shows "broker_inv L b \<Longrightarrow> upholds (broker_inv L) (read_loop d n tid bs b)"
proof (induction n arbitrary: bs b)
  case (Suc n)
  obtain k b1 where f: "feed_conn tid bs b = (k, b1)" by (rule prod.exhaust)
  have b1: "broker_inv L b1" using feed_conn_inv [OF Suc.prems tid, of bs] f by simp
  let ?p = "cn_parser (conn b1 tid)" let ?pkt = "pa_packet ?p"
  have pkt: "packet_ok ?pkt" using conn_ok_at [OF b1 tid] by (simp add: conn_ok_def parser_ok_def)
  have "upholds (broker_inv L) (do {
      (_, b2) \<leftarrow> handle_packet d tid ?pkt b1;
      let b3 = release_props (pk_properties ?pkt) b2;
      let b4 = release_props (pk_will_properties ?pkt) b3;
      read_loop d n tid (drop k bs) (upd_conn tid (\<lambda>c. c\<lparr>cn_parser := parser_reset (cn_parser c)\<rparr>) b4)})"
    by (rule upholds_bind [OF handle_packet_inv [OF d b1 pkt]]) (auto simp: Let_def keeps intro!: Suc.IH)
  with b1 Suc.prems Suc.IH [OF b1] show ?case
    by (simp add: f Let_def safeD [OF d])
qed simp

lemma on_readable_inv:
  assumes d: "safe L d" and inv: "broker_inv L b"
  shows "upholds (broker_inv L) (on_readable d tid b)"
  using inv broker_inv_limits [OF inv]
  by (auto simp: on_readable_def Let_def safeD [OF d] detach_transport_inv [OF d] read_loop_inv [OF d]
      split: option.split prod.split)

lemma tick_connection_inv:
  assumes d: "safe L d" and inv: "broker_inv L b"
  shows "upholds (broker_inv L) (tick_connection d now tid b)"
  using inv
  by (auto simp: tick_connection_def Let_def safeD [OF d] keeps intro!: upholds_map [OF safeD [OF d inv]]
      split: option.split)

lemma tick_inv:
  assumes d: "safe L d" and inv: "broker_inv L b"
  shows "upholds (broker_inv L) (tick d now b)"
  unfolding tick_def
proof (rule upholds_bind)
  show "upholds (broker_inv L) (tick_offline_sessions d (b\<lparr>bk_current_tick := now\<rparr>))"
    using inv by (intro tick_offline_sessions_inv [OF d]) simp
qed (intro upholds_fold_opt [where P = "broker_inv L"] tick_connection_inv [OF d] keeps)

lemma broker_event_inv: "safe L d \<Longrightarrow> broker_inv L b \<Longrightarrow> upholds (broker_inv L) (broker_event d ev b)"
  by (cases ev) (simp_all add: keeps detach_transport_inv on_readable_inv tick_inv drain_tx_inv
      broker_set_policy_def broker_set_auth_handler_def)



end
