(* ===== verification/Broker_Props.thy ===== *)
theory Broker_Props
  imports Broker_Inv
begin

text \<open>
  Properties of the broker as a whole, beyond the safety of its memory: when closing a connection
  ends and when it does not, what is left after it, keep alive, exactly-once routing of QoS 2
  messages, and the deadlines of offline sessions.
\<close>

section \<open>A will that closes its own connection\<close>

text \<open>The states of the intern pool while only one topic is in use, in the first entry.\<close>

definition sole_topic :: "byte list \<Rightarrow> TopicInternPool \<Rightarrow> bool" where
  "sole_topic topic p \<longleftrightarrow>
     (\<exists>e es. ti_entries p = e # es \<and> list_all (\<lambda>x. \<not> te_in_use x) es)
     \<and> length topic < 65536 \<and> length topic < ti_blob_cap p \<and> length (ti_blob p) = ti_blob_cap p
     \<and> (if te_in_use (ti_entries p ! 0)
        then te_offset (ti_entries p ! 0) = 0 \<and> te_length (ti_entries p ! 0) = of_nat (length topic)
          \<and> take (length topic) (ti_blob p) = topic \<and> ti_bytes_used p = length topic + 1
        else ti_bytes_used p = 0)"

lemma holds_unused: "list_all (\<lambda>x. \<not> te_in_use x) es \<Longrightarrow> first_idx (holds_topic blob t) es = None"
  by (auto simp: first_idx_None_iff holds_topic_def list_all_iff)

lemma sole_topic_intern:
  assumes "sole_topic t p" and "topic_valid t"
  shows "sole_topic t (snd (intern t p))" and "topic_handle_valid (snd (intern t p)) (fst (intern t p))"
    and "slot (fst (intern t p)) = 0" and "te_in_use (ti_entries (snd (intern t p)) ! 0)"
proof -
  obtain e es where es: "ti_entries p = e # es" "list_all (\<lambda>x. \<not> te_in_use x) es"
    using assms(1) by (auto simp: sole_topic_def)
  have len: "length t < 65536" using assms(1) by (simp add: sole_topic_def)
  have l: "unat (of_nat (length t) :: u16) = length t" using len by (simp add: unat_of_nat_u16)
  have "sole_topic t (snd (intern t p)) \<and> topic_handle_valid (snd (intern t p)) (fst (intern t p))
      \<and> slot (fst (intern t p)) = 0 \<and> te_in_use (ti_entries (snd (intern t p)) ! 0)"
  proof (cases "te_in_use e")
    case True
    then have "holds_topic (ti_blob p) t e"
      using assms(1) es l by (simp add: sole_topic_def holds_topic_def slice_def)
    with True assms es show ?thesis
      by (auto simp: intern_def Let_def sole_topic_def topic_handle_valid_def)
  next
    case False
    then have "first_idx (holds_topic (ti_blob p) t) (ti_entries p) = None"
      using es by (simp add: holds_unused) (simp add: holds_topic_def)
    with False assms es show ?thesis
      by (auto simp: intern_def Let_def sole_topic_def topic_handle_valid_def write_at_def)
  qed
  then show "sole_topic t (snd (intern t p))" "topic_handle_valid (snd (intern t p)) (fst (intern t p))"
    "slot (fst (intern t p)) = 0" "te_in_use (ti_entries (snd (intern t p)) ! 0)" by auto
qed

lemma sole_topic_release:
  assumes "sole_topic t p" and "topic_valid t" and "slot h = 0"
  shows "sole_topic t (topic_release h p)"
proof -
  obtain e es where es: "ti_entries p = e # es" "list_all (\<lambda>x. \<not> te_in_use x) es"
    using assms(1) by (auto simp: sole_topic_def)
  have len: "length t < 65536" using assms(1) by (simp add: sole_topic_def)
  have l: "unat (of_nat (length t) :: u16) = length t" using len by (simp add: unat_of_nat_u16)
  have "map (shift_entry a b) es = es" for a b
    using es(2) by (induction es) (auto simp: shift_entry_def)
  with assms es l show ?thesis
    by (auto simp: topic_release_def sole_topic_def topic_handle_valid_def Let_def shift_entry_def write_at_def)
qed

text \<open>
  Connection \<open>tid\<close> of session \<open>i\<close> is about to be closed for good, with nothing left to send. The
  session has a will with QoS 0 whose payload handle is stale, as it is for a will with an empty
  payload, and the session itself is the only subscriber of the will's topic, with room to deliver.
\<close>

definition will_trap :: "u16 \<Rightarrow> nat \<Rightarrow> Broker \<Rightarrow> bool" where
  "will_trap tid i b \<longleftrightarrow>
     (let s = sess b i; c = conn b tid; w = sn_will s;
          est = estimate_publish_size (wm_topic w) (wm_payload_len w) False 0 0 False (cn_protocol_level c)
      in unat tid < max_clients b \<and> i < max_clients b \<and> max_clients b \<le> 65535
       \<and> length (bk_sessions b) = max_clients b
       \<and> cn_in_use c \<and> cn_session c = sn_self s \<and> unat (slot (sn_self s)) = i
       \<and> sn_state s = Connected \<and> sn_transport_id s = tid \<and> sn_session_expiry_interval s = 0
       \<and> \<not> sn_suppress_will s \<and> wm_valid w \<and> wm_qos w = 0 \<and> \<not> wm_retain w
       \<and> topic_valid (wm_topic w) \<and> sole_topic (wm_topic w) (bk_topic_intern b)
       \<and> \<not> msg_valid (bk_msg_pool b) (wm_payload w)
       \<and> (\<exists>m. trie_match (bk_topic_trie b) (wm_topic w) (MaxSubsPerClient (bk_limits b) * 2) = Some [m]
            \<and> unat (ts_session_id m) = i)
       \<and> 0 < MaxSubsPerClient (bk_limits b)
       \<and> tq_count (cn_tx c) = 0 \<and> est \<le> unat (sn_client_max_packet_size s)
       \<and> \<not> tx_over_budget tid (of_nat est) b)"

lemma tx_over_budget_other [simp]:
  "tx_over_budget tid est (b\<lparr>bk_topic_intern := ti\<rparr>) = tx_over_budget tid est b"
  "tx_over_budget tid est (b\<lparr>bk_metrics := m\<rparr>) = tx_over_budget tid est b"
  by (simp_all add: tx_over_budget_def)

lemma will_trap_other:
  "will_trap tid i b \<Longrightarrow> sole_topic (wm_topic (sn_will (sess b i))) ti \<Longrightarrow>
     will_trap tid i (b\<lparr>bk_topic_intern := ti, bk_metrics := m\<rparr>)"
  by (simp add: will_trap_def Let_def)

lemma will_trap_delivery:
  assumes t: "will_trap tid i b"
  shows "\<exists>b'. will_trap tid i b' \<and> sess b' i = sess b i \<and>
     enqueue_delivery d tid (sn_self (sess b i)) (WillRef i) (wm_payload (sn_will (sess b i)))
       (wm_payload_len (sn_will (sess b i))) 0 False b = map_option (Pair False) (d tid True b')"
proof -
  let ?w = "sn_will (sess b i)"
  obtain th ti where n: "intern (wm_topic ?w) (bk_topic_intern b) = (th, ti)" by (rule prod.exhaust)
  have s: "sole_topic (wm_topic ?w) ti" "topic_handle_valid ti th" "slot th = 0"
    using sole_topic_intern [of "wm_topic ?w" "bk_topic_intern b"] t n by (simp_all add: will_trap_def Let_def)
  define b' where "b' = bump mt_pool_exhaustion_update (release_topic th (b\<lparr>bk_topic_intern := ti\<rparr>))"
  have b': "b' = b\<lparr>bk_topic_intern := topic_release th ti,
      bk_metrics := (bk_metrics b)\<lparr>mt_pool_exhaustion := mt_pool_exhaustion (bk_metrics b) + 1\<rparr>\<rparr>"
    by (simp add: b'_def bump_def release_topic_def)
  have "will_trap tid i b'"
    unfolding b' using t s by (intro will_trap_other sole_topic_release) (auto simp: will_trap_def Let_def)
  moreover have "session_record b (sn_self (sess b i)) = Some i"
    using t by (auto simp: session_record_def will_trap_def Let_def session_handle_valid_def)
  ultimately show ?thesis
    using t n s
    by (intro exI [of _ b']) (simp add: will_trap_def Let_def enqueue_delivery_def message_expired_def expiry_interval_def
        delivery_packet_id_def msg_props_def deref_def queue_delivery_def msg_acquire_def
        b'_def bump_def release_topic_def)
qed

lemma will_trap_route:
  assumes t: "will_trap tid i b"
  shows "\<exists>b'. will_trap tid i b' \<and>
     (d tid True b' = None \<longrightarrow> publish_stored_will d i b = None)"
proof -
  let ?w = "sn_will (sess b i)"
  obtain th ti where n: "intern (wm_topic ?w) (bk_topic_intern b) = (th, ti)" by (rule prod.exhaust)
  have s: "sole_topic (wm_topic ?w) ti" "topic_handle_valid ti th"
    using sole_topic_intern [of "wm_topic ?w" "bk_topic_intern b"] t n by (simp_all add: will_trap_def Let_def)
  let ?b1 = "b\<lparr>bk_topic_intern := ti\<rparr>"
  have t1: "will_trap tid i ?b1" using will_trap_other [OF t s(1), of "bk_metrics b"] by simp
  obtain b' where b': "will_trap tid i b'" "sess b' i = sess b i"
    "enqueue_delivery d tid (sn_self (sess b i)) (WillRef i) (wm_payload ?w) (wm_payload_len ?w) 0 False ?b1
       = map_option (Pair False) (d tid True b')"
    using will_trap_delivery [OF t1, of d] by auto
  obtain m where m: "trie_match (bk_topic_trie b) (wm_topic ?w) (MaxSubsPerClient (bk_limits b) * 2) = Some [m]"
    "unat (ts_session_id m) = i"
    using t by (auto simp: will_trap_def Let_def)
  have sid: "ts_session_id m = slot (sn_self (sess b i))"
    using t m(2) by (simp add: will_trap_def Let_def word_unat_eq_iff)
  have ne: "ts_session_id m \<noteq> 0xFFFF" using t m(2) by (auto simp: will_trap_def Let_def)
  then have sr: "session_record ?b1 \<lparr>slot = ts_session_id m, generation = generation (sn_self (sess b i))\<rparr> = Some i"
    using t m(2) by (simp add: session_record_def will_trap_def Let_def session_handle_valid_def)
  have w0: "wm_topic ?w \<noteq> []" using t by (auto simp: will_trap_def Let_def topic_valid_def)
  have "MaxSubsPerClient (bk_limits b) \<noteq> 0" using t by (simp add: will_trap_def Let_def)
  then obtain k where k: "MaxSubsPerClient (bk_limits b) = Suc k" by (cases "MaxSubsPerClient (bk_limits b)") auto
  have plan: "dp_deliver (compute_delivery_plan 0 0xFFFF [subscription_match m])"
    "dp_effective_qos (compute_delivery_plan 0 0xFFFF [subscription_match m]) = 0"
    using ne by (simp_all add: compute_delivery_plan_def subscription_match_def ineligible_def)
  have "session_record ?b1 (session_for_transport ?b1 0xFFFF) = None"
    using t by (simp add: session_for_transport_def session_record_def will_trap_def Let_def NULL_HANDLE_def session_handle_valid_def)
  moreover have "route_to_session d 0xFFFF (WillRef i) 0 False (wm_payload ?w) (wm_payload_len ?w) [m] (ts_session_id m) ?b1
      = map_option snd (map_option (Pair False) (d tid True b'))"
    using b' t sr plan m(2) k by (simp add: route_to_session_def will_trap_def Let_def)
  ultimately have "publish_stored_will d i b = map_option (bump mt_will_published_update) (map_option (release_topic th)
      (map_option snd (map_option (Pair False) (d tid True b'))))"
    using t n s m by (cases "d tid True b'") (simp_all add: publish_stored_will_def route_publish_def route_retain_def will_trap_def Let_def deref_def
        expiry_interval_def w0)
  with b' show ?thesis by auto
qed

lemma will_trap_body:
  assumes t: "will_trap tid i b"
  shows "\<exists>b'. will_trap tid i b' \<and> (d tid True b' = None \<longrightarrow> disconnect_body d tid slow b = None)"
proof -
  have p: "purge_tx_queue tid b = b" using t by (simp add: purge_tx_queue_def will_trap_def Let_def)
  have "client_gone b = b\<lparr>bk_metrics := bk_metrics (client_gone b)\<rparr>" by (simp add: client_gone_def)
  then obtain ms where g: "client_gone b = b\<lparr>bk_metrics := ms\<rparr>" by blast
  have "will_trap tid i (client_gone b)"
    using will_trap_other [OF t, of "bk_topic_intern b" ms] t by (simp add: g will_trap_def Let_def)
  from will_trap_route [OF this, of d] obtain b' where b': "will_trap tid i b'"
    "d tid True b' = None \<longrightarrow> publish_stored_will d i (client_gone b) = None" by (elim exE conjE)
  have "session_record b (cn_session (conn b tid)) = Some i"
    using t by (auto simp: session_record_def will_trap_def Let_def session_handle_valid_def)
  then have "publish_stored_will d i (client_gone b) = None \<Longrightarrow> disconnect_body d tid slow b = None"
    using t by (simp add: disconnect_body_def p drop_session_def begin_offline_session_def end_session_def
        will_trap_def Let_def g)
  with b' show ?thesis by (intro exI [of _ b'] conjI impI) simp_all
qed


text \<open>One client, connected at transport 0 with an empty will on \<open>w\<close> and a subscription to \<open>w\<close>.\<close>

definition trap_limits :: BrokerLimits where
  "trap_limits = broker_limits_host\<lparr>MaxTcpClients := 1, MaxSubsPerClient := 2\<rparr>"

definition trap_trie :: TopicTrie where
  "trap_trie = snd (the (trie_subscribe [119] 0 0 0 (TopicTrie_new 2 1)))"

definition trap_broker :: Broker where
  "trap_broker =
     upd_conn 0 (\<lambda>c. c\<lparr>cn_in_use := True, cn_session := \<lparr>slot = 0, generation = 1\<rparr>, cn_protocol_level := 4\<rparr>)
       (upd_sess 0 (\<lambda>s. s\<lparr>sn_state := Connected, sn_transport_id := 0, sn_client_id := [99],
            sn_will := \<lparr>wm_valid = True, wm_topic = [119], wm_payload = NULL_HANDLE, wm_payload_len = 0,
              wm_qos = 0, wm_retain = False\<rparr>\<rparr>)
         ((Broker_new trap_limits)\<lparr>bk_topic_trie := trap_trie\<rparr>))"

lemma trap_broker_fields:
  "max_clients trap_broker = 1" "MaxSubsPerClient (bk_limits trap_broker) = 2"
  "TxLogicalPerClient (bk_limits trap_broker) = 32768" "TxLogicalTotal (bk_limits trap_broker) = 131072"
  "bk_sessions trap_broker = [(session_init trap_limits 0)\<lparr>sn_state := Connected, sn_transport_id := 0, sn_client_id := [99],
     sn_will := \<lparr>wm_valid = True, wm_topic = [119], wm_payload = NULL_HANDLE, wm_payload_len = 0, wm_qos = 0, wm_retain = False\<rparr>\<rparr>]"
  "bk_topic_trie trap_broker = trap_trie" "bk_global_logical_tx trap_broker = 0"
  "bk_topic_intern trap_broker = TopicInternPool_new 128 16384"
  "bk_connections trap_broker = [\<lparr>cn_transport = transport_zero,
            cn_parser = PacketParser_new \<lparr>pl_max_packet_bytes = of_nat 16384, pl_max_topic_bytes = of_nat 256, pl_control_buffer_bytes = 1024\<rparr>,
            cn_tx = TxQueue_new 64 32768 (Some (replicate 64 pd_zero)),
            cn_session = \<lparr>slot = 0, generation = 1\<rparr>, cn_in_use = True, cn_attached_tick = 0, cn_protocol_level = 4\<rparr>]"
  by (simp_all add: trap_broker_def Broker_new_def trap_limits_def broker_limits_host_def Let_def upd_conn_def upd_sess_def)

lemma trap_match:
  "trie_match trap_trie [119] 4 = Some [\<lparr>ts_sub_id = 1, ts_session_id = 0, ts_max_qos = 0, ts_options_byte = 0\<rparr>]"
  by code_simp

lemma sole_topic_new: "sole_topic [c] (TopicInternPool_new 128 16384)"
proof -
  have r: "replicate 128 x = x # replicate 127 x" for x :: Entry
    using replicate_Suc [of 127 x] by simp
  show ?thesis by (simp add: sole_topic_def TopicInternPool_new_def r list_all_iff)
qed

lemma trap_broker_trap: "will_trap 0 0 trap_broker"
proof -
  have t: "topic_valid [119]" by code_simp
  have e: "estimate_publish_size [119] 0 False 0 0 False 4 = 5" by code_simp
  have "unat (sn_client_max_packet_size (session_init trap_limits 0)) = 16384"
    by (simp add: session_init_def trap_limits_def broker_limits_host_def ConnackCaps_MaximumPacketSize_def)
  with trap_match t sole_topic_new e show ?thesis
    by (simp add: will_trap_def Let_def trap_broker_fields tx_over_budget_def tq_full_def TxQueue_new_def session_init_def
        msg_valid_def message_handle_valid_iff)
qed


section \<open>QoS 2\<close>

lemma send_ack_log: "\<exists>l. snd (send_ack enc tid pid r b) = b\<lparr>bk_log := l\<rparr>"
proof -
  have "b = b\<lparr>bk_log := bk_log b\<rparr>" by simp
  then have "\<exists>l. b = b\<lparr>bk_log := l\<rparr>" by blast
  then show ?thesis
    by (auto simp: send_ack_def write_bytes_def call_write_def Let_def split: option.split prod.split)
qed

text \<open>A QoS 2 PUBLISH with a new identifier, when there is room for it.\<close>

lemma qos2_store:
  assumes inv: "broker_inv L b" and k: "unat (slot (sn_self (sess b i))) = k" "k < MaxTcpClients L"
    and new: "pk_packet_id pkt \<noteq> 0" "ib_find (bk_inbound_qos2 b ! k) (pk_packet_id pkt) = None"
      "\<not> ib_at_capacity (bk_inbound_qos2 b ! k)"
    and a: "msg_acquire (pk_payload pkt) (bk_msg_pool b) = (True, mp)"
  obtains l e t where "handle_publish_qos2 d tid pkt i b
      = Some (b\<lparr>bk_msg_pool := mp, bk_inbound_qos2 := (bk_inbound_qos2 b)[k := t], bk_log := l\<rparr>)"
    and "ib_find t (pk_packet_id pkt) = Some e" and "ii_pubrec_sent (t ! e)" and "ii_payload (t ! e) = pk_payload pkt"
proof -
  let ?tbl = "bk_inbound_qos2 b ! k" let ?pid = "pk_packet_id pkt"
  have tbl: "ib_inv ?tbl" "ib_ok L ?tbl" using inv k(2) by (auto simp: broker_inv_def list_all_length ib_ok_def)
  have len: "k < length (bk_inbound_qos2 b)" using inv k(2) by (simp add: broker_inv_def)
  obtain r t1 where ins: "ib_insert ?pid (pk_topic pkt) (pk_payload pkt) (pk_payload_len pkt) (pk_retain pkt) (pk_qos pkt)
      (pk_dup pkt) ?tbl = (r, t1)" by (rule prod.exhaust)
  obtain e where r: "r = Some e"
    using ib.ins_ok [OF tbl(1) new(1), of "(pk_topic pkt, pk_payload pkt, pk_payload_len pkt, pk_retain pkt, pk_qos pkt, pk_dup pkt)"]
      new ins by (auto simp: ib_get_def ib_put_def ib_at_capacity_def)
  have "\<exists>x. t1 = ?tbl[e := x] \<and> e < length ?tbl \<and> ii_in_use x \<and> ii_packet_id x = ?pid
      \<and> \<not> ii_pubrec_sent x \<and> ii_payload x = pk_payload pkt"
    using ins r new
    by (intro exI [of _ "ib_entry ?pid (pk_topic pkt, pk_payload pkt, pk_payload_len pkt, pk_retain pkt, pk_qos pkt, pk_dup pkt)"])
      (auto simp: ib_insert_def ib_entry_def split: option.splits if_splits)
  then obtain x where x: "t1 = ?tbl[e := x]" "e < length ?tbl" "ii_in_use x" "ii_packet_id x = ?pid"
      "\<not> ii_pubrec_sent x" "ii_payload x = pk_payload pkt" by blast
  have inv1: "ib_inv t1"
    using ib_ok_insert [OF tbl(2) ins] by (simp add: ib_ok_def)
  let ?t = "t1[e := (t1 ! e)\<lparr>ii_pubrec_sent := True\<rparr>]"
  have invt: "ib_inv ?t"
    using inv1 by (auto simp: ib_inv_def nth_upd elim!: keyed_cong split: if_splits)
  have f: "ib_find ?t ?pid = Some e"
    using invt x by (subst ib_find_lookup, subst lookup_Some_iff) (auto simp: ib_inv_def)
  obtain l where l: "snd (send_pubrec tid ?pid Success (b\<lparr>bk_msg_pool := mp, bk_inbound_qos2 := (bk_inbound_qos2 b)[k := ?t]\<rparr>))
      = b\<lparr>bk_msg_pool := mp, bk_inbound_qos2 := (bk_inbound_qos2 b)[k := ?t], bk_log := l\<rparr>"
    unfolding send_pubrec_def
    using send_ack_log [of encode_pubrec tid ?pid Success "b\<lparr>bk_msg_pool := mp, bk_inbound_qos2 := (bk_inbound_qos2 b)[k := ?t]\<rparr>"]
    by auto
  have "handle_publish_qos2 d tid pkt i b
      = Some (b\<lparr>bk_msg_pool := mp, bk_inbound_qos2 := (bk_inbound_qos2 b)[k := ?t], bk_log := l\<rparr>)"
    using new a ins r x l k by (simp add: handle_publish_qos2_def Let_def)
  then show thesis
    by (rule that [OF _ f]) (use x in simp_all)
qed


text \<open>A broker with one session slot and one message in its pool.\<close>

definition demo_message :: MessageHandle where
  "demo_message = fst (acquire_empty (bk_msg_pool (Broker_new trap_limits)))"

definition demo_broker :: Broker where
  "demo_broker = (Broker_new trap_limits)\<lparr>bk_msg_pool := snd (acquire_empty (bk_msg_pool (Broker_new trap_limits)))\<rparr>"

lemma demo_broker_facts:
  "broker_inv trap_limits demo_broker" "MaxTcpClients trap_limits = 1"
  "msg_valid (bk_msg_pool demo_broker) demo_message" "msg_ref_count (bk_msg_pool demo_broker) demo_message = 1"
  "slot (sn_self (sess demo_broker 0)) = 0"
  "bk_inbound_qos2 demo_broker = [replicate 8 ii_zero]"
proof -
  let ?b = "Broker_new trap_limits" let ?r = "acquire_empty (bk_msg_pool (Broker_new trap_limits))"
  have inv: "broker_inv trap_limits ?b"
    by (rule broker_inv_new) (simp_all add: trap_limits_def broker_limits_host_def)
  have pi: "mp_inv (bk_msg_pool ?b)" by (rule keeps_msg_pool [OF inv])
  have "mp_slots (bk_msg_pool ?b) = replicate 96 slot_init"
    by (simp add: Broker_new_def Let_def MessagePool_new_def trap_limits_def broker_limits_host_def)
  then have "\<exists>s \<in> set (mp_slots (bk_msg_pool ?b)). \<not> sl_in_use s" by (simp add: slot_init_def)
  moreover obtain h p where r: "?r = (h, p)" by (rule prod.exhaust)
  ultimately have h: "h \<noteq> NULL_MESSAGE" using acquire_empty_room(1) [OF pi] by blast
  show "broker_inv trap_limits demo_broker"
    using inv mp_inv_acquire_empty [OF pi] by (simp add: demo_broker_def keeps_pool)
  show "msg_valid (bk_msg_pool demo_broker) demo_message" "msg_ref_count (bk_msg_pool demo_broker) demo_message = 1"
    using acquire_empty_effect(2) [OF pi r h, of h] acquire_empty_effect(3) [OF pi r h, of h] by (simp_all add: demo_broker_def demo_message_def r)
  show "MaxTcpClients trap_limits = 1" by (simp add: trap_limits_def)
  show "slot (sn_self (sess demo_broker 0)) = 0" "bk_inbound_qos2 demo_broker = [replicate 8 ii_zero]"
    by (simp_all add: demo_broker_def Broker_new_def Let_def trap_limits_def broker_limits_host_def session_init_def SessionInboundQoS2_new_def)
qed

definition demo_publish :: ParsedPacket where
  "demo_publish = packet_init\<lparr>pk_type := Publish, pk_qos := 2, pk_packet_id := 7, pk_topic := [116], pk_payload := demo_message\<rparr>"

lemma demo_publish_new:
  "pk_packet_id demo_publish = 7" "pk_payload demo_publish = demo_message"
  "ib_find (replicate 8 ii_zero) 7 = None" "\<not> ib_at_capacity (replicate 8 ii_zero)"
  by (simp_all add: demo_publish_def ib_find_def first_idx_None_iff ii_zero_def ib_at_capacity_def)




section \<open>Deadlines of an offline session\<close>

text \<open>Claim C35. The deadlines of a session that goes offline are the exact sums, with no wrap-around: the session
  expires at \<open>now + expiry\<close> and its will fires at the earlier of \<open>now + delay\<close> and the expiry; a sum
  that the 32-bit clock cannot reach means never.\<close>

theorem offline_deadlines_exact:
  "unat (sn_session_expiry_deadline_tick (offline_deadlines now expiry s)) = min (unat now + unat expiry) (unat SESSION_TICK_NONE)
   \<and> unat (sn_will_fire_deadline_tick (offline_deadlines now expiry s)) =
       (if \<not> sn_suppress_will s \<and> wm_valid (sn_will s)
        then min (unat now + min (unat (sn_will_delay_interval s)) (unat expiry)) (unat SESSION_TICK_NONE)
        else unat (sn_will_fire_deadline_tick s))"
proof -
  have b: "unat x \<le> 4294967295" for x :: u32
    using unat_u32_less [of x] by linarith
  have top: "unat SESSION_TICK_NONE = 4294967295" by simp
  have sub: "unat (SESSION_TICK_NONE - now) = 4294967295 - unat now"
    using b [of now] by (subst unat_sub) (simp_all add: word_le_nat_alt top)
  have plus: "unat (now + x) = unat now + unat x" if "unat now + unat x < 4294967295" for x
    using that by (intro unat_add_lem [THEN iffD1]) simp
  show ?thesis
    using b [of now] b [of expiry] b [of "sn_will_delay_interval s"]
    by (auto simp: offline_deadlines_def Let_def sub plus top word_le_nat_alt not_le min_def)
qed

section \<open>After a connection is closed\<close>

lemma conn_upd: "unat tid < length (bk_connections b) \<Longrightarrow> conn (upd_conn tid f b) tid = f (conn b tid)"
  by (simp add: upd_conn_def)

lemma purge_loop_count:
  assumes "unat tid < length (bk_connections b)" and "tq_count (cn_tx (conn b tid)) \<le> n"
  shows "tq_count (cn_tx (conn (purge_loop n tid b) tid)) = 0
    \<and> length (bk_connections (purge_loop n tid b)) = length (bk_connections b)
    \<and> (\<exists>tx. conn (purge_loop n tid b) tid = (conn b tid)\<lparr>cn_tx := tx\<rparr>)"
  using assms
proof (induction n arbitrary: b)
  case 0
  have "\<exists>tx. conn b tid = (conn b tid)\<lparr>cn_tx := tx\<rparr>" by (rule exI [of _ "cn_tx (conn b tid)"]) simp
  with 0 show ?case by simp
next
  case (Suc n)
  show ?case
  proof (cases "tq_count (cn_tx (conn b tid)) = 0")
    case True
    have "\<exists>tx. conn b tid = (conn b tid)\<lparr>cn_tx := tx\<rparr>" by (rule exI [of _ "cn_tx (conn b tid)"]) simp
    with True show ?thesis by (simp add: tq_peek_def)
  next
    case False
    then obtain pd where pd: "tq_peek (cn_tx (conn b tid)) = Some pd" by (simp add: tq_peek_def)
    define b1 where "b1 = pop_tx tid (drop_refs (pd_message pd) (pd_topic pd) b)"
    obtain r tx where r: "tq_pop (cn_tx (conn b tid)) = (r, tx)" by (rule prod.exhaust)
    have c: "bk_connections b1 = bk_connections (upd_conn tid (\<lambda>c. c\<lparr>cn_tx := tx\<rparr>) b)"
      by (simp add: b1_def pop_tx_def drop_refs_def r Let_def upd_conn_def)
    have "tq_count tx \<le> n" using r False Suc.prems by (auto simp: tq_pop_def Let_def)
    then have "tq_count (cn_tx (conn (purge_loop n tid b1) tid)) = 0
      \<and> length (bk_connections (purge_loop n tid b1)) = length (bk_connections b1)
      \<and> (\<exists>tx. conn (purge_loop n tid b1) tid = (conn b1 tid)\<lparr>cn_tx := tx\<rparr>)"
      using Suc.prems c by (intro Suc.IH) (simp_all add: upd_conn_def)
    with c Suc.prems show ?thesis by (auto simp: pd b1_def [symmetric] upd_conn_def)
  qed
qed

lemma purge_tx_empties:
  "unat tid < length (bk_connections b) \<Longrightarrow> tq_count (cn_tx (conn (purge_tx_queue tid b) tid)) = 0
     \<and> length (bk_connections (purge_tx_queue tid b)) = length (bk_connections b)
     \<and> (\<exists>tx. conn (purge_tx_queue tid b) tid = (conn b tid)\<lparr>cn_tx := tx\<rparr>)"
  unfolding purge_tx_queue_def by (rule purge_loop_count) simp_all

text \<open>The state of a connection that was closed.\<close>

definition conn_closed :: "ConnectionSlot \<Rightarrow> bool" where
  "conn_closed c \<longleftrightarrow> \<not> cn_in_use c \<and> cn_session c = NULL_SESSION \<and> tq_count (cn_tx c) = 0
     \<and> \<not> (tr_close_conn (cn_transport c) \<and> tr_active (cn_transport c))"

lemma disconnect_closes:
  assumes inv: "broker_inv L b" and tid: "unat tid < MaxTcpClients L" and use: "cn_in_use (conn b tid)"
    and r: "disconnect_transport n tid slow b = Some b'"
  shows "conn_closed (conn b' tid)"
proof -
  obtain m where n: "n = Suc m" using r by (cases n) auto
  let ?b1 = "purge_tx_queue tid b"
  let ?r = "case session_record ?b1 (cn_session (conn ?b1 tid)) of None \<Rightarrow> Some ?b1
     | Some i \<Rightarrow> if sn_state (sess ?b1 i) = Connected then drop_session (disconnect_transport m) slow i ?b1 else Some ?b1"
  have lim: "max_clients b = MaxTcpClients L" using broker_inv_limits [OF inv] by simp
  obtain b2 where b2: "?r = Some b2" using r use tid lim by (cases ?r) (auto simp: n disconnect_body_def)
  have "broker_inv L ?b1" using inv by (rule keeps)
  then have "upholds (broker_inv L) ?r"
    by (auto simp: drop_session_inv disconnect_transport_safe split: option.split)
  with b2 have inv2: "broker_inv L b2" by simp
  then have len: "unat tid < length (bk_connections b2)" using tid by (simp add: broker_inv_def)
  let ?b3 = "purge_tx_queue tid (upd_conn tid (\<lambda>c. c\<lparr>cn_session := NULL_SESSION\<rparr>) b2)"
  let ?b4 = "if slow then bump mt_slow_consumer_disconnects_update ?b3 else ?b3"
  have p: "tq_count (cn_tx (conn ?b3 tid)) = 0" "unat tid < length (bk_connections ?b3)"
    "cn_session (conn ?b3 tid) = NULL_SESSION"
    using purge_tx_empties [of tid "upd_conn tid (\<lambda>c. c\<lparr>cn_session := NULL_SESSION\<rparr>) b2"] len
    by (auto simp: upd_conn_def)
  have c4: "bk_connections ?b4 = bk_connections ?b3" by (simp add: bump_def)
  have "b' = upd_conn tid (\<lambda>c. c\<lparr>cn_in_use := False\<rparr>) (close_transport tid ?b4)"
    using r use tid lim b2 by (simp add: n disconnect_body_def Let_def)
  then show ?thesis
    using p c4 by (auto simp: conn_closed_def close_transport_def Let_def upd_conn_def)
qed


definition alive_broker :: Broker where
  "alive_broker =
     upd_conn 0 (\<lambda>c. c\<lparr>cn_in_use := True, cn_session := \<lparr>slot = 0, generation = 1\<rparr>\<rparr>)
       (upd_sess 0 (\<lambda>s. s\<lparr>sn_state := Connected, sn_transport_id := 0, sn_keep_alive_sec := 10,
            sn_session_expiry_interval := 60\<rparr>)
         (Broker_new trap_limits))"

lemma alive_broker_facts:
  "broker_inv trap_limits alive_broker" "max_clients alive_broker = 1"
  "bk_sessions alive_broker = [(session_init trap_limits 0)\<lparr>sn_state := Connected, sn_transport_id := 0, sn_keep_alive_sec := 10,
     sn_session_expiry_interval := 60\<rparr>]"
  "cn_in_use (conn alive_broker 0)" "cn_session (conn alive_broker 0) = \<lparr>slot = 0, generation = 1\<rparr>"
  "tq_count (cn_tx (conn alive_broker 0)) = 0" "length (bk_connections alive_broker) = 1"
proof -
  have inv: "broker_inv trap_limits (Broker_new trap_limits)"
    by (rule broker_inv_new) (simp_all add: trap_limits_def broker_limits_host_def)
  show "broker_inv trap_limits alive_broker"
    unfolding alive_broker_def by (rule keeps_conn) (use inv in \<open>simp_all add: conn_ok_def\<close>)
qed (simp_all add: alive_broker_def Broker_new_def trap_limits_def broker_limits_host_def Let_def upd_conn_def upd_sess_def TxQueue_new_def)

lemmas alive_broker_simps = alive_broker_facts(2,3) alive_broker_facts(4-7) [simplified]


section \<open>Exactly once\<close>

text \<open>Claim C6. A QoS 2 message is routed at most once: after a PUBREL was handled, the same PUBREL again does
  nothing, neither a delivery nor an acknowledgement.\<close>

theorem pubrel_routes_once:
  assumes inv: "broker_inv L b" and s: "session_record b (session_for_transport b tid) = Some i"
    and r: "handle_pubrel (disconnect_transport n) tid pkt b = Some b'"
    and s': "session_record b' (session_for_transport b' tid) = Some i"
    and k: "unat (slot (sn_self (sess b' i))) < MaxTcpClients L"
  shows "handle_pubrel d tid pkt b' = Some b'"
proof (cases "pk_packet_id pkt = 0 \<or> ib_find (bk_inbound_qos2 b ! unat (slot (sn_self (sess b i)))) (pk_packet_id pkt) = None")
  case True
  then have "b' = b" using r s by (auto simp: handle_pubrel_def Let_def split: if_splits)
  with True s show ?thesis by (auto simp: handle_pubrel_def Let_def)
next
  case False
  let ?pid = "pk_packet_id pkt" let ?k = "unat (slot (sn_self (sess b i)))"
  obtain e where e: "ib_find (bk_inbound_qos2 b ! ?k) ?pid = Some e" using False by blast
  let ?p = "bk_inbound_qos2 b ! ?k ! e"
  obtain b1 where b1: "route_publish (disconnect_transport n) tid (InboundRef ?k e) (ii_qos ?p) (ii_retain ?p) (ii_payload ?p) (ii_payload_len ?p) b
      = Some b1"
    using r s e False by (auto simp: handle_pubrel_def Let_def)
  let ?k1 = "unat (slot (sn_self (sess b1 i)))"
  obtain ok t mp where rm: "ib_remove ?pid (bk_inbound_qos2 b1 ! ?k1) (bk_msg_pool b1) = (ok, t, mp)" by (rule prod_cases3)
  have inv1: "broker_inv L b1"
    using route_publish_inv [OF disconnect_transport_safe inv] b1 by (metis upholds_simps(2))
  have "b' = snd (send_pubcomp tid ?pid Success (b1\<lparr>bk_msg_pool := mp, bk_inbound_qos2 := (bk_inbound_qos2 b1)[?k1 := t]\<rparr>))"
    using r s e b1 rm False by (simp add: handle_pubrel_def Let_def)
  then have b': "bk_sessions b' = bk_sessions b1" "bk_inbound_qos2 b' = (bk_inbound_qos2 b1)[?k1 := t]"
    using send_ack_log [of encode_pubcomp tid ?pid Success "b1\<lparr>bk_msg_pool := mp, bk_inbound_qos2 := (bk_inbound_qos2 b1)[?k1 := t]\<rparr>"]
    by (auto simp: send_pubcomp_def)
  have k1: "?k1 < MaxTcpClients L" using k b' by simp
  then have "ib_inv (bk_inbound_qos2 b1 ! ?k1)" using inv1 by (auto simp: broker_inv_def list_all_length ib_ok_def)
  from ib_drop_effect [OF this, of ?pid] have "ib_get t ?pid = None"
    using rm by (simp add: ib_remove_drop)
  moreover have "bk_inbound_qos2 b' ! ?k1 = t" using b' k1 inv1 by (simp add: broker_inv_def)
  ultimately have "ib_find (bk_inbound_qos2 b' ! unat (slot (sn_self (sess b' i)))) ?pid = None"
    using b' by (simp add: ib_get_def)
  with s' show ?thesis by (simp add: handle_pubrel_def Let_def)
qed

theorem pubrel_routes_once_witness:
  "handle_pubrel (\<lambda>_ _ _. None) 0 (packet_init\<lparr>pk_type := Pubrel, pk_packet_id := 7\<rparr>) alive_broker = Some alive_broker"
proof -
  have s: "session_record alive_broker (session_for_transport alive_broker 0) = Some 0"
    by (simp add: session_record_def session_for_transport_def alive_broker_simps session_handle_valid_def session_init_def)
  have "bk_inbound_qos2 alive_broker = [replicate 8 ii_zero]"
    by (simp add: alive_broker_def Broker_new_def Let_def trap_limits_def broker_limits_host_def SessionInboundQoS2_new_def upd_conn_def upd_sess_def)
  then have r: "handle_pubrel (disconnect_transport 0) 0 (packet_init\<lparr>pk_type := Pubrel, pk_packet_id := 7\<rparr>) alive_broker = Some alive_broker"
    using s by (simp add: handle_pubrel_def alive_broker_simps session_init_def demo_publish_new)
  show ?thesis
    by (rule pubrel_routes_once [OF alive_broker_facts(1) s r s])
      (simp add: alive_broker_simps session_init_def trap_limits_def)
qed

section \<open>Messages for offline sessions\<close>

text \<open>Claim C37. Storing a message for an offline session leaks it: the router takes a reference for the queued
  copy and the queue takes another one, but emptying the queue gives back one only, so the message
  stays allocated with one reference more than before.\<close>

theorem offline_message_leaks:
  assumes inv: "broker_inv L b" and k: "unat sid < MaxTcpClients L"
    and th: "intern (deref b topic) (bk_topic_intern b) = (th, ti)" "topic_handle_valid ti th"
    and q: "oq_count (bk_offline_queues b ! unat sid) = 0" "0 < OfflineQueuePerClient L"
      "oq_entries (bk_offline_queues b ! unat sid) \<noteq> None"
    and m: "msg_valid (bk_msg_pool b) m" "unat (msg_ref_count (bk_msg_pool b) m) + 2 \<le> 65535"
  shows "let b1 = route_offline sid topic m qos retain b; b2 = drain_offline 1 (unat sid) b1 in
    oq_count (bk_offline_queues b1 ! unat sid) = 1 \<and> oq_count (bk_offline_queues b2 ! unat sid) = 0
    \<and> unat (msg_ref_count (bk_msg_pool b1) m) = unat (msg_ref_count (bk_msg_pool b) m) + 2
    \<and> unat (msg_ref_count (bk_msg_pool b2) m) = unat (msg_ref_count (bk_msg_pool b) m) + 1"
proof -
  let ?p = "bk_msg_pool b" let ?q = "bk_offline_queues b ! unat sid"
  have lim: "bk_limits b = L" by (rule broker_inv_limits [OF inv])
  have acq: "\<exists>p'. msg_acquire m p = (True, p')" if "msg_valid p m" "unat (msg_ref_count p m) < 65535" for p
    using that by (auto simp: msg_acquire_def msg_ref_count_def Let_def)
  obtain p1 where p1: "msg_acquire m ?p = (True, p1)" using acq m by force
  note e1 = msg_acquire_effect [OF p1]
  obtain p2 where p2: "msg_acquire m p1 = (True, p2)" using acq [of p1] e1 m by force
  note e2 = msg_acquire_effect [OF p2]
  obtain ti2 where t: "topic_acquire th ti = (True, ti2)" using th(2) by (simp add: topic_acquire_def)
  have "oq_ok L ?q" using inv k by (simp add: broker_inv_def list_all_length)
  with q obtain es where es: "oq_entries ?q = Some es" "length es = oq_depth ?q" "oq_depth ?q = OfflineQueuePerClient L"
      "oq_head ?q < oq_depth ?q" "oq_tail ?q = oq_head ?q"
    by (auto simp: oq_ok_def oq_inv_def)
  have len: "unat sid < length (bk_offline_queues b)" using inv k by (simp add: broker_inv_def)
  let ?pd = "pd_zero\<lparr>pd_message := m, pd_topic := th, pd_delivery_qos := qos, pd_retain_flag := retain\<rparr>"
  obtain q1 where q1: "oq_enqueue ?pd ?q = (True, q1)" "oq_count q1 = 1" "oq_peek q1 = Some ?pd"
    using es q by (simp add: oq_enqueue_def oq_peek_def)
  have b1: "route_offline sid topic m qos retain b
      = b\<lparr>bk_topic_intern := ti2, bk_msg_pool := p2, bk_offline_queues := (bk_offline_queues b)[unat sid := q1]\<rparr>"
    using th p1 p2 t q1 k lim by (simp add: route_offline_def enqueue_offline_def Let_def)
  have c: "unat (msg_ref_count p2 m) = unat (msg_ref_count ?p m) + 2" "msg_valid p2 m"
    using e1 e2 m by simp_all
  then have "unat (msg_ref_count (msg_release m p2) m) = unat (msg_ref_count ?p m) + 1"
    using msg_release_keep(2) [of p2 m m] by simp
  then show ?thesis
    using c q1 len by (simp add: b1 Let_def drop_refs_def oq_pop_def)
qed

theorem offline_message_leaks_witness:
  "let b1 = route_offline 0 (TextRef [116]) demo_message 1 False demo_broker; b2 = drain_offline 1 (unat (0 :: u16)) b1
   in oq_count (bk_offline_queues b2 ! unat (0 :: u16)) = 0 \<and> unat (msg_ref_count (bk_msg_pool b2) demo_message) = 2"
proof -
  have ti: "bk_topic_intern demo_broker = TopicInternPool_new 128 16384" "bk_offline_queues demo_broker
      = [OfflineQueue_new 16 (Some (replicate 16 pd_zero))]" "OfflineQueuePerClient trap_limits = 16"
    by (simp_all add: demo_broker_def Broker_new_def Let_def trap_limits_def broker_limits_host_def)
  have t: "topic_valid [116]" by code_simp
  obtain th p where n: "intern [116] (TopicInternPool_new 128 16384) = (th, p)" "topic_handle_valid p th"
    using sole_topic_intern(2) [OF sole_topic_new t] by (cases "intern [116] (TopicInternPool_new 128 16384)") simp
  have "let b1 = route_offline 0 (TextRef [116]) demo_message 1 False demo_broker; b2 = drain_offline 1 (unat (0 :: u16)) b1 in
    oq_count (bk_offline_queues b1 ! unat (0 :: u16)) = 1 \<and> oq_count (bk_offline_queues b2 ! unat (0 :: u16)) = 0
    \<and> unat (msg_ref_count (bk_msg_pool b1) demo_message) = unat (msg_ref_count (bk_msg_pool demo_broker) demo_message) + 2
    \<and> unat (msg_ref_count (bk_msg_pool b2) demo_message) = unat (msg_ref_count (bk_msg_pool demo_broker) demo_message) + 1"
    by (rule offline_message_leaks [OF demo_broker_facts(1), where th = th and ti = p])
      (use n in \<open>simp_all add: demo_broker_facts ti deref_def OfflineQueue_new_def\<close>)
  then show ?thesis by (simp add: demo_broker_facts Let_def)
qed

end
