(* ===== verification/Auth_Store.thy ===== *)
theory Auth_Store
  imports Broker_Props
begin

text \<open>
  The credential store of the device (\<open>mqtt_auth_store.cpp\<close>) and the check that the server installs in
  the broker (\<open>broker_auth_check\<close> of \<open>broker_server.cpp\<close>).

  The table is the list of the first \<open>gUserCount\<close> entries of the array; what lies behind is never
  read. SHA-256 (\<open>sha\<close>), the random bytes (\<open>rnd\<close>), the representation of 32-bit numbers
  in memory (\<open>w32\<close>, \<open>r32\<close>) and the results of the file system calls (\<open>FsResults\<close>) are
  parameters. The image is the sequence of bytes that is passed to \<open>fs_write\<close>. A record has no padding
  (32, 16 and 32 bytes), and a name without terminator runs on into the salt.
\<close>

section \<open>State\<close>

definition kMqttAuthMaxUsers :: nat where "kMqttAuthMaxUsers = 16"
definition kMqttAuthMaxUserLen :: nat where "kMqttAuthMaxUserLen = 32"
definition kSaltLen :: nat where "kSaltLen = 16"
definition kHashLen :: nat where "kHashLen = 32"
definition kAuthFileMagic :: u32 where "kAuthFileMagic = 0x4D515541"
definition kAuthFileVersion :: u32 where "kAuthFileVersion = 1"

record AuthRecord =
  au_username :: "byte list"
  au_salt :: "byte list"
  au_hash :: "byte list"

record AuthFileHeader =
  ah_magic :: u32
  ah_version :: u32
  ah_count :: u32

text \<open>The C string that starts at the field \<open>username\<close>.\<close>

definition au_name :: "AuthRecord \<Rightarrow> byte list" where
  "au_name r = cstr (au_username r @ au_salt r @ au_hash r)"

section \<open>Operations\<close>

definition hash_password :: "(byte list \<Rightarrow> byte list) \<Rightarrow> byte list \<Rightarrow> byte list option \<Rightarrow> byte list" where
  "hash_password sha salt password = sha (salt @ (case password of None \<Rightarrow> [] | Some pw \<Rightarrow> pw))"

definition find_user :: "AuthRecord list \<Rightarrow> byte list \<Rightarrow> nat option" where
  "find_user users username = first_idx (\<lambda>r. au_name r = username) users"

text \<open>The bytes that are passed to \<open>fs_write\<close>, and the result from the results of the calls.\<close>

definition header_bytes :: "(u32 \<Rightarrow> byte list) \<Rightarrow> AuthFileHeader \<Rightarrow> byte list" where
  "header_bytes w32 h = w32 (ah_magic h) @ w32 (ah_version h) @ w32 (ah_count h)"

definition record_bytes :: "AuthRecord \<Rightarrow> byte list" where
  "record_bytes r = au_username r @ au_salt r @ au_hash r"

record FsResults =
  fs_opened :: bool
  fs_wrote_header :: int
  fs_wrote_records :: int

definition save_store_locked ::
  "(u32 \<Rightarrow> byte list) \<Rightarrow> FsResults \<Rightarrow> AuthRecord list \<Rightarrow> bool \<times> byte list"
where
  "save_store_locked w32 fs users =
     (let hdr = header_bytes w32 \<lparr>ah_magic = kAuthFileMagic, ah_version = kAuthFileVersion,
            ah_count = of_nat (length users)\<rparr>;
          recs = concat (map record_bytes users);
          ok = (fs_wrote_header fs = int (length hdr))
      in if \<not> fs_opened fs then (False, [])
         else if ok \<and> users \<noteq> [] then (fs_wrote_records fs = int (length recs), hdr @ recs)
         else (ok, hdr))"

primrec split_records :: "nat \<Rightarrow> byte list \<Rightarrow> AuthRecord list" where
  "split_records 0 bs = []"
| "split_records (Suc n) bs =
     \<lparr>au_username = slice 0 32 bs, au_salt = slice 32 16 bs, au_hash = slice 48 32 bs\<rparr>
       # split_records n (drop 80 bs)"

text \<open>\<open>None\<close>: the file does not exist. Both reads take what is there, up to the requested length.\<close>

definition MqttAuthStoreInit :: "(byte list \<Rightarrow> u32) \<Rightarrow> byte list option \<Rightarrow> AuthRecord list" where
  "MqttAuthStoreInit r32 file =
     (case file of
        None \<Rightarrow> []
      | Some bs \<Rightarrow>
          let hdr = \<lparr>ah_magic = r32 (slice 0 4 bs), ah_version = r32 (slice 4 4 bs), ah_count = r32 (slice 8 4 bs)\<rparr>;
              bytes = 80 * unat (ah_count hdr)
          in if length (take 12 bs) \<noteq> 12 \<or> ah_magic hdr \<noteq> kAuthFileMagic \<or> ah_version hdr \<noteq> kAuthFileVersion
                \<or> unat (ah_count hdr) > kMqttAuthMaxUsers then []
             else if bytes > 0 \<and> length (slice 12 bytes bs) \<noteq> bytes then []
             else split_records (unat (ah_count hdr)) (drop 12 bs))"

definition new_record :: "byte list \<Rightarrow> AuthRecord" where
  "new_record username = \<lparr>au_username = take 31 username @ replicate (32 - length (take 31 username)) 0,
     au_salt = replicate 16 0, au_hash = replicate 32 0\<rparr>"

definition set_password ::
  "(byte list \<Rightarrow> byte list) \<Rightarrow> (nat \<Rightarrow> byte) \<Rightarrow> byte list \<Rightarrow> AuthRecord \<Rightarrow> AuthRecord"
where
  "set_password sha rnd password r =
     (let salt = map rnd [0..<kSaltLen]
      in r\<lparr>au_salt := salt, au_hash := hash_password sha salt (Some password)\<rparr>)"

definition MqttAuthSetUser ::
  "(byte list \<Rightarrow> byte list) \<Rightarrow> (nat \<Rightarrow> byte) \<Rightarrow> (u32 \<Rightarrow> byte list) \<Rightarrow> FsResults
     \<Rightarrow> byte list option \<Rightarrow> byte list option \<Rightarrow> AuthRecord list \<Rightarrow> bool \<times> AuthRecord list"
where
  "MqttAuthSetUser sha rnd w32 fs username password users =
     (case (username, password) of
        (Some u, Some pw) \<Rightarrow>
          if u = [] \<or> length u \<ge> kMqttAuthMaxUserLen then (False, users)
          else
            let stored = (\<lambda>us. (fst (save_store_locked w32 fs us), us)) in
            (case find_user users u of
               Some idx \<Rightarrow> stored (users[idx := set_password sha rnd pw (users ! idx)])
             | None \<Rightarrow>
                 if length users \<ge> kMqttAuthMaxUsers then (False, users)
                 else stored (users @ [set_password sha rnd pw (new_record u)]))
      | _ \<Rightarrow> (False, users))"

definition MqttAuthDeleteUser ::
  "(u32 \<Rightarrow> byte list) \<Rightarrow> FsResults \<Rightarrow> byte list option \<Rightarrow> AuthRecord list \<Rightarrow> bool \<times> AuthRecord list"
where
  "MqttAuthDeleteUser w32 fs username users =
     (case username of
        None \<Rightarrow> (False, users)
      | Some u \<Rightarrow>
          if u = [] then (False, users)
          else case find_user users u of
              None \<Rightarrow> (False, users)
            | Some idx \<Rightarrow>
                let us = take idx users @ drop (idx + 1) users
                in (fst (save_store_locked w32 fs us), us))"

text \<open>The comparison that does not stop at the first difference.\<close>

definition bytes_diff :: "byte list \<Rightarrow> byte list \<Rightarrow> byte" where
  "bytes_diff xs ys = fold (\<lambda>i diff. diff OR (xs ! i XOR ys ! i)) [0..<kHashLen] 0"

definition MqttAuthVerify ::
  "(byte list \<Rightarrow> byte list) \<Rightarrow> AuthRecord list \<Rightarrow> byte list option \<Rightarrow> byte list option \<Rightarrow> bool"
where
  "MqttAuthVerify sha users username password =
     (case username of
        None \<Rightarrow> False
      | Some u \<Rightarrow>
          if u = [] then False
          else case find_user users u of
              None \<Rightarrow> False
            | Some idx \<Rightarrow>
                bytes_diff (hash_password sha (au_salt (users ! idx)) password) (au_hash (users ! idx)) = 0)"

definition MqttAuthUserCount :: "AuthRecord list \<Rightarrow> nat" where
  "MqttAuthUserCount users = length users"

definition MqttAuthUserAt :: "AuthRecord list \<Rightarrow> int \<Rightarrow> nat \<Rightarrow> byte list option" where
  "MqttAuthUserAt users index out_len =
     (if out_len = 0 then None
      else if index < 0 \<or> index \<ge> int (length users) then None
      else Some (take (out_len - 1) (au_name (users ! nat index))))"

text \<open>The check that the server installs, with the two settings it reads.\<close>

definition broker_auth_check ::
  "(byte list \<Rightarrow> byte list) \<Rightarrow> bool \<Rightarrow> bool \<Rightarrow> AuthRecord list
     \<Rightarrow> byte list \<Rightarrow> byte list option \<Rightarrow> byte list option \<Rightarrow> nat \<Rightarrow> ReasonCode"
where
  "broker_auth_check sha auth_required allow_anonymous users client_id username password password_len =
     (if \<not> auth_required then Success
      else if username = None \<or> username = Some [] then (if allow_anonymous then Success else NotAuthorized)
      else if MqttAuthVerify sha users username password then Success
      else BadUserNameOrPassword)"

section \<open>The table of users\<close>

definition record_ok :: "AuthRecord \<Rightarrow> bool" where
  "record_ok r \<longleftrightarrow> length (au_username r) = 32 \<and> length (au_salt r) = 16 \<and> length (au_hash r) = 32
     \<and> 0 \<in> set (au_username r) \<and> au_name r \<noteq> []"

definition auth_inv :: "AuthRecord list \<Rightarrow> bool" where
  "auth_inv users \<longleftrightarrow> length users \<le> kMqttAuthMaxUsers \<and> list_all record_ok users \<and> distinct (map au_name users)"

lemma au_name_user: "0 \<in> set (au_username r) \<Longrightarrow> au_name r = cstr (au_username r)"
  unfolding au_name_def cstr_def by (rule takeWhile_append1) simp_all

lemma new_record_ok:
  assumes "u \<noteq> []" and "length u < 32" and "no_nul u" and "length (sha (map rnd [0..<kSaltLen] @ pw)) = 32"
  shows "record_ok (set_password sha rnd pw (new_record u))" and "au_name (set_password sha rnd pw (new_record u)) = u"
proof -
  let ?r = "set_password sha rnd pw (new_record u)"
  have un: "au_username ?r = u @ replicate (32 - length u) 0"
    using assms(2) by (simp add: set_password_def new_record_def Let_def)
  have "replicate (32 - length u) (0 :: byte) = 0 # replicate (31 - length u) 0"
    using assms(2) by (cases "32 - length u") (auto simp: Suc_diff_le diff_Suc split: nat.splits)
  then show n: "au_name ?r = u" using assms by (simp add: au_name_def un)
  show "record_ok ?r"
    using assms un n by (simp add: record_ok_def) (simp add: set_password_def hash_password_def Let_def kSaltLen_def)
qed

lemma set_password_ok:
  assumes "record_ok r" and "length (sha (map rnd [0..<kSaltLen] @ pw)) = 32"
  shows "record_ok (set_password sha rnd pw r)" and "au_name (set_password sha rnd pw r) = au_name r"
proof -
  have z: "0 \<in> set (au_username r)" using assms by (simp add: record_ok_def)
  then show "au_name (set_password sha rnd pw r) = au_name r"
    by (simp add: au_name_user set_password_def Let_def)
  then show "record_ok (set_password sha rnd pw r)"
    using assms by (simp add: record_ok_def) (simp add: set_password_def hash_password_def Let_def kSaltLen_def)
qed

lemma bytes_diff_0:
  assumes "length xs = 32" and "length ys = 32"
  shows "bytes_diff xs ys = 0 \<longleftrightarrow> xs = ys"
proof -
  have "fold (\<lambda>i diff. diff OR (xs ! i XOR ys ! i)) is d = 0 \<longleftrightarrow> d = 0 \<and> (\<forall>i \<in> set is. xs ! i = ys ! i)" for "is" d
  proof (induction "is" arbitrary: d)
    case (Cons i "is")
    have "x XOR y = 0 \<longleftrightarrow> x = y" for x y :: byte by (metis bit.xor_cancel_right bit.xor_self xor.left_neutral xor.assoc)
    then show ?case by (auto simp: Cons or_eq_0_iff)
  qed simp
  then show ?thesis using assms by (auto simp: bytes_diff_def kHashLen_def list_eq_iff_nth_eq)
qed

lemma find_user_Some:
  assumes "auth_inv users"
  shows "find_user users u = Some i \<longleftrightarrow> i < length users \<and> au_name (users ! i) = u"
proof
  assume "i < length users \<and> au_name (users ! i) = u"
  with assms show "find_user users u = Some i"
    unfolding find_user_def by (intro first_idx_unique) (auto simp: auth_inv_def distinct_conv_nth)
qed (auto simp: find_user_def)

lemma find_user_None: "find_user users u = None \<longleftrightarrow> u \<notin> au_name ` set users"
  by (auto simp: find_user_def first_idx_None_iff)

text \<open>The credentials of a user, as a partial map: what the table means.\<close>

definition credentials :: "AuthRecord list \<Rightarrow> byte list \<Rightarrow> (byte list \<times> byte list) option" where
  "credentials users u = map_option (\<lambda>i. (au_salt (users ! i), au_hash (users ! i))) (find_user users u)"

lemma credentials_Some:
  assumes "auth_inv users"
  shows "credentials users u = Some c \<longleftrightarrow> (\<exists>r \<in> set users. au_name r = u \<and> c = (au_salt r, au_hash r))"
  by (auto simp: credentials_def find_user_Some [OF assms] intro: nth_mem dest!: in_set_conv_nth [THEN iffD1])

lemma credentials_eqI:
  assumes "auth_inv users" and "auth_inv users'"
    and "\<And>r. au_name r \<noteq> u \<Longrightarrow> r \<in> set users' \<longleftrightarrow> r \<in> set users" and "credentials users' u = x"
  shows "credentials users' = (credentials users)(u := x)"
proof
  fix v
  have "credentials users' v = Some c \<longleftrightarrow> credentials users v = Some c" if "v \<noteq> u" for c
    unfolding credentials_Some [OF assms(1)] credentials_Some [OF assms(2)] using that assms(3) by blast
  then have "v \<noteq> u \<Longrightarrow> credentials users' v = credentials users v" by (metis not_Some_eq)
  with assms(4) show "credentials users' v = ((credentials users)(u := x)) v" by simp
qed

lemma set_user_effect:
  assumes inv: "auth_inv users" and u: "u \<noteq> []" "length u < 32" "no_nul u"
    and room: "find_user users u \<noteq> None \<or> length users < kMqttAuthMaxUsers"
    and sha: "\<And>x. length (sha x) = 32"
    and r: "MqttAuthSetUser sha rnd w32 fs (Some u) (Some pw) users = (ok, users')"
  shows "auth_inv users' \<and> credentials users' = (credentials users)(u \<mapsto> (map rnd [0..<kSaltLen], sha (map rnd [0..<kSaltLen] @ pw)))"
proof (cases "find_user users u")
  case (Some i)
  let ?n = "set_password sha rnd pw (users ! i)"
  have i: "i < length users" "au_name (users ! i) = u" using Some find_user_Some [OF inv] by auto
  have us: "users' = users[i := ?n]" using r u Some by (simp add: MqttAuthSetUser_def Let_def kMqttAuthMaxUserLen_def)
  have "record_ok (users ! i)" using inv i by (simp add: auth_inv_def list_all_length)
  note n = set_password_ok [where sha = sha and rnd = rnd and pw = pw, OF this sha]
  have "map au_name users' = map au_name users"
    using n(2) i by (intro nth_equalityI) (auto simp: us nth_upd)
  then have inv': "auth_inv users'"
    using inv n(1) by (auto simp: auth_inv_def us list_all_iff dest: in_set_upd)
  have "r' \<in> set users' \<longleftrightarrow> r' \<in> set users" if "au_name r' \<noteq> u" for r'
  proof
    assume "r' \<in> set users'"
    with that i n(2) show "r' \<in> set users" by (auto simp: us dest!: in_set_upd)
  next
    assume "r' \<in> set users"
    then obtain j where "j < length users" "users ! j = r'" by (auto simp: in_set_conv_nth)
    with that i show "r' \<in> set users'" by (auto simp: us in_set_conv_nth nth_upd intro!: exI [of _ j])
  qed
  moreover have "credentials users' u = Some (map rnd [0..<kSaltLen], sha (map rnd [0..<kSaltLen] @ pw))"
    unfolding credentials_Some [OF inv']
    by (rule bexI [of _ ?n]) (use i n in \<open>simp_all add: us set_update_memI\<close>,
      simp add: set_password_def hash_password_def Let_def)
  ultimately show ?thesis using inv inv' by (intro conjI credentials_eqI)
next
  case None
  let ?n = "set_password sha rnd pw (new_record u)"
  have len: "length users < kMqttAuthMaxUsers" using room None by simp
  have us: "users' = users @ [?n]" using r u None len by (simp add: MqttAuthSetUser_def Let_def kMqttAuthMaxUserLen_def)
  note n = new_record_ok [where sha = sha and rnd = rnd and pw = pw, OF u sha]
  have inv': "auth_inv users'"
    using inv n None len by (auto simp: auth_inv_def us find_user_None)
  have "r' \<in> set users' \<longleftrightarrow> r' \<in> set users" if "au_name r' \<noteq> u" for r'
    using that n by (auto simp: us)
  moreover have "credentials users' u = Some (map rnd [0..<kSaltLen], sha (map rnd [0..<kSaltLen] @ pw))"
    unfolding credentials_Some [OF inv']
    by (rule bexI [of _ ?n]) (use n in \<open>simp_all add: us\<close>, simp add: set_password_def hash_password_def Let_def)
  ultimately show ?thesis using inv inv' by (intro conjI credentials_eqI)
qed

lemma delete_user_effect:
  assumes inv: "auth_inv users" and u: "u \<noteq> []"
    and r: "MqttAuthDeleteUser w32 fs (Some u) users = (ok, users')"
  shows "auth_inv users' \<and> credentials users' = (credentials users)(u := None)"
proof (cases "find_user users u")
  case (Some i)
  have i: "i < length users" "au_name (users ! i) = u" using Some find_user_Some [OF inv] by auto
  have us: "users' = take i users @ drop (Suc i) users" using r u Some by (simp add: MqttAuthDeleteUser_def Let_def)
  have sp: "users = take i users @ users ! i # drop (Suc i) users" using i by (simp add: id_take_nth_drop)
  have d: "distinct (map au_name (take i users @ users ! i # drop (Suc i) users))"
    using inv sp by (simp add: auth_inv_def)
  have inv': "auth_inv users'"
    using inv d i by (auto simp: auth_inv_def us list_all_iff dest: in_set_takeD in_set_dropD)
  have "r' \<in> set users' \<longleftrightarrow> r' \<in> set users" if "au_name r' \<noteq> u" for r'
  proof -
    have "set users = set users' \<union> {users ! i}" by (subst sp) (auto simp: us)
    with that i show ?thesis by auto
  qed
  moreover have "u \<notin> au_name ` set users'" using d i by (auto simp: us)
  then have "credentials users' u = None" by (simp add: credentials_def find_user_None [symmetric])
  ultimately show ?thesis using inv inv' by (intro conjI credentials_eqI)
next
  case None
  then have "credentials users u = None" by (simp add: credentials_def)
  then have "(credentials users)(u := None) = credentials users" by auto
  with None r u inv show ?thesis by (simp add: MqttAuthDeleteUser_def)
qed

lemma verify_credentials:
  assumes inv: "auth_inv users" and sha: "\<And>x. length (sha x) = 32"
  shows "MqttAuthVerify sha users (Some u) password \<longleftrightarrow>
    u \<noteq> [] \<and> (\<exists>salt hash. credentials users u = Some (salt, hash) \<and> hash_password sha salt password = hash)"
proof (cases "find_user users u")
  case (Some i)
  then have "record_ok (users ! i)" using inv find_user_Some [OF inv] by (auto simp: auth_inv_def list_all_length)
  then show ?thesis
    using Some sha by (simp add: MqttAuthVerify_def credentials_def bytes_diff_0 record_ok_def hash_password_def)
qed (simp add: MqttAuthVerify_def credentials_def)

text \<open>Claim C38. Setting a password takes effect at once and for that user only: afterwards a password is accepted for
  the user exactly when its salted hash is that of the new one (so the new password is), every other
  user's check is as before, and the table stays well formed. This holds whether or not the file
  could be written, which is all that the result of the call reports. After the user is deleted
  no password is accepted for that name.\<close>

theorem auth_set_verify:
  assumes inv: "auth_inv users" and u: "u \<noteq> []" "length u < 32" "no_nul u"
    and room: "find_user users u \<noteq> None \<or> length users < kMqttAuthMaxUsers"
    and sha: "\<And>x. length (sha x) = 32"
    and r: "MqttAuthSetUser sha rnd w32 fs (Some u) (Some pw) users = (ok, users')"
    and d: "MqttAuthDeleteUser w32 fs' (Some u) users' = (ok', users'')"
  shows "auth_inv users' \<and> auth_inv users''
    \<and> (MqttAuthVerify sha users' (Some u) (Some pw2) \<longleftrightarrow>
         sha (map rnd [0..<kSaltLen] @ pw2) = sha (map rnd [0..<kSaltLen] @ pw))
    \<and> (v \<noteq> u \<longrightarrow> MqttAuthVerify sha users' (Some v) pw3 = MqttAuthVerify sha users (Some v) pw3
        \<and> MqttAuthVerify sha users'' (Some v) pw3 = MqttAuthVerify sha users (Some v) pw3)
    \<and> \<not> MqttAuthVerify sha users'' (Some u) pw3"
proof -
  note s = set_user_effect [OF inv u room sha r]
  then have i': "auth_inv users'" by blast
  note e = delete_user_effect [OF i' u(1) d]
  then have i'': "auth_inv users''" by blast
  show ?thesis
    using s e u by (auto simp: verify_credentials [OF inv sha] verify_credentials [OF i' sha] verify_credentials [OF i'' sha] hash_password_def)
qed

text \<open>Claim C39. What is written to the flash file is read back as the same table when the device starts, on a
  machine whose representation of 32-bit numbers can be read back.\<close>

theorem auth_file_roundtrip:
  assumes inv: "auth_inv users" and w: "\<And>x. length (w32 x) = 4 \<and> r32 (w32 x) = x"
    and s: "save_store_locked w32 fs users = (True, img)"
  shows "MqttAuthStoreInit r32 (Some img) = users"
proof -
  have len: "length users \<le> 16" using inv by (simp add: auth_inv_def kMqttAuthMaxUsers_def)
  then have c: "unat (of_nat (length users) :: u32) = length users" by (simp add: unat_of_nat_u32)
  let ?h = "w32 kAuthFileMagic @ w32 kAuthFileVersion @ w32 (of_nat (length users))"
  let ?recs = "concat (map record_bytes users)"
  have img: "img = ?h @ ?recs"
    using s by (auto simp: save_store_locked_def header_bytes_def Let_def split: if_splits)
  have rl: "length (record_bytes r) = 80" if "r \<in> set users" for r
    using inv that by (auto simp: auth_inv_def list_all_iff record_ok_def record_bytes_def)
  have "split_records (length us) (concat (map record_bytes us) @ tl) = us" if "list_all record_ok us" for us tl
    using that
  proof (induction us)
    case (Cons r us)
    then have "length (au_username r) = 32" "length (au_salt r) = 16" "length (au_hash r) = 32"
      by (simp_all add: record_ok_def)
    with Cons show ?case by (simp add: record_bytes_def slice_def)
  qed simp
  from this [of users "[]"] have sp: "split_records (length users) ?recs = users"
    using inv by (simp add: auth_inv_def)
  have "length ?recs = 80 * length users"
  proof -
    have "\<forall>r \<in> set us. length (record_bytes r) = 80 \<Longrightarrow> length (concat (map record_bytes us)) = 80 * length us" for us
      by (induction us) auto
    with rl show ?thesis by blast
  qed
  then show ?thesis
    using w len c sp by (simp add: img MqttAuthStoreInit_def Let_def slice_def kMqttAuthMaxUsers_def)
qed

text \<open>Witnesses, with a function that stands for SHA-256 and big-endian numbers.\<close>

definition toy_sha :: "byte list \<Rightarrow> byte list" where
  "toy_sha bs = take 32 (rev bs @ replicate 32 0)"

definition fs_fine :: FsResults where
  "fs_fine = \<lparr>fs_opened = True, fs_wrote_header = 12, fs_wrote_records = 80\<rparr>"

definition bob_table :: "AuthRecord list" where
  "bob_table = snd (MqttAuthSetUser toy_sha (\<lambda>i. of_nat i) (\<lambda>x. write_u32_be x) fs_fine (Some (ascii ''bob'')) (Some [1, 2]) [])"

lemma toy_sha_length: "length (toy_sha x) = 32"
  by (simp add: toy_sha_def)

lemma bob_table_inv: "auth_inv bob_table"
proof -
  obtain ok where r: "MqttAuthSetUser toy_sha (\<lambda>i. of_nat i) (\<lambda>x. write_u32_be x) fs_fine (Some (ascii ''bob'')) (Some [1, 2]) [] = (ok, bob_table)"
    by (metis bob_table_def prod.collapse)
  have "ascii ''bob'' \<noteq> []" "length (ascii ''bob'') < 32" "no_nul (ascii ''bob'')" by code_simp+
  from set_user_effect [OF _ this _ toy_sha_length r] show ?thesis by (simp add: auth_inv_def kMqttAuthMaxUsers_def)
qed

theorem auth_set_verify_witness:
  "MqttAuthVerify toy_sha bob_table (Some (ascii ''bob'')) (Some [1, 2])
   \<and> \<not> MqttAuthVerify toy_sha (snd (MqttAuthDeleteUser write_u32_be fs_fine (Some (ascii ''bob'')) bob_table)) (Some (ascii ''bob'')) (Some [1, 2])"
proof -
  let ?u = "ascii ''bob''"
  obtain ok where r: "MqttAuthSetUser toy_sha (\<lambda>i. of_nat i) (\<lambda>x. write_u32_be x) fs_fine (Some ?u) (Some [1, 2]) [] = (ok, bob_table)"
    by (metis bob_table_def prod.collapse)
  obtain ok' us where d: "MqttAuthDeleteUser (\<lambda>x. write_u32_be x) fs_fine (Some ?u) bob_table = (ok', us)" by (rule prod.exhaust)
  have u: "?u \<noteq> []" "length ?u < 32" "no_nul ?u" by code_simp+
  have e: "auth_inv []" "find_user [] ?u \<noteq> None \<or> length ([] :: AuthRecord list) < kMqttAuthMaxUsers"
    by (simp_all add: auth_inv_def kMqttAuthMaxUsers_def)
  show ?thesis
    using auth_set_verify [OF e(1) u e(2) toy_sha_length r d, of "[1, 2]" ?u "Some [1, 2]"] d by simp
qed

theorem auth_file_roundtrip_witness:
  "\<exists>img. save_store_locked (\<lambda>x. write_u32_be x) fs_fine bob_table = (True, img)
     \<and> MqttAuthStoreInit read_u32_be (Some img) = bob_table \<and> bob_table \<noteq> []"
proof -
  have "fst (save_store_locked (\<lambda>x. write_u32_be x) fs_fine bob_table)" "bob_table \<noteq> []" by code_simp+
  then obtain img where s: "save_store_locked (\<lambda>x. write_u32_be x) fs_fine bob_table = (True, img)" by (metis prod.collapse)
  have "MqttAuthStoreInit read_u32_be (Some img) = bob_table"
    by (rule auth_file_roundtrip [OF bob_table_inv _ s]) simp
  with s \<open>bob_table \<noteq> []\<close> show ?thesis by blast
qed

section \<open>Authentication of a CONNECT\<close>


definition guarded_broker :: Broker where
  "guarded_broker = alive_broker\<lparr>bk_auth := Some (broker_auth_check toy_sha True False bob_table)\<rparr>"

lemma guarded_broker_facts:
  "bk_auth guarded_broker = Some (broker_auth_check toy_sha True False bob_table)" "max_clients guarded_broker = 1"
  "length (bk_connections guarded_broker) = 1" "tr_write (cn_transport (bk_connections guarded_broker ! 0)) = None"
  by (simp_all add: guarded_broker_def alive_broker_facts)
    (simp add: alive_broker_def upd_conn_def upd_sess_def Broker_new_def trap_limits_def Let_def transport_zero_def)


end
