(* ===== verification/Broker_Server.thy ===== *)
theory Broker_Server
  imports Auth_Store
begin

text \<open>
  The task of the device that drives the broker (\<open>broker_server.cpp\<close>) and the part of the settings it
  applies (\<open>clamp_policy_int\<close> and \<open>BrokerConfigApplyPolicy\<close> of \<open>broker_config.cpp\<close>).

  The answers of the operating system (\<open>Os\<close>) and the settings (\<open>Config\<close>) are parameters of each turn
  of the loop and may differ from turn to turn. A transport keeps the answers of the turn in which its client was
  accepted; since they may depend on all input and output so far, this is no restriction. A settings or account change
  takes effect between two turns. Not modelled: \<open>close\<close> of a socket, socket options,
  error flags of a descriptor, console output, and the critical section around the table (only this task uses it).
\<close>

section \<open>State and surroundings\<close>

datatype FdKind = FdNone | PlainListen | TlsListen | PlainClient | TlsClient

record FdSlot =
  fs_fd :: int
  fs_transport_id :: u16
  fs_kind :: FdKind

definition fd_slot_zero :: FdSlot where
  "fd_slot_zero = \<lparr>fs_fd = 0, fs_transport_id = 0, fs_kind = FdNone\<rparr>"

record Server =
  sv_broker :: Broker
  sv_fds :: "FdSlot list"
  sv_listen_fd :: int
  sv_tls_listen_fd :: int
  sv_active_port :: int
  sv_tls_active_port :: int
  sv_listener_active :: bool
  sv_tls_listener_active :: bool

text \<open>What the operating system answers during one turn of the task. The calls on a connection may
  depend on all input and output so far.\<close>

record Os =
  os_secs :: u32
  os_listen :: "int \<Rightarrow> int"
  os_accept :: "int \<Rightarrow> int"
  os_ssl_accept :: "int \<Rightarrow> int"
  os_haserror :: "int \<Rightarrow> bool"
  os_readable :: "int \<Rightarrow> bool"
  os_dataavail :: "io_log \<Rightarrow> int \<Rightarrow> bool"
  os_established :: "io_log \<Rightarrow> int \<Rightarrow> bool"
  os_read :: "io_log \<Rightarrow> int \<Rightarrow> nat \<Rightarrow> int \<times> byte list"
  os_writeavail :: "io_log \<Rightarrow> int \<Rightarrow> nat \<Rightarrow> bool"
  os_write :: "io_log \<Rightarrow> int \<Rightarrow> nat \<Rightarrow> byte list \<Rightarrow> int"

text \<open>The settings of \<open>broker_config.cpp\<close> and the state of the certificate.\<close>

record Config =
  cf_plain_enabled :: bool
  cf_plain_port :: int
  cf_tls_enabled :: bool
  cf_tls_port :: int
  cf_max_keep_alive_sec :: int
  cf_connect_handshake_timeout_sec :: int
  cf_cert_ready :: bool

definition kMaxFds :: "BrokerLimits \<Rightarrow> nat" where
  "kMaxFds L = MaxTcpClients L + 2"

definition Server_new :: "BrokerLimits \<Rightarrow> Server" where
  "Server_new L = \<lparr>sv_broker = Broker_new L, sv_fds = replicate (kMaxFds L) fd_slot_zero, sv_listen_fd = - 1,
     sv_tls_listen_fd = - 1, sv_active_port = 0, sv_tls_active_port = 0, sv_listener_active = False,
     sv_tls_listener_active = False\<rparr>"

section \<open>Transport callbacks\<close>

definition transport_read :: "Os \<Rightarrow> int \<Rightarrow> io_log \<Rightarrow> nat \<Rightarrow> int \<times> byte list" where
  "transport_read os fd log cap =
     (if \<not> os_dataavail os log fd then (- 1, []) else os_read os log fd cap)"

text \<open>A turn that does not return writes at least one byte: the length is enough fuel.\<close>

primrec write_loop :: "Os \<Rightarrow> int \<Rightarrow> io_log \<Rightarrow> byte list \<Rightarrow> nat \<Rightarrow> nat \<Rightarrow> int" where
  "write_loop os fd log data 0 off = int (length data)"
| "write_loop os fd log data (Suc fuel) off =
     (if \<not> off < length data then int (length data)
      else if \<not> os_writeavail os log fd off then int off
      else
        let n = os_write os log fd off (drop off data) in
        if n < 0 then (if off > 0 then int off else n)
        else if n = 0 then int off
        else write_loop os fd log data fuel (off + nat n))"

definition transport_write :: "Os \<Rightarrow> int \<Rightarrow> io_log \<Rightarrow> byte list \<Rightarrow> int" where
  "transport_write os fd log data = write_loop os fd log data (length data) 0"

definition client_transport :: "Os \<Rightarrow> int \<Rightarrow> BrokerTransport" where
  "client_transport os fd = \<lparr>tr_ctx = nat fd, tr_read = Some (transport_read os fd),
     tr_write = Some (transport_write os fd), tr_close_conn = True, tr_active = True\<rparr>"

section \<open>The table of descriptors\<close>

definition add_fd :: "int \<Rightarrow> u16 \<Rightarrow> FdKind \<Rightarrow> FdSlot list \<Rightarrow> bool \<times> FdSlot list" where
  "add_fd fd transport_id kind fds =
     (case first_idx (\<lambda>s. fs_fd s = 0) fds of
        Some i \<Rightarrow> (True, fds[i := \<lparr>fs_fd = fd, fs_transport_id = transport_id, fs_kind = kind\<rparr>])
      | None \<Rightarrow> (False, fds))"

definition remove_fd :: "int \<Rightarrow> FdSlot list \<Rightarrow> FdSlot list" where
  "remove_fd fd fds =
     (case first_idx (\<lambda>s. fs_fd s = fd) fds of
        Some i \<Rightarrow> fds[i := \<lparr>fs_fd = 0, fs_transport_id = 0xFFFF, fs_kind = FdNone\<rparr>]
      | None \<Rightarrow> fds)"

definition count_tls_clients :: "FdSlot list \<Rightarrow> nat" where
  "count_tls_clients fds = length (filter (\<lambda>s. fs_fd s > 0 \<and> fs_kind s = TlsClient) fds)"

definition is_client_kind :: "FdKind \<Rightarrow> bool" where
  "is_client_kind kind \<longleftrightarrow> kind = PlainClient \<or> kind = TlsClient"

definition drop_fd :: "int \<Rightarrow> Server \<Rightarrow> Server" where
  "drop_fd fd s = s\<lparr>sv_fds := remove_fd fd (sv_fds s)\<rparr>"

definition drain_slot :: "disconnector \<Rightarrow> nat \<Rightarrow> Server \<Rightarrow> Server option" where
  "drain_slot d i s =
     (let x = sv_fds s ! i in
      if fs_fd x > 0 \<and> is_client_kind (fs_kind x)
      then map_option (\<lambda>b.
             let s1 = s\<lparr>sv_broker := b\<rparr>
             in if \<not> transport_attached b (fs_transport_id x) then drop_fd (fs_fd x) s1 else s1)
           (drain_tx d (fs_transport_id x) (sv_broker s))
      else Some s)"

primrec drain_all_clients :: "disconnector \<Rightarrow> nat \<Rightarrow> Server \<Rightarrow> Server option" where
  "drain_all_clients d 0 s = Some s"
| "drain_all_clients d (Suc passes) s =
     (case fold_opt (drain_slot d) [0..<length (sv_fds s)] s of
        None \<Rightarrow> None
      | Some s1 \<Rightarrow> if \<not> has_pending_tx (sv_broker s1) then Some s1 else drain_all_clients d passes s1)"

section \<open>Listeners\<close>

definition close_listener :: "Server \<Rightarrow> Server" where
  "close_listener s =
     (if sv_listen_fd s \<le> 0 then s\<lparr>sv_listener_active := False, sv_active_port := 0\<rparr>
      else (drop_fd (sv_listen_fd s) s)\<lparr>sv_listen_fd := - 1, sv_active_port := 0, sv_listener_active := False\<rparr>)"

definition close_tls_listener :: "Server \<Rightarrow> Server" where
  "close_tls_listener s =
     (if sv_tls_listen_fd s \<le> 0 then s\<lparr>sv_tls_listener_active := False, sv_tls_active_port := 0\<rparr>
      else (drop_fd (sv_tls_listen_fd s) s)\<lparr>sv_tls_listen_fd := - 1, sv_tls_active_port := 0, sv_tls_listener_active := False\<rparr>)"

definition open_listener :: "Os \<Rightarrow> int \<Rightarrow> Server \<Rightarrow> Server" where
  "open_listener os port s =
     (let s1 = close_listener s; fd = os_listen os port in
      if fd \<le> 0 then s1
      else case add_fd fd 0xFFFF PlainListen (sv_fds s1) of
          (False, _) \<Rightarrow> s1
        | (True, fds) \<Rightarrow> s1\<lparr>sv_fds := fds, sv_listen_fd := fd, sv_active_port := port, sv_listener_active := True\<rparr>)"

definition open_tls_listener :: "Os \<Rightarrow> Config \<Rightarrow> int \<Rightarrow> Server \<Rightarrow> Server" where
  "open_tls_listener os cf port s =
     (let s1 = close_tls_listener s in
      if \<not> cf_cert_ready cf then s1
      else
        let fd = os_listen os port in
        if fd \<le> 0 then s1
        else case add_fd fd 0xFFFF TlsListen (sv_fds s1) of
            (False, _) \<Rightarrow> s1
          | (True, fds) \<Rightarrow> s1\<lparr>sv_fds := fds, sv_tls_listen_fd := fd, sv_tls_active_port := port,
              sv_tls_listener_active := True\<rparr>)"

definition sync_plain_listener :: "Os \<Rightarrow> Config \<Rightarrow> Server \<Rightarrow> Server" where
  "sync_plain_listener os cf s =
     (if \<not> cf_plain_enabled cf then (if sv_listen_fd s > 0 then close_listener s else s)
      else if sv_listen_fd s \<le> 0 \<or> cf_plain_port cf \<noteq> sv_active_port s then open_listener os (cf_plain_port cf) s
      else s)"

definition sync_tls_listener :: "Os \<Rightarrow> Config \<Rightarrow> Server \<Rightarrow> Server" where
  "sync_tls_listener os cf s =
     (if \<not> cf_tls_enabled cf then (if sv_tls_listen_fd s > 0 then close_tls_listener s else s)
      else if \<not> cf_cert_ready cf then (if sv_tls_listen_fd s > 0 then close_tls_listener s else s)
      else if sv_tls_listen_fd s \<le> 0 \<or> cf_tls_port cf \<noteq> sv_tls_active_port s
      then open_tls_listener os cf (cf_tls_port cf) s
      else s)"

definition clamp_policy_int :: "int \<Rightarrow> int \<Rightarrow> int" where
  "clamp_policy_int val compile_max =
     (if compile_max > 0 \<and> (val \<le> 0 \<or> val > compile_max) then compile_max else val)"

definition BrokerConfigApplyPolicy :: "Config \<Rightarrow> Broker \<Rightarrow> Broker" where
  "BrokerConfigApplyPolicy cf b =
     broker_set_policy \<lparr>max_keep_alive_sec = clamp_policy_int (cf_max_keep_alive_sec cf) (int (MaxKeepAliveSec (bk_limits b))),
       connect_handshake_timeout_sec = clamp_policy_int (cf_connect_handshake_timeout_sec cf)
         (int (ConnectHandshakeTimeoutSec (bk_limits b)))\<rparr> b"

definition sync_listeners :: "Os \<Rightarrow> Config \<Rightarrow> Server \<Rightarrow> Server" where
  "sync_listeners os cf s =
     sync_tls_listener os cf (sync_plain_listener os cf
       (s\<lparr>sv_broker := BrokerConfigApplyPolicy cf (sv_broker s)\<rparr>))"

section \<open>The task\<close>

definition attach_client :: "Os \<Rightarrow> int \<Rightarrow> FdKind \<Rightarrow> Server \<Rightarrow> bool \<times> Server" where
  "attach_client os client_fd kind s =
     (if kind = TlsClient \<and> count_tls_clients (sv_fds s) \<ge> MaxTlsClients (bk_limits (sv_broker s)) then (False, s)
      else
        let (tid, b) = attach_transport (client_transport os client_fd) (sv_broker s); s1 = s\<lparr>sv_broker := b\<rparr> in
        if tid = 0xFFFF then (False, s1)
        else let (ok, fds) = add_fd client_fd tid kind (sv_fds s1) in (ok, s1\<lparr>sv_fds := fds\<rparr>))"

text \<open>A listening socket: reopened after an error, otherwise at most one client is accepted.\<close>

definition serve_listener :: "Os \<Rightarrow> Config \<Rightarrow> int \<Rightarrow> FdKind \<Rightarrow> Server \<Rightarrow> Server" where
  "serve_listener os cf fd kind s =
     (if os_haserror os fd then
        (if kind = PlainListen then open_listener os (sv_active_port s) s
         else open_tls_listener os cf (sv_tls_active_port s) s)
      else if \<not> os_readable os fd then s
      else
        let client = (if kind = PlainListen then os_accept os fd else os_ssl_accept os fd)
        in if client > 0
           then snd (attach_client os client (if kind = PlainListen then PlainClient else TlsClient) s)
           else s)"

text \<open>The reads of one client, with the passes that are left.\<close>

primrec read_passes :: "disconnector \<Rightarrow> Os \<Rightarrow> int \<Rightarrow> u16 \<Rightarrow> nat \<Rightarrow> Broker \<Rightarrow> Broker option" where
  "read_passes d os fd tid 0 b = Some b"
| "read_passes d os fd tid (Suc n) b =
     (if os_dataavail os (bk_log b) fd \<and> transport_attached b tid
      then on_readable d tid b \<bind> read_passes d os fd tid n
      else Some b)"

definition serve_client :: "disconnector \<Rightarrow> Os \<Rightarrow> nat \<Rightarrow> int \<Rightarrow> u16 \<Rightarrow> Server \<Rightarrow> Server option" where
  "serve_client d os max_read_passes fd tid s = do {
     b1 \<leftarrow> read_passes d os fd tid max_read_passes (sv_broker s);
     b2 \<leftarrow> (if transport_attached b1 tid \<and> \<not> os_dataavail os (bk_log b1) fd \<and> \<not> os_established os (bk_log b1) fd
            then detach_transport d tid b1 else Some b1);
     let s1 = s\<lparr>sv_broker := b2\<rparr>;
     Some (if \<not> transport_attached b2 tid then drop_fd fd s1 else s1)
   }"

definition serve_slot :: "disconnector \<Rightarrow> Os \<Rightarrow> Config \<Rightarrow> nat \<Rightarrow> nat \<Rightarrow> Server \<Rightarrow> Server option" where
  "serve_slot d os cf max_read_passes i s =
     (let x = sv_fds s ! i in
      if fs_fd x \<le> 0 then Some s
      else if fs_kind x = PlainListen \<or> fs_kind x = TlsListen then Some (serve_listener os cf (fs_fd x) (fs_kind x) s)
      else serve_client d os max_read_passes (fs_fd x) (fs_transport_id x) s)"

text \<open>One turn of \<open>while (1)\<close>; the statistics line is left out.\<close>

definition server_turn :: "disconnector \<Rightarrow> Os \<Rightarrow> Config \<Rightarrow> Server \<Rightarrow> Server option" where
  "server_turn d os cf s =
     (let s1 = sync_listeners os cf s in do {
        b \<leftarrow> tick d (os_secs os) (sv_broker s1);
        let s2 = s1\<lparr>sv_broker := b\<rparr>;
        let tx_backlog = has_pending_tx b;
        let max_read_passes = (if tx_backlog then 16 else 64);
        let max_drain_passes = (if tx_backlog then 32 else 8);
        s3 \<leftarrow> (if tx_backlog then drain_all_clients d 1 s2 else Some s2);
        s4 \<leftarrow> fold_opt (serve_slot d os cf max_read_passes) [0..<length (sv_fds s3)] s3;
        drain_all_clients d max_drain_passes s4
      })"

text \<open>Start-up. The callback of the broker reads accounts and settings when it is called: \<open>auth\<close> is
  the callback with their contents during one turn.\<close>

definition BrokerServerInit :: "AuthCheckFn \<Rightarrow> Config \<Rightarrow> Server \<Rightarrow> Server" where
  "BrokerServerInit auth cf s =
     s\<lparr>sv_broker := broker_set_auth_handler (Some auth) (BrokerConfigApplyPolicy cf (sv_broker s))\<rparr>"

definition task_turn :: "disconnector \<Rightarrow> AuthCheckFn \<times> Os \<times> Config \<Rightarrow> Server \<Rightarrow> Server option" where
  "task_turn d t s =
     (case t of (auth, os, cf) \<Rightarrow> server_turn d os cf (s\<lparr>sv_broker := broker_set_auth_handler (Some auth) (sv_broker s)\<rparr>))"

text \<open>The task after a number of turns of its endless loop.\<close>

definition BrokerServerTask ::
  "disconnector \<Rightarrow> Os \<Rightarrow> Config \<Rightarrow> (AuthCheckFn \<times> Os \<times> Config) list \<Rightarrow> Server \<Rightarrow> Server option"
where
  "BrokerServerTask d os cf turns s = fold_opt (task_turn d) turns (sync_listeners os cf s)"

section \<open>The invariant of the server\<close>

definition sv_inv :: "BrokerLimits \<Rightarrow> Server \<Rightarrow> bool" where
  "sv_inv L s \<longleftrightarrow> broker_inv L (sv_broker s) \<and> length (sv_fds s) = kMaxFds L
     \<and> count_tls_clients (sv_fds s) \<le> MaxTlsClients L
     \<and> (sv_listener_active s \<longleftrightarrow> sv_listen_fd s > 0) \<and> (sv_tls_listener_active s \<longleftrightarrow> sv_tls_listen_fd s > 0)"

text \<open>Adding a descriptor of a kind that is not counted, or removing one, never adds a TLS client.\<close>

lemma tls_count_add:
  assumes "add_fd fd tid kind fds = (True, fds')"
  shows "length fds' = length fds" and "count_tls_clients fds' \<le> count_tls_clients fds + (if kind = TlsClient then 1 else 0)"
proof -
  obtain i where i: "first_idx (\<lambda>s. fs_fd s = 0) fds = Some i" "fds' = fds[i := \<lparr>fs_fd = fd, fs_transport_id = tid, fs_kind = kind\<rparr>]"
    using assms by (auto simp: add_fd_def split: option.splits)
  then show "length fds' = length fds" by simp
  have "i < length fds" "fs_fd (fds ! i) = 0" using i(1) by auto
  with i(2) show "count_tls_clients fds' \<le> count_tls_clients fds + (if kind = TlsClient then 1 else 0)"
    by (simp add: count_tls_clients_def length_filter_update)
qed

lemma tls_count_remove:
  "length (remove_fd fd fds) = length fds" "count_tls_clients (remove_fd fd fds) \<le> count_tls_clients fds"
proof -
  show "length (remove_fd fd fds) = length fds" by (simp add: remove_fd_def split: option.split)
  show "count_tls_clients (remove_fd fd fds) \<le> count_tls_clients fds"
    by (auto simp: remove_fd_def count_tls_clients_def length_filter_update split: option.split)
qed

lemma sv_inv_broker: "sv_inv L s \<Longrightarrow> broker_inv L b \<Longrightarrow> sv_inv L (s\<lparr>sv_broker := b\<rparr>)"
  by (simp add: sv_inv_def)

lemma sv_inv_drop: "sv_inv L s \<Longrightarrow> sv_inv L (drop_fd fd s)"
  using tls_count_remove [of fd "sv_fds s"] by (simp add: sv_inv_def drop_fd_def)

lemma sv_inv_close: "sv_inv L s \<Longrightarrow> sv_inv L (close_listener s)" "sv_inv L s \<Longrightarrow> sv_inv L (close_tls_listener s)"
  using sv_inv_drop [of L s] by (auto simp: close_listener_def close_tls_listener_def sv_inv_def drop_fd_def)

lemma sv_inv_open: "sv_inv L s \<Longrightarrow> sv_inv L (open_listener os port s)" "sv_inv L s \<Longrightarrow> sv_inv L (open_tls_listener os cf port s)"
proof -
  assume "sv_inv L s"
  note c = sv_inv_close [OF this]
  show "sv_inv L (open_listener os port s)"
    using c(1) tls_count_add [where fd = "os_listen os port" and tid = "0xFFFF" and kind = PlainListen and fds = "sv_fds (close_listener s)"]
    by (auto simp: open_listener_def Let_def sv_inv_def split: prod.split bool.split)
  show "sv_inv L (open_tls_listener os cf port s)"
    using c(2) tls_count_add [where fd = "os_listen os port" and tid = "0xFFFF" and kind = TlsListen and fds = "sv_fds (close_tls_listener s)"]
    by (auto simp: open_tls_listener_def Let_def sv_inv_def split: prod.split bool.split)
qed

lemma sv_inv_sync: "sv_inv L s \<Longrightarrow> sv_inv L (sync_listeners os cf s)"
proof -
  assume inv: "sv_inv L s"
  have "sv_inv L (s\<lparr>sv_broker := BrokerConfigApplyPolicy cf (sv_broker s)\<rparr>)"
    using inv by (simp add: sv_inv_def BrokerConfigApplyPolicy_def broker_set_policy_def)
  then have "sv_inv L (sync_plain_listener os cf (s\<lparr>sv_broker := BrokerConfigApplyPolicy cf (sv_broker s)\<rparr>))"
    by (simp add: sync_plain_listener_def sv_inv_close sv_inv_open)
  then show ?thesis
    by (simp add: sync_listeners_def sync_tls_listener_def sv_inv_close sv_inv_open)
qed

lemma sv_inv_attach: "sv_inv L s \<Longrightarrow> sv_inv L (snd (attach_client os fd kind s))"
proof -
  assume inv: "sv_inv L s"
  obtain tid b where a: "attach_transport (client_transport os fd) (sv_broker s) = (tid, b)" by (rule prod.exhaust)
  have b: "broker_inv L b" using inv keeps_attach [of L "sv_broker s" "client_transport os fd"] a by (simp add: sv_inv_def)
  obtain ok fds where f: "add_fd fd tid kind (sv_fds s) = (ok, fds)" by (rule prod.exhaust)
  have lim: "bk_limits (sv_broker s) = L" using inv by (simp add: sv_inv_def broker_inv_limits)
  show ?thesis
  proof (cases ok)
    case True
    with f tls_count_add [where fd = fd and tid = tid and kind = kind and fds = "sv_fds s" and fds' = fds] inv b lim show ?thesis
      by (auto simp: attach_client_def a Let_def sv_inv_def split: if_splits)
  next
    case False
    with f have "fds = sv_fds s" by (auto simp: add_fd_def split: option.splits)
    with f inv b show ?thesis by (auto simp: attach_client_def a Let_def sv_inv_def)
  qed
qed

lemma drain_all_inv:
  assumes d: "safe L d" shows "sv_inv L s \<Longrightarrow> upholds (sv_inv L) (drain_all_clients d n s)"
proof (induction n arbitrary: s)
  case (Suc n)
  have slot: "upholds (sv_inv L) (drain_slot d i s)" if "sv_inv L s" for i s
  proof -
    have "upholds (broker_inv L) (drain_tx d (fs_transport_id (sv_fds s ! i)) (sv_broker s))"
      using that by (intro drain_tx_inv [OF d]) (simp add: sv_inv_def)
    with that show ?thesis
      by (auto simp: drain_slot_def Let_def sv_inv_broker sv_inv_drop intro!: upholds_map)
  qed
  have "upholds (sv_inv L) (fold_opt (drain_slot d) [0..<length (sv_fds s)] s)"
    by (rule upholds_fold_opt [OF slot Suc.prems])
  then show ?case
    using Suc.IH by (cases "fold_opt (drain_slot d) [0..<length (sv_fds s)] s") simp_all
qed simp

lemma serve_client_inv:
  assumes d: "safe L d" and inv: "sv_inv L s"
  shows "upholds (sv_inv L) (serve_client d os n fd tid s)"
proof -
  have reads: "upholds (broker_inv L) (read_passes d os fd tid k b)" if "broker_inv L b" for k b
    using that
  proof (induction k arbitrary: b)
    case (Suc k)
    from upholds_bind [OF on_readable_inv [OF d Suc.prems] Suc.IH] Suc.prems show ?case by simp
  qed simp
  show ?thesis
    unfolding serve_client_def
  proof (rule upholds_bind)
    show "upholds (broker_inv L) (read_passes d os fd tid n (sv_broker s))"
      using inv by (intro reads) (simp add: sv_inv_def)
    fix b1 assume b1: "broker_inv L b1"
    show "upholds (sv_inv L) (do {
        b2 \<leftarrow> (if transport_attached b1 tid \<and> \<not> os_dataavail os (bk_log b1) fd \<and> \<not> os_established os (bk_log b1) fd
            then detach_transport d tid b1 else Some b1);
        let s1 = s\<lparr>sv_broker := b2\<rparr>;
        Some (if \<not> transport_attached b2 tid then drop_fd fd s1 else s1)})"
      by (rule upholds_bind [where Q = "broker_inv L"])
        (use b1 inv in \<open>auto simp: detach_transport_inv [OF d] Let_def sv_inv_broker sv_inv_drop\<close>)
  qed
qed

lemma serve_slot_inv: "safe L d \<Longrightarrow> sv_inv L s \<Longrightarrow> upholds (sv_inv L) (serve_slot d os cf n i s)"
  by (auto simp: serve_slot_def serve_listener_def Let_def sv_inv_open sv_inv_attach serve_client_inv)

lemma server_turn_inv:
  assumes d: "safe L d" and inv: "sv_inv L s"
  shows "upholds (sv_inv L) (server_turn d os cf s)"
proof -
  have s1: "sv_inv L (sync_listeners os cf s)" by (rule sv_inv_sync [OF inv])
  have rest: "upholds (sv_inv L) ((if c then drain_all_clients d 1 s2 else Some s2) \<bind>
      (\<lambda>s3. fold_opt (serve_slot d os cf n) [0..<length (sv_fds s3)] s3 \<bind> drain_all_clients d m))"
    if "sv_inv L s2" for c n m s2
  proof (rule upholds_bind)
    show "upholds (sv_inv L) (if c then drain_all_clients d 1 s2 else Some s2)"
      using that drain_all_inv [OF d that, of 1] by simp
  next
    fix s3 assume "sv_inv L s3"
    then show "upholds (sv_inv L) (fold_opt (serve_slot d os cf n) [0..<length (sv_fds s3)] s3 \<bind> drain_all_clients d m)"
      by (intro upholds_bind [where Q = "sv_inv L"] upholds_fold_opt serve_slot_inv [OF d] drain_all_inv [OF d])
  qed
  show ?thesis
    unfolding server_turn_def Let_def
    by (rule upholds_bind [OF tick_inv [OF d]])
      (use s1 rest in \<open>auto simp: sv_inv_def [of _ "sync_listeners os cf s"] sv_inv_broker [OF s1]\<close>)
qed

lemma sv_inv_new:
  assumes "0 < PayloadBlockSize L" and "PayloadBlockCount L \<le> 65535" and "PayloadSlotCount L \<le> 65535"
    and "PayloadBlockCount L * PayloadBlockSize L < 2 ^ 32" and "MaxTcpClients L \<le> 65535" and "MaxSubsTotal L \<le> 65535"
  shows "sv_inv L (Server_new L)"
  using broker_inv_new [OF assms] by (simp add: sv_inv_def Server_new_def count_tls_clients_def fd_slot_zero_def)

section \<open>Properties\<close>


text \<open>An operating system on which nothing happens.\<close>

definition quiet_os :: Os where
  "quiet_os = \<lparr>os_secs = 1, os_listen = (\<lambda>port. 5), os_accept = (\<lambda>fd. - 1), os_ssl_accept = (\<lambda>fd. - 1),
     os_haserror = (\<lambda>fd. False), os_readable = (\<lambda>fd. False), os_dataavail = (\<lambda>log fd. False),
     os_established = (\<lambda>log fd. True), os_read = (\<lambda>log fd n. (0, [])), os_writeavail = (\<lambda>log fd off. False),
     os_write = (\<lambda>log fd off bs. 0)\<rparr>"

definition plain_config :: Config where
  "plain_config = \<lparr>cf_plain_enabled = True, cf_plain_port = 1883, cf_tls_enabled = False, cf_tls_port = 8883,
     cf_max_keep_alive_sec = 30, cf_connect_handshake_timeout_sec = 15, cf_cert_ready = False\<rparr>"

text \<open>The server that listens and has no client.\<close>

definition idle_server :: "BrokerPolicy \<Rightarrow> AuthCheckFn \<Rightarrow> u32 \<Rightarrow> Server" where
  "idle_server p auth now = (Server_new trap_limits)\<lparr>
     sv_broker := (Broker_new trap_limits)\<lparr>bk_policy := p, bk_auth := Some auth, bk_current_tick := now\<rparr>,
     sv_fds := [\<lparr>fs_fd = 5, fs_transport_id = 0xFFFF, fs_kind = PlainListen\<rparr>, fd_slot_zero, fd_slot_zero],
     sv_listen_fd := 5, sv_active_port := 1883, sv_listener_active := True\<rparr>"

lemma quiet_tick:
  "tick d 1 ((Broker_new trap_limits)\<lparr>bk_policy := p, bk_auth := a, bk_current_tick := now\<rparr>)
   = Some ((Broker_new trap_limits)\<lparr>bk_policy := p, bk_auth := a, bk_current_tick := 1\<rparr>)"
proof -
  let ?b = "(Broker_new trap_limits)\<lparr>bk_policy := p, bk_auth := a, bk_current_tick := 1\<rparr>"
  have f: "max_clients ?b = 1" "sn_state (sess ?b 0) = Empty" "\<not> cn_in_use (conn ?b 0)"
    "rs_entries (bk_retained ?b) = replicate 64 \<lparr>re_topic = NULL_TOPIC, re_message = NULL_MESSAGE, re_in_use = False\<rparr>"
    by (simp_all add: Broker_new_def trap_limits_def broker_limits_host_def Let_def session_init_def RetainedStore_new_def)
  have "retained_entry_at (bk_retained ?b) i = None" for i using f(4) by (simp add: retained_entry_at_def)
  then have "fold (\<lambda>ri b. case retained_entry_at (bk_retained b) ri of None \<Rightarrow> b | Some (th, m) \<Rightarrow>
      if message_expired b m then drop_retained th (bump mt_messages_expired_update b) else b) xs ?b = ?b" for xs
    by (induction xs) simp_all
  then have "sweep_expired_retained ?b = ?b" by (simp add: sweep_expired_retained_def)
  with f show ?thesis
    by (simp add: tick_def tick_offline_sessions_def tick_offline_session_def tick_connection_def Let_def)
qed

lemma policy_first:
  "b\<lparr>bk_auth := a, bk_policy := p\<rparr> = b\<lparr>bk_policy := p, bk_auth := a\<rparr>"
  "b\<lparr>bk_auth := a, bk_current_tick := t, bk_policy := p\<rparr> = b\<lparr>bk_policy := p, bk_auth := a, bk_current_tick := t\<rparr>"
  by (auto intro: Broker.equality)

lemma quiet_start:
  "\<exists>p. sync_listeners quiet_os plain_config (BrokerServerInit auth plain_config (Server_new trap_limits)) = idle_server p auth 0"
proof -
  have n: "kMaxFds trap_limits = 3" by (simp add: kMaxFds_def trap_limits_def)
  have t: "bk_current_tick (Broker_new trap_limits) = 0" by (simp add: Broker_new_def Let_def)
  show ?thesis
    by (simp add: sync_listeners_def sync_tls_listener_def plain_config_def sync_plain_listener_def Server_new_def n
        open_listener_def close_listener_def add_fd_def quiet_os_def fd_slot_zero_def numeral_3_eq_3 BrokerServerInit_def
        BrokerConfigApplyPolicy_def broker_set_policy_def broker_set_auth_handler_def idle_server_def
        t [symmetric] policy_first) blast
qed

lemma quiet_turn: "\<exists>p'. task_turn d (auth, quiet_os, plain_config) (idle_server p auth 0) = Some (idle_server p' auth 1)"
proof -
  have sync: "\<exists>p'. sync_listeners quiet_os plain_config (idle_server p auth 0) = idle_server p' auth 0"
    by (simp add: sync_listeners_def sync_tls_listener_def plain_config_def sync_plain_listener_def idle_server_def Server_new_def
        BrokerConfigApplyPolicy_def broker_set_policy_def policy_first) blast
  then obtain p' where p': "sync_listeners quiet_os plain_config (idle_server p auth 0) = idle_server p' auth 0" by blast
  let ?s = "idle_server p' auth 1"
  have fds: "sv_fds ?s = [\<lparr>fs_fd = 5, fs_transport_id = 0xFFFF, fs_kind = PlainListen\<rparr>, fd_slot_zero, fd_slot_zero]"
    and tx: "\<not> has_pending_tx (sv_broker ?s)"
    by (simp_all add: idle_server_def has_pending_tx_def Broker_new_def Let_def)
  have serve: "fold_opt (serve_slot d quiet_os plain_config k) [0..<length (sv_fds ?s)] ?s = Some ?s" for k
    using fds by (simp add: serve_slot_def serve_listener_def quiet_os_def fd_slot_zero_def upt_rec)
  have drain: "drain_all_clients d (Suc k) ?s = Some ?s" for k
    using fds tx by (simp add: drain_slot_def is_client_kind_def fd_slot_zero_def upt_rec)
  have tick: "tick d (os_secs quiet_os) (sv_broker (idle_server p' auth 0)) = Some (sv_broker ?s)"
    "idle_server p' auth 0\<lparr>sv_broker := sv_broker ?s\<rparr> = ?s"
    by (simp_all add: idle_server_def quiet_os_def quiet_tick)
  have "server_turn d quiet_os plain_config (idle_server p auth 0) = Some ?s"
    using p' tx serve drain [of 7] tick by (simp add: server_turn_def Let_def numeral_eq_Suc)
  moreover have "idle_server p auth 0\<lparr>sv_broker := broker_set_auth_handler (Some auth) (sv_broker (idle_server p auth 0))\<rparr> = idle_server p auth 0"
    by (simp add: idle_server_def broker_set_auth_handler_def)
  ultimately show ?thesis by (auto simp: task_turn_def)
qed


section \<open>Listeners\<close>

definition free_fds :: "FdSlot list \<Rightarrow> nat" where
  "free_fds fds = length (filter (\<lambda>s. fs_fd s = 0) fds)"

lemma add_fd_free:
  assumes "0 < free_fds fds" and "0 < fd"
  shows "\<exists>fds'. add_fd fd tid kind fds = (True, fds') \<and> free_fds fds = Suc (free_fds fds')"
proof -
  have "first_idx (\<lambda>s. fs_fd s = 0) fds \<noteq> None"
    using assms(1) by (auto simp: first_idx_None_iff free_fds_def filter_empty_conv)
  then obtain i where i: "first_idx (\<lambda>s. fs_fd s = 0) fds = Some i" by blast
  then have "i < length fds" "fs_fd (fds ! i) = 0" by auto
  with i assms show ?thesis by (simp add: add_fd_def free_fds_def length_filter_update)
qed

lemma remove_fd_free: "0 < fd \<Longrightarrow> free_fds fds \<le> free_fds (remove_fd fd fds)"
  by (auto simp: remove_fd_def free_fds_def length_filter_update split: option.split)

lemma close_free:
  "free_fds (sv_fds s) \<le> free_fds (sv_fds (close_listener s))" "free_fds (sv_fds s) \<le> free_fds (sv_fds (close_tls_listener s))"
  using remove_fd_free [of "sv_listen_fd s" "sv_fds s"] remove_fd_free [of "sv_tls_listen_fd s" "sv_fds s"]
  by (simp_all add: close_listener_def close_tls_listener_def drop_fd_def)

lemma open_free:
  assumes "0 < free_fds (sv_fds s)" and "0 < os_listen os port"
  shows "\<exists>fds. open_listener os port s = (close_listener s)\<lparr>sv_fds := fds, sv_listen_fd := os_listen os port,
      sv_active_port := port, sv_listener_active := True\<rparr> \<and> free_fds (sv_fds s) \<le> Suc (free_fds fds)"
    and "cf_cert_ready cf \<Longrightarrow> \<exists>fds. open_tls_listener os cf port s = (close_tls_listener s)\<lparr>sv_fds := fds, sv_tls_listen_fd := os_listen os port,
      sv_tls_active_port := port, sv_tls_listener_active := True\<rparr>"
proof -
  have "0 < free_fds (sv_fds (close_listener s))" "0 < free_fds (sv_fds (close_tls_listener s))"
    using assms(1) close_free [of s] by linarith+
  note a = this [THEN add_fd_free, OF assms(2)]
  show "\<exists>fds. open_listener os port s = (close_listener s)\<lparr>sv_fds := fds, sv_listen_fd := os_listen os port,
      sv_active_port := port, sv_listener_active := True\<rparr> \<and> free_fds (sv_fds s) \<le> Suc (free_fds fds)"
    using a(1) [of "0xFFFF" PlainListen] assms(2) close_free(1) [of s] by (auto simp: open_listener_def Let_def)
  show "\<exists>fds. open_tls_listener os cf port s = (close_tls_listener s)\<lparr>sv_fds := fds, sv_tls_listen_fd := os_listen os port,
      sv_tls_active_port := port, sv_tls_listener_active := True\<rparr>" if "cf_cert_ready cf"
    using a(2) [of "0xFFFF" TlsListen] assms(2) that by (auto simp: open_tls_listener_def Let_def)
qed

lemma close_other:
  "sv_tls_listen_fd (close_listener s) = sv_tls_listen_fd s" "sv_tls_active_port (close_listener s) = sv_tls_active_port s"
  "sv_tls_listener_active (close_listener s) = sv_tls_listener_active s"
  "sv_listen_fd (close_tls_listener s) = sv_listen_fd s" "sv_active_port (close_tls_listener s) = sv_active_port s"
  "sv_listener_active (close_tls_listener s) = sv_listener_active s"
  "\<not> sv_listener_active (close_listener s)" "\<not> sv_tls_listener_active (close_tls_listener s)"
  by (simp_all add: close_listener_def close_tls_listener_def drop_fd_def)



end
