(* ===== verification/Wire_Roundtrip.thy ===== *)
theory Wire_Roundtrip
  imports Parser_Inv Encode
begin

text \<open>
  The parser against the encoder: the bytes of a PUBLISH, as \<open>encode_publish\<close> lays them out, are read
  back by \<open>feed\<close> as the same packet, with the payload in the message pool. The packet is followed
  stage by stage: fixed header, remaining length, topic and packet identifier, properties, payload.
\<close>

section \<open>Stages\<close>

text \<open>All bytes of \<open>xs\<close> are consumed and lead from one state to the other.\<close>

definition reaches :: "BrokerLimits \<Rightarrow> byte list \<Rightarrow> parser_state \<Rightarrow> parser_state \<Rightarrow> bool" where
  "reaches L xs st st' \<longleftrightarrow> feed L xs st = (length xs, st')"

lemma reaches_Nil: "reaches L [] st st' \<longleftrightarrow> st' = st"
  by (auto simp: reaches_def)

lemma reaches_append: "reaches L xs st st' \<Longrightarrow> reaches L ys st' st'' \<Longrightarrow> reaches L (xs @ ys) st st''"
  by (simp add: reaches_def feed_append)

lemma reaches_byte:
  assumes "pa_phase (fst st) \<notin> {Complete, Error}"
  shows "reaches L [b] st (snd (consume_byte L b st))"
  using assms by (simp add: reaches_def feed_Cons del: feed.simps(2))

lemma reaches_Cons:
  assumes "pa_phase (fst st) \<notin> {Complete, Error}" and "reaches L xs (snd (consume_byte L b st)) st'"
  shows "reaches L (b # xs) st st'"
  using reaches_append [OF reaches_byte [OF assms(1)] assms(2)] by simp

section \<open>Fixed header and remaining length\<close>

lemma varint_prefix:
  assumes "varint_decode v = \<lparr>result = Ok, vvalue = x, bytes_consumed = length v\<rparr>" and "j < length v"
  shows "result (varint_decode (take j v)) = NeedMore"
proof -
  let ?P = "\<lambda>b :: byte. bit b 7"
  have n: "cont_prefix v \<noteq> 4" "length v = Suc (cont_prefix v)"
    using assms(1) varint_decode_cases [of v] by (simp_all add: Let_def split: if_splits)
  have le: "cont_prefix v \<le> 4"
    using length_takeWhile_le [of ?P "take 4 v"] by (simp add: cont_prefix_def)
  have j: "j \<le> cont_prefix v" "j < 4" using n le assms(2) by simp_all
  have t: "take j (take 4 v) = take j v" "take 4 (take j v) = take j v"
    using j by (simp_all add: min_def)
  have "take j (take 4 v) = take j (takeWhile ?P (take 4 v))"
    using j by (subst takeWhile_eq_take) (auto simp: cont_prefix_def min_def)
  then have "\<forall>b \<in> set (take j v). ?P b"
    unfolding t by (metis in_set_takeD set_takeWhileD)
  then have "takeWhile ?P (take j v) = take j v" by (simp only: takeWhile_eq_all_conv)
  then have "cont_prefix (take j v) = length (take j v)" by (simp only: cont_prefix_def t(2))
  then show ?thesis using varint_decode_cases [of "take j v"] j assms(2) by (simp add: Let_def)
qed

lemma varint4_prefix:
  "n \<le> 268435455 \<Longrightarrow> j < length (varint4 n) \<Longrightarrow> result (varint_decode (take j (varint4 n))) = NeedMore"
  using varint4_decode [of n "[]"] by (intro varint_prefix) simp_all

lemma reaches_remaining_length_prefix:
  assumes "n \<le> 268435455" and "pa_phase p = RemainingLength" and "pa_rl_buf p @ xs = take j (varint4 n)"
    and "j < length (varint4 n)"
  shows "reaches L xs (p, mp, pp) (p\<lparr>pa_rl_buf := pa_rl_buf p @ xs\<rparr>, mp, pp)"
  using assms(2,3)
proof (induction xs arbitrary: p)
  case Nil
  then show ?case by (simp add: reaches_Nil)
next
  case (Cons b xs)
  let ?rl = "pa_rl_buf p @ [b]"
  have len: "length (varint4 n) \<le> 4" using length_varint4_le [OF assms(1)] by simp
  have pre: "?rl = take (length ?rl) (varint4 n)"
    using arg_cong [OF Cons.prems(2), of "take (length ?rl)"] arg_cong [OF Cons.prems(2), of length] assms(4)
    by simp
  have "length ?rl \<le> j"
    using arg_cong [OF Cons.prems(2), of length] assms(4) by simp
  then have "result (varint_decode ?rl) = NeedMore" "\<not> length ?rl > 4"
    using varint4_prefix [OF assms(1), of "length ?rl"] assms(4) pre len by simp_all
  then have step: "snd (consume_byte L b (p, mp, pp)) = (p\<lparr>pa_rl_buf := ?rl\<rparr>, mp, pp)"
    using Cons.prems(1) by (simp add: consume_byte_def consume_remaining_length_def Let_def)
  have "reaches L xs (p\<lparr>pa_rl_buf := ?rl\<rparr>, mp, pp) (p\<lparr>pa_rl_buf := pa_rl_buf p @ b # xs\<rparr>, mp, pp)"
    using Cons.IH [of "p\<lparr>pa_rl_buf := ?rl\<rparr>"] Cons.prems by simp
  with step Cons.prems(1) show ?case by (intro reaches_Cons) simp_all
qed

definition body_start :: "nat \<Rightarrow> PacketParser \<Rightarrow> PacketParser" where
  "body_start n p = p\<lparr>pa_rl_buf := varint4 n, pa_remaining_total := of_nat n,
     pa_packet := (pa_packet p)\<lparr>pk_remaining_length := of_nat n\<rparr>,
     pa_remaining_consumed := 0, pa_control_buf := [], pa_property_len_known := False,
     pa_property_section_len := 0\<rparr>"

lemma reaches_remaining_length:
  assumes "n \<le> 268435455" and "0 < n" and "of_nat n \<le> pl_max_packet_bytes (pa_limits p)"
    and "pa_phase p = RemainingLength" and "pa_rl_buf p = []"
  shows "reaches L (varint4 n) (p, mp, pp) (start_body (body_start n p, mp, pp))"
proof -
  let ?v = "varint4 n"
  have len: "1 \<le> length ?v" "length ?v \<le> 4" using length_varint4_le [OF assms(1)] by simp_all
  then have v: "?v = butlast ?v @ [last ?v]" by (cases ?v rule: rev_cases) auto
  have "reaches L (butlast ?v) (p, mp, pp) (p\<lparr>pa_rl_buf := butlast ?v\<rparr>, mp, pp)"
    using reaches_remaining_length_prefix [OF assms(1,4), of "butlast ?v" "length ?v - 1"] len
    by (simp add: assms(5) butlast_conv_take)
  moreover have "snd (consume_byte L (last ?v) (p\<lparr>pa_rl_buf := butlast ?v\<rparr>, mp, pp))
      = start_body (body_start n p, mp, pp)"
  proof -
    have "\<not> pl_max_packet_bytes (pa_limits p) < of_nat n" using assms(3) by simp
    moreover have "unat (of_nat n :: u32) \<noteq> 0" using assms(1,2) by (simp add: unat_of_nat_u32)
    then have "(of_nat n :: u32) \<noteq> 0" by (metis unsigned_0)
    moreover have "\<not> 3 < length ?v - Suc 0" using len by simp
    ultimately
    show ?thesis
      using assms(4) varint4_decode [OF assms(1), of "[]"] v [symmetric]
      by (simp add: consume_byte_def consume_remaining_length_def Let_def body_start_def)
  qed
  moreover have "reaches L [last ?v] (p\<lparr>pa_rl_buf := butlast ?v\<rparr>, mp, pp)
      (snd (consume_byte L (last ?v) (p\<lparr>pa_rl_buf := butlast ?v\<rparr>, mp, pp)))"
    using assms(4) by (intro reaches_byte) simp
  ultimately show ?thesis
    using reaches_append [of L "butlast ?v" "(p, mp, pp)" _ "[last ?v]"] v [symmetric] by simp
qed

section \<open>Topic and packet identifier\<close>

text \<open>The staging buffer and the counter after the bytes \<open>xs\<close>.\<close>

definition staged :: "byte list \<Rightarrow> PacketParser \<Rightarrow> PacketParser" where
  "staged xs p = p\<lparr>pa_control_buf := pa_control_buf p @ xs,
     pa_remaining_consumed := pa_remaining_consumed p + of_nat (length xs)\<rparr>"

lemma staged_simps [simp]:
  "staged [] p = p" "staged ys (staged xs p) = staged (xs @ ys) p"
  "pa_phase (staged xs p) = pa_phase p" "pa_packet (staged xs p) = pa_packet p"
  "pa_control_buf (staged xs p) = pa_control_buf p @ xs" "pa_control_target (staged xs p) = pa_control_target p"
  "pa_limits (staged xs p) = pa_limits p" "pa_protocol_level (staged xs p) = pa_protocol_level p"
  "pa_remaining_total (staged xs p) = pa_remaining_total p" "pa_active_payload (staged xs p) = pa_active_payload p"
  "pa_remaining_consumed (staged xs p) = pa_remaining_consumed p + of_nat (length xs)"
  "pa_property_len_known (staged xs p) = pa_property_len_known p"
  by (simp_all add: staged_def)

lemma staged_byte:
  "p\<lparr>pa_control_buf := pa_control_buf p @ [b], pa_remaining_consumed := pa_remaining_consumed p + 1\<rparr> = staged [b] p"
  by (simp add: staged_def)

lemma reaches_publish_staging:
  assumes "pa_phase p = VariableHeader" and "pk_type (pa_packet p) = Publish"
    and "2 \<le> length (pa_control_buf p)" and "length (pa_control_buf p) + length xs < pa_control_target p"
    and "pa_control_target p \<le> kControlBufSize"
  shows "reaches L xs (p, mp, pp) (staged xs p, mp, pp)"
  using assms
proof (induction xs arbitrary: p)
  case (Cons b xs)
  then have step: "snd (consume_byte L b (p, mp, pp)) = (staged [b] p, mp, pp)"
    by (simp add: consume_byte_def consume_variable_header_def Let_def staged_byte consume_publish_vh_def)
  have "reaches L xs (staged [b] p, mp, pp) (staged xs (staged [b] p), mp, pp)"
    using Cons.prems by (intro Cons.IH) simp_all
  with step Cons.prems(1) show ?case by (intro reaches_Cons) simp_all
qed (simp add: reaches_Nil)

lemma publish_last_byte:
  assumes "pa_phase p = VariableHeader" and "pk_type (pa_packet p) = Publish"
    and "Suc (length (pa_control_buf p)) = pa_control_target p" and "3 \<le> pa_control_target p"
    and "pa_control_target p \<le> kControlBufSize"
  shows "snd (consume_byte L b (p, mp, pp)) = publish_header L (staged [b] p, mp, pp)"
  using assms
  by (simp add: consume_byte_def consume_variable_header_def Let_def staged_byte consume_publish_vh_def)

definition publish_target :: "byte list \<Rightarrow> u8 \<Rightarrow> nat" where
  "publish_target topic qos = 2 + length topic + (if qos > 0 then 2 else 0)"

definition topic_bytes :: "byte list \<Rightarrow> u8 \<Rightarrow> u16 \<Rightarrow> byte list" where
  "topic_bytes topic qos pid = write_u16_be (of_nat (length topic)) @ topic @ (if qos > 0 then write_u16_be pid else [])"

lemma length_topic_bytes: "length (topic_bytes topic qos pid) = publish_target topic qos"
  by (simp add: topic_bytes_def publish_target_def)

lemma reaches_topic_length:
  assumes "pa_phase p = VariableHeader" and "pk_type (pa_packet p) = Publish" and "pa_control_buf p = []"
    and "pa_control_target p = 2" and "t \<noteq> 0" and "t \<le> pl_max_topic_bytes (pa_limits p)"
  shows "reaches L (write_u16_be t) (p, mp, pp)
    (staged (write_u16_be t) p\<lparr>pa_control_target := 2 + unat t + (if pk_qos (pa_packet p) > 0 then 2 else 0)\<rparr>, mp, pp)"
proof -
  obtain a b where ab: "write_u16_be t = [a, b]" by (simp add: write_u16_be_def)
  have t: "read_u16_be [a, b] = t" using read_u16_be_of_write [of t] ab by simp
  have "unat t > 0" using assms(5) by (simp add: unat_gt_0)
  then have 1: "snd (consume_byte L b (staged [a] p, mp, pp))
      = (staged [a, b] p\<lparr>pa_control_target := 2 + unat t + (if pk_qos (pa_packet p) > 0 then 2 else 0)\<rparr>, mp, pp)"
    using assms t leD [OF assms(6)]
    by (simp add: consume_byte_def consume_variable_header_def Let_def staged_def consume_publish_vh_def
        kControlBufSize_def)
  have 2: "snd (consume_byte L a (p, mp, pp)) = (staged [a] p, mp, pp)"
    using assms by (simp add: consume_byte_def consume_variable_header_def Let_def staged_def consume_publish_vh_def
        kControlBufSize_def)
  show ?thesis
    unfolding ab using assms(1) by (intro reaches_Cons; simp add: 1 2 reaches_Nil)
qed

text \<open>The parser behind the topic and packet identifier.\<close>

definition publish_named :: "byte list \<Rightarrow> u8 \<Rightarrow> u16 \<Rightarrow> PacketParser \<Rightarrow> PacketParser" where
  "publish_named topic qos pid p = p\<lparr>
     pa_packet := (pa_packet p)\<lparr>pk_topic := topic, pk_packet_id := (if qos > 0 then pid else 0)\<rparr>,
     pa_control_target := publish_target topic qos, pa_control_buf := [],
     pa_remaining_consumed := pa_remaining_consumed p + of_nat (publish_target topic qos)\<rparr>"

definition after_name :: "BrokerLimits \<Rightarrow> parser_state \<Rightarrow> parser_state" where
  "after_name L st = (case st of (p, mp, pp) \<Rightarrow>
     if pa_protocol_level p = 4 then
       (if body_consumed p then finish_packet L (p, mp, pp) else (p\<lparr>pa_phase := Payload\<rparr>, mp, pp))
     else (enter_properties p, mp, pp))"

lemma publish_header_eq:
  assumes "pa_control_buf p = topic_bytes topic (pk_qos (pa_packet p)) pid" and "topic_valid topic"
    and "length topic < 256" and "pk_qos (pa_packet p) > 0 \<longrightarrow> pid \<noteq> 0"
  shows "publish_header L (p, mp, pp) = after_name L (p\<lparr>pa_packet := (pa_packet p)\<lparr>pk_topic := topic,
      pk_packet_id := (if pk_qos (pa_packet p) > 0 then pid else 0)\<rparr>, pa_control_buf := []\<rparr>, mp, pp)"
proof -
  let ?buf = "topic_bytes topic (pk_qos (pa_packet p)) pid"
  have t: "unat (read_u16_be ?buf) = length topic"
    using assms(3) by (simp add: topic_bytes_def unat_of_nat_u16)
  have c: "cstr (slice 2 (length topic) ?buf) = topic"
    using topic_valid_no_nul [OF assms(2)] by (simp add: topic_bytes_def slice_def)
  have d: "read_u16_be (drop (2 + length topic) ?buf) = pid" if "pk_qos (pa_packet p) > 0"
    using that by (simp add: topic_bytes_def)
  show ?thesis
    using assms t c d
    by (simp add: publish_header_def Let_def length_topic_bytes publish_target_def after_name_def)
qed

lemma reaches_publish_name:
  assumes "pa_phase p = VariableHeader" and "pk_type (pa_packet p) = Publish" and "pa_control_buf p = []"
    and "pa_control_target p = 2" and "topic_valid topic" and "length topic < 256"
    and "of_nat (length topic) \<le> pl_max_topic_bytes (pa_limits p)"
    and "pk_qos (pa_packet p) > 0 \<longrightarrow> pid \<noteq> 0"
  shows "reaches L (topic_bytes topic (pk_qos (pa_packet p)) pid) (p, mp, pp)
    (after_name L (publish_named topic (pk_qos (pa_packet p)) pid p, mp, pp))"
proof -
  let ?q = "pk_qos (pa_packet p)" and ?w = "write_u16_be (of_nat (length topic))"
  let ?rest = "topic @ (if ?q > 0 then write_u16_be pid else [])"
  let ?p2 = "staged ?w p\<lparr>pa_control_target := publish_target topic ?q\<rparr>"
  have ne: "topic \<noteq> []" using assms(5) by (auto simp: topic_valid_def)
  then have r: "?rest = butlast ?rest @ [last ?rest]" "?rest \<noteq> []" by auto
  have u: "unat (of_nat (length topic) :: u16) = length topic" using assms(6) by (simp add: unat_of_nat_u16)
  then have "(of_nat (length topic) :: u16) \<noteq> 0" using ne by auto
  then have 1: "reaches L ?w (p, mp, pp) (?p2, mp, pp)"
    using reaches_topic_length [OF assms(1-4) _ assms(7), of L mp pp] u by (simp add: publish_target_def)
  have len: "length ?rest = publish_target topic ?q - 2" by (simp add: publish_target_def)
  have 2: "reaches L (butlast ?rest) (?p2, mp, pp) (staged (butlast ?rest) ?p2, mp, pp)"
    using assms(1,2,3,6) ne by (intro reaches_publish_staging) (auto simp: publish_target_def kControlBufSize_def)
  have "3 \<le> publish_target topic ?q" "publish_target topic ?q \<le> kControlBufSize"
    using ne assms(6) by (cases topic; simp add: publish_target_def kControlBufSize_def)+
  then have "snd (consume_byte L (last ?rest) (staged (butlast ?rest) ?p2, mp, pp))
      = publish_header L (staged [last ?rest] (staged (butlast ?rest) ?p2), mp, pp)"
    using assms(1-3) len r(2) by (intro publish_last_byte) (auto simp: publish_target_def)
  also have "staged [last ?rest] (staged (butlast ?rest) ?p2) = staged ?rest ?p2"
    using r(1) by simp
  finally have 3: "reaches L [last ?rest] (staged (butlast ?rest) ?p2, mp, pp) (publish_header L (staged ?rest ?p2, mp, pp))"
    using reaches_byte [of "(staged (butlast ?rest) ?p2, mp, pp)" L "last ?rest"] assms(1) by simp
  have "publish_header L (staged ?rest ?p2, mp, pp) = after_name L (publish_named topic ?q pid p, mp, pp)"
  proof -
    have "(staged ?rest ?p2)\<lparr>pa_packet := (pa_packet p)\<lparr>pk_topic := topic,
        pk_packet_id := (if ?q > 0 then pid else 0)\<rparr>, pa_control_buf := []\<rparr> = publish_named topic ?q pid p"
      by (cases p) (simp add: publish_named_def staged_def publish_target_def)
    then show ?thesis
      using publish_header_eq [of "staged ?rest ?p2" topic pid L mp pp] assms(3,5,6,8)
      by (simp add: topic_bytes_def)
  qed
  with reaches_append [OF 1 reaches_append [OF 2 3]] r(1) show ?thesis
    by (simp add: topic_bytes_def)
qed

section \<open>Payload\<close>

text \<open>The pool \<open>mp'\<close> is \<open>mp\<close> with the bytes \<open>bs\<close> appended to message \<open>h\<close>.\<close>

definition grown :: "MessageHandle \<Rightarrow> byte list \<Rightarrow> MessagePool \<Rightarrow> MessagePool \<Rightarrow> bool" where
  "grown h bs mp mp' \<longleftrightarrow> mp_inv mp' \<and> msg_content mp' h = msg_content mp h @ bs
     \<and> (\<forall>k. msg_valid mp' k = msg_valid mp k \<and> msg_ref_count mp' k = msg_ref_count mp k)
     \<and> (\<forall>k. k \<noteq> h \<longrightarrow> msg_content mp' k = msg_content mp k)"

lemma grown_Nil: "mp_inv mp \<Longrightarrow> grown h [] mp mp"
  by (simp add: grown_def)

lemma grown_trans: "grown h xs mp mp' \<Longrightarrow> grown h ys mp' mp'' \<Longrightarrow> grown h (xs @ ys) mp mp''"
  by (simp add: grown_def)

lemma consumed_Suc:
  fixes x y :: u32
  assumes "unat x + Suc n = unat y"
  shows "unat (x + 1) + n = unat y"
  using assms unat_word_ariths(1) [of x 1] unat_u32_less [of y] by (simp del: unat_u32_less)

lemma reaches_payload:
  assumes "pa_phase p = Payload" and "pk_type (pa_packet p) = Publish" and "pa_active_payload p = h"
    and "mp_inv mp" and "msg_valid mp h" and "bs \<noteq> []" and "payload_size mp h + length bs \<le> mp_room mp h"
    and "unat (pa_remaining_consumed p) + length bs = unat (pa_remaining_total p)"
  shows "\<exists>mp'. reaches L bs (p, mp, pp) (finish_packet L (p\<lparr>pa_remaining_consumed := pa_remaining_total p\<rparr>, mp', pp))
    \<and> grown h bs mp mp'"
  using assms
proof (induction bs arbitrary: p mp)
  case (Cons b bs)
  let ?p = "p\<lparr>pa_remaining_consumed := pa_remaining_consumed p + 1\<rparr>"
  obtain ok mp1 where r: "append_payload h [b] mp = (ok, mp1)" by (cases "append_payload h [b] mp")
  have fits: "payload_size mp h + length [b] \<le> mp_room mp h" using Cons.prems(7) by simp
  note fit = append_payload_fits [OF Cons.prems(4,5) _ r fits]
  note eff = append_payload_effect [OF Cons.prems(4,5) _ r]
  have ok: ok and sz: "payload_size mp1 h = payload_size mp h + 1" using fit by simp_all
  have g: "grown h [b] mp mp1" using fit eff by (auto simp: grown_def)
  have v: "msg_valid mp1 h" using eff(4) Cons.prems(5) by simp
  have room: "mp_room mp1 h = mp_room mp h" by (rule append_payload_room [OF Cons.prems(4,5) _ r]) simp
  have hv: "message_handle_valid h" using Cons.prems(5) by (simp add: msg_valid_def)
  have cons: "unat (pa_remaining_consumed p + 1) + length bs = unat (pa_remaining_total p)"
    using consumed_Suc [of "pa_remaining_consumed p" "length bs" "pa_remaining_total p"] Cons.prems(8) by simp
  then have fin: "body_consumed ?p \<longleftrightarrow> bs = []"
    by (cases bs) (auto simp: body_consumed_def word_le_nat_alt)
  have step: "snd (consume_byte L b (p, mp, pp))
      = (if body_consumed ?p then finish_packet L (?p, mp1, pp) else (?p, mp1, pp))"
    using Cons.prems(1-3) r ok hv by (simp add: consume_byte_def consume_payload_def Let_def)
  have ph: "pa_phase (fst (p, mp, pp)) \<notin> {Complete, Error}" using Cons.prems(1) by simp
  show ?case
  proof (cases "bs = []")
    case True
    have eq: "?p = p\<lparr>pa_remaining_consumed := pa_remaining_total p\<rparr>"
      using cons True by (simp add: word_unat_eq_iff)
    have "reaches L (b # bs) (p, mp, pp) (finish_packet L (p\<lparr>pa_remaining_consumed := pa_remaining_total p\<rparr>, mp1, pp))"
      using step fin True eq by (intro reaches_Cons [OF ph]) (simp add: reaches_Nil)
    with g True show ?thesis by blast
  next
    case False
    have g1: "mp_inv mp1" using g by (simp add: grown_def)
    have "\<exists>mp'. reaches L bs (?p, mp1, pp) (finish_packet L (?p\<lparr>pa_remaining_consumed := pa_remaining_total ?p\<rparr>, mp', pp))
        \<and> grown h bs mp1 mp'"
      by (rule Cons.IH) (use Cons.prems False g1 v room sz cons in simp_all)
    then obtain mp' where i: "reaches L bs (?p, mp1, pp) (finish_packet L (p\<lparr>pa_remaining_consumed := pa_remaining_total p\<rparr>, mp', pp))"
      "grown h bs mp1 mp'" by auto
    have "reaches L (b # bs) (p, mp, pp) (finish_packet L (p\<lparr>pa_remaining_consumed := pa_remaining_total p\<rparr>, mp', pp))"
      using step fin False i(1) by (intro reaches_Cons [OF ph]) simp
    with grown_trans [OF g i(2)] show ?thesis by auto
  qed
qed simp

section \<open>Properties\<close>

text \<open>The bookkeeping of the property section does not matter behind it.\<close>

definition with_section :: "bool \<Rightarrow> nat \<Rightarrow> u32 \<Rightarrow> PacketParser \<Rightarrow> PacketParser" where
  "with_section k t s p = p\<lparr>pa_property_len_known := k, pa_control_target := t, pa_property_section_len := s\<rparr>"

lemma with_section_simps [simp]:
  "pa_phase (with_section k t s p) = pa_phase p" "pa_packet (with_section k t s p) = pa_packet p"
  "pa_control_buf (with_section k t s p) = pa_control_buf p"
  "pa_protocol_level (with_section k t s p) = pa_protocol_level p"
  "pa_remaining_total (with_section k t s p) = pa_remaining_total p"
  "pa_remaining_consumed (with_section k t s p) = pa_remaining_consumed p"
  "pa_active_payload (with_section k t s p) = pa_active_payload p"
  "pa_property_len_known (with_section k t s p) = k" "pa_control_target (with_section k t s p) = t"
  "with_section k t s (with_section k' t' s' p) = with_section k t s p"
  "staged xs (with_section k t s p) = with_section k t s (staged xs p)"
  by (simp_all add: with_section_def staged_def)

lemma with_section_id: "with_section (pa_property_len_known p) (pa_control_target p) (pa_property_section_len p) p = p"
  by (simp add: with_section_def)

definition section_bytes :: "byte list \<Rightarrow> byte list" where
  "section_bytes pb = varint4 (length pb) @ pb"

lemma section_decode:
  assumes "length pb \<le> 268435455" and "length (varint4 (length pb)) \<le> j"
  shows "varint_decode (take j (section_bytes pb))
    = \<lparr>result = Ok, vvalue = of_nat (length pb), bytes_consumed = length (varint4 (length pb))\<rparr>"
  using assms varint4_decode [OF assms(1)] by (simp add: section_bytes_def)

lemma section_prefix:
  assumes "length pb \<le> 268435455" and "j < length (varint4 (length pb))"
  shows "result (varint_decode (take j (section_bytes pb))) = NeedMore"
  using assms varint4_prefix [OF assms] by (simp add: section_bytes_def)

text \<open>One byte of the section that is not its last, and its last byte.\<close>

definition section_at :: "byte list \<Rightarrow> PacketParser \<Rightarrow> bool" where
  "section_at pb p \<longleftrightarrow> pa_phase p = Properties
     \<and> pa_control_buf p = take (length (pa_control_buf p)) (section_bytes pb)
     \<and> length (pa_control_buf p) < length (section_bytes pb)
     \<and> (pa_property_len_known p \<longrightarrow> pa_control_target p = length (section_bytes pb))
     \<and> (\<not> pa_property_len_known p \<longrightarrow> length (pa_control_buf p) < length (varint4 (length pb)))"

lemma properties_byte:
  assumes "section_at pb p" and "length (section_bytes pb) \<le> kControlBufSize"
    and "b = section_bytes pb ! length (pa_control_buf p)"
  shows "\<exists>k t s. snd (consume_byte L b (p, mp, pp)) =
      (if Suc (length (pa_control_buf p)) = length (section_bytes pb)
       then finish_properties L (with_section k t s (staged [b] p), mp, pp)
       else (with_section k t s (staged [b] p), mp, pp))
    \<and> (Suc (length (pa_control_buf p)) < length (section_bytes pb) \<longrightarrow> section_at pb (with_section k t s (staged [b] p)))"
proof -
  let ?sec = "section_bytes pb" and ?n = "Suc (length (pa_control_buf p))" and ?v = "varint4 (length pb)"
  have pb: "length pb \<le> 268435455"
    using assms(2) by (simp add: section_bytes_def kControlBufSize_def)
  have n: "?n \<le> length ?sec" and ph: "pa_phase p = Properties" using assms(1) by (simp_all add: section_at_def)
  have buf: "pa_control_buf p @ [b] = take ?n ?sec"
    using assms(1,3) by (simp add: section_at_def take_Suc_conv_app_nth)
  have len: "length ?sec = length ?v + length pb" by (simp add: section_bytes_def)
  have room: "\<not> kControlBufSize \<le> length (pa_control_buf p)" using n assms(2) by simp
  consider (known) "pa_property_len_known p" | (more) "\<not> pa_property_len_known p" "?n < length ?v"
    | (now) "\<not> pa_property_len_known p" "?n = length ?v"
    using assms(1) Suc_lessI [of "length (pa_control_buf p)" "length ?v"] unfolding section_at_def by blast
  then show ?thesis
  proof cases
    case known
    let ?p = "with_section True (length ?sec) (pa_property_section_len p) (staged [b] p)"
    have "?p = staged [b] p"
      using known assms(1) with_section_id [of "staged [b] p"] by (simp add: section_at_def staged_def with_section_def)
    moreover have "snd (consume_byte L b (p, mp, pp))
        = (if ?n = length ?sec then finish_properties L (staged [b] p, mp, pp) else (staged [b] p, mp, pp))"
      using known assms(1) room n ph
      by (auto simp: consume_byte_def consume_properties_def Let_def staged_byte section_at_def)
    moreover have "?n < length ?sec \<longrightarrow> section_at pb ?p"
      using known buf ph n by (simp add: section_at_def)
    ultimately show ?thesis by metis
  next
    case more
    let ?p = "with_section False (pa_control_target p) (pa_property_section_len p) (staged [b] p)"
    have "?p = staged [b] p"
      using more with_section_id [of "staged [b] p"] by (simp add: staged_def with_section_def)
    moreover have "snd (consume_byte L b (p, mp, pp)) = (staged [b] p, mp, pp)"
      using more section_prefix [OF pb more(2)] buf room ph
      by (simp add: consume_byte_def consume_properties_def Let_def staged_def)
    moreover have "?n \<noteq> length ?sec" "section_at pb ?p"
      using more len buf ph n by (simp_all add: section_at_def)
    ultimately show ?thesis by metis
  next
    case now
    let ?p = "with_section True (length ?sec) (of_nat (length pb)) (staged [b] p)"
    have d: "varint_decode (pa_control_buf p @ [b])
        = \<lparr>result = Ok, vvalue = of_nat (length pb), bytes_consumed = length ?v\<rparr>"
      using section_decode [OF pb, of ?n] now by (simp add: buf)
    have "p\<lparr>pa_control_buf := pa_control_buf p @ [b], pa_remaining_consumed := pa_remaining_consumed p + 1,
        pa_property_section_len := of_nat (length pb), pa_property_len_known := True,
        pa_control_target := length ?v + length pb\<rparr> = ?p"
      by (cases p) (simp add: staged_def with_section_def len)
    then have "snd (consume_byte L b (p, mp, pp)) = (if ?n = length ?sec
        then finish_properties L (?p, mp, pp) else (?p, mp, pp))"
      using now d room ph n len pb
      by (auto simp: consume_byte_def consume_properties_def Let_def unat_of_nat_u32 section_bytes_def)
    moreover have "?n < length ?sec \<longrightarrow> section_at pb ?p"
      using buf ph n by (simp add: section_at_def)
    ultimately show ?thesis by metis
  qed
qed

lemma reaches_section:
  assumes "section_at pb p" and "length (section_bytes pb) \<le> kControlBufSize"
    and "xs = drop (length (pa_control_buf p)) (section_bytes pb)"
  shows "\<exists>k t s. reaches L xs (p, mp, pp) (finish_properties L (with_section k t s (staged xs p), mp, pp))"
  using assms
proof (induction xs arbitrary: p)
  case (Cons b xs)
  let ?n = "length (pa_control_buf p)"
  have ph: "pa_phase (fst (p, mp, pp)) \<notin> {Complete, Error}" using Cons.prems(1) by (simp add: section_at_def)
  have lt: "?n < length (section_bytes pb)" using Cons.prems(1) by (simp add: section_at_def)
  have b: "b = section_bytes pb ! ?n" and xs: "xs = drop (Suc ?n) (section_bytes pb)"
    using Cons.prems(3) lt by (metis Cons_nth_drop_Suc list.inject)+
  from properties_byte [OF Cons.prems(1,2) b, of L mp pp] obtain k t s where
    c: "snd (consume_byte L b (p, mp, pp)) = (if Suc ?n = length (section_bytes pb)
        then finish_properties L (with_section k t s (staged [b] p), mp, pp)
        else (with_section k t s (staged [b] p), mp, pp))"
    and at: "Suc ?n < length (section_bytes pb) \<Longrightarrow> section_at pb (with_section k t s (staged [b] p))"
    by blast
  show ?case
  proof (cases "xs = []")
    case True
    with xs lt have "Suc ?n = length (section_bytes pb)" by simp
    with c True have "reaches L (b # xs) (p, mp, pp) (finish_properties L (with_section k t s (staged (b # xs) p), mp, pp))"
      by (intro reaches_Cons [OF ph]) (simp add: reaches_Nil)
    then show ?thesis by blast
  next
    case False
    with xs have l: "Suc ?n < length (section_bytes pb)" by simp
    have "\<exists>k' t' s'. reaches L xs (with_section k t s (staged [b] p), mp, pp)
        (finish_properties L (with_section k' t' s' (staged xs (with_section k t s (staged [b] p))), mp, pp))"
      by (rule Cons.IH [OF at [OF l] Cons.prems(2)]) (simp add: xs)
    then obtain k' t' s' where "reaches L xs (with_section k t s (staged [b] p), mp, pp)
        (finish_properties L (with_section k' t' s' (staged (b # xs) p), mp, pp))"
      by auto
    with c l have "reaches L (b # xs) (p, mp, pp) (finish_properties L (with_section k' t' s' (staged (b # xs) p), mp, pp))"
      by (intro reaches_Cons [OF ph]) simp
    then show ?thesis by blast
  qed
qed (simp add: section_at_def)

section \<open>A whole PUBLISH\<close>

text \<open>Behind the header of a PUBLISH: the payload is read, or there is none.\<close>

definition body_state :: "BrokerLimits \<Rightarrow> bool \<Rightarrow> parser_state \<Rightarrow> parser_state" where
  "body_state L none st = (case st of (p, mp, pp) \<Rightarrow>
     if none then finish_packet L (p, mp, pp) else (p\<lparr>pa_phase := Payload\<rparr>, mp, pp))"

lemma finish_publish:
  assumes "pk_type (pa_packet p) = Publish" and "message_handle_valid (pa_active_payload p)"
  shows "finish_packet L (p, mp, pp) = (p\<lparr>pa_packet := (pa_packet p)\<lparr>pk_payload := pa_active_payload p,
      pk_payload_len := payload_size mp (pa_active_payload p)\<rparr>, pa_phase := Complete\<rparr>, mp, pp)"
  using assms by (simp add: finish_packet_def Let_def)

lemma reaches_body:
  assumes "pk_type (pa_packet p) = Publish" and "pa_active_payload p = h" and "mp_inv mp"
    and "msg_valid mp h" and "msg_content mp h = []" and "length bs \<le> mp_room mp h"
    and "unat (pa_remaining_consumed p) + length bs = unat (pa_remaining_total p)"
  shows "\<exists>p' mp'. reaches L bs (body_state L (bs = []) (p, mp, pp)) (p', mp', pp) \<and> grown h bs mp mp'
    \<and> packet_ready p' \<and> pa_packet p' = (pa_packet p)\<lparr>pk_payload := h, pk_payload_len := length bs\<rparr>"
proof -
  have hv: "message_handle_valid h" using assms(4) by (simp add: msg_valid_def)
  have sz: "payload_size mp h = 0" using length_msg_content [OF assms(3), of h] assms(5) by simp
  show ?thesis
  proof (cases "bs = []")
    case True
    with assms hv sz grown_Nil [OF assms(3), of h] show ?thesis
      by (simp add: body_state_def finish_publish reaches_Nil packet_ready_def)
  next
    case False
    let ?p = "p\<lparr>pa_phase := Payload\<rparr>"
    obtain mp' where r: "reaches L bs (?p, mp, pp)
        (finish_packet L (?p\<lparr>pa_remaining_consumed := pa_remaining_total ?p\<rparr>, mp', pp))" and g: "grown h bs mp mp'"
      using reaches_payload [of ?p h mp bs L pp] assms False sz by auto
    have "payload_size mp' h = length bs"
      using g assms(5) length_msg_content [of mp' h] by (simp add: grown_def)
    with r g False hv assms(1,2) show ?thesis
      by (simp add: body_state_def finish_publish) (force simp: packet_ready_def)
  qed
qed

text \<open>Behind the name: with protocol level 5 the property section follows.\<close>

definition section_of :: "u8 \<Rightarrow> byte list \<Rightarrow> byte list" where
  "section_of level pb = (if level = 4 then [] else section_bytes pb)"

lemma reaches_name_section:
  assumes "pa_control_buf p = []" and "pk_type (pa_packet p) = Publish"
    and "pa_protocol_level p = 4 \<longrightarrow> h = pk_properties (pa_packet p) \<and> pp1 = pp"
    and "pa_protocol_level p \<noteq> 4 \<longrightarrow> length (section_bytes pb) \<le> kControlBufSize
      \<and> parse_and_validate_properties Publish (section_bytes pb) pp = (vr, h, pp1) \<and> pv_ok vr"
    and "unat (pa_remaining_consumed p) + length (section_of (pa_protocol_level p) pb) + n = unat (pa_remaining_total p)"
  shows "\<exists>p'. reaches L (section_of (pa_protocol_level p) pb) (after_name L (p, mp, pp)) (body_state L (n = 0) (p', mp, pp1))
    \<and> pa_packet p' = (pa_packet p)\<lparr>pk_properties := h\<rparr> \<and> pa_active_payload p' = pa_active_payload p
    \<and> pa_remaining_total p' = pa_remaining_total p
    \<and> unat (pa_remaining_consumed p') + n = unat (pa_remaining_total p)"
proof (cases "pa_protocol_level p = 4")
  case True
  then have "body_consumed p \<longleftrightarrow> n = 0" using assms(5) by (auto simp: body_consumed_def word_le_nat_alt section_of_def)
  then have "after_name L (p, mp, pp) = body_state L (n = 0) (p, mp, pp)"
    using True by (simp add: after_name_def body_state_def)
  with True assms(3,5) show ?thesis
    by (intro exI [of _ p]) (simp add: section_of_def reaches_Nil)
next
  case False
  let ?q = "enter_properties p" and ?sec = "section_bytes pb"
  have sec: "length ?sec \<le> kControlBufSize" and parse: "parse_and_validate_properties Publish ?sec pp = (vr, h, pp1)"
    and ok: "pv_ok vr" using False assms(4) by auto
  have v: "1 \<le> length (varint4 (length pb))"
    using length_varint4_le [of "length pb"] sec by (simp add: section_bytes_def kControlBufSize_def)
  have at: "section_at pb ?q"
    using v assms(1) by (auto simp: section_at_def enter_properties_def section_bytes_def)
  obtain k t s where r: "reaches L ?sec (?q, mp, pp) (finish_properties L (with_section k t s (staged ?sec ?q), mp, pp))"
    using reaches_section [OF at sec, of ?sec L mp pp] assms(1) by (auto simp: enter_properties_def)
  let ?p' = "(with_section k t s (staged ?sec ?q))\<lparr>pa_packet := (pa_packet p)\<lparr>pk_properties := h\<rparr>\<rparr>"
  have c: "unat (pa_remaining_consumed p + of_nat (length ?sec)) = unat (pa_remaining_consumed p) + length ?sec"
    using assms(5) False unat_u32_less [of "pa_remaining_total p"]
    by (intro unat_add_small) (simp add: section_of_def del: unat_u32_less)
  have z: "pa_remaining_total p - (pa_remaining_consumed p + of_nat (length ?sec)) = 0 \<longleftrightarrow> n = 0"
    unfolding right_minus_eq
    using assms(5) False c by (subst word_unat_eq_iff) (simp add: section_of_def, arith)
  have "finish_properties L (with_section k t s (staged ?sec ?q), mp, pp)
      = (if n = 0 then finish_packet L (?p', mp, pp1) else (?p'\<lparr>pa_control_buf := [], pa_phase := Payload\<rparr>, mp, pp1))"
    using parse ok z assms(1,2) by (simp add: finish_properties_def Let_def enter_properties_def)
  also have "\<dots> = body_state L (n = 0) (if n = 0 then ?p' else ?p'\<lparr>pa_control_buf := []\<rparr>, mp, pp1)"
    by (simp add: body_state_def)
  finally show ?thesis
    using r c assms(5) False
    by (intro exI [of _ "if n = 0 then ?p' else ?p'\<lparr>pa_control_buf := []\<rparr>"])
      (simp add: section_of_def after_name_def enter_properties_def)
qed

lemma qos_cases: "(q :: u8) \<le> 2 \<Longrightarrow> q = 0 \<or> q = 1 \<or> q = 2"
proof -
  assume "q \<le> 2"
  then have "unat q = 0 \<or> unat q = 1 \<or> unat q = 2" by (auto simp: word_le_nat_alt)
  then show ?thesis by (auto simp: word_unat_eq_iff)
qed

lemma first_byte_fields:
  assumes "q \<le> 2"
  shows "packet_type_from_byte (publish_first_byte retain q dup) = Publish"
    and "drop_bit 1 (publish_first_byte retain q dup) AND 0x03 = q"
    and "(publish_first_byte retain q dup AND 0x08 \<noteq> 0) = dup"
    and "(publish_first_byte retain q dup AND 0x01 \<noteq> 0) = retain"
  using qos_cases [OF assms]
  by (elim disjE; cases retain; cases dup;
      simp add: publish_first_byte_def packet_type_from_byte_def packet_types_def packet_type_to_byte_def)+

text \<open>The property bytes a PUBLISH carries: the remaining expiry interval, then what is forwarded.\<close>

definition publish_properties :: "PublishParams \<Rightarrow> byte list \<Rightarrow> byte list" where
  "publish_properties a props =
     (if pb_has_expiry a then [MessageExpiryInterval] @ write_u32_be (pb_expiry_remaining a) else []) @ props"

lemma publish_header_layout:
  assumes "pb_protocol_level a = 4 \<or> pb_protocol_level a = 5" and "pb_protocol_level a = 4 \<longrightarrow> props = []"
  shows "publish_header_bytes a props =
    [publish_first_byte (pb_retain a) (pb_qos a) (pb_dup a)]
    @ varint4 (length (topic_bytes (pb_topic a) (pb_qos a) (pb_packet_id a))
        + length (section_of (pb_protocol_level a) (publish_properties a props)) + pb_payload_len a)
    @ topic_bytes (pb_topic a) (pb_qos a) (pb_packet_id a)
    @ section_of (pb_protocol_level a) (publish_properties a props)"
proof -
  have "pb_protocol_level a = 4 \<and> \<not> pb_protocol_level a \<ge> 5 \<or> pb_protocol_level a = 5 \<and> pb_protocol_level a \<ge> 5"
    using assms(1) by auto
  then show ?thesis
    using assms(2)
    by (elim disjE conjE) (simp_all add: publish_header_bytes_def Let_def topic_bytes_def section_of_def
        section_bytes_def publish_properties_def add_ac)
qed

text \<open>What makes a PUBLISH one that this parser and these pools can take.\<close>

definition publish_acceptable ::
  "PublishParams \<Rightarrow> byte list \<Rightarrow> byte list \<Rightarrow> PacketParser \<Rightarrow> MessagePool \<Rightarrow> PropertyPool \<Rightarrow> bool"
where
  "publish_acceptable a props payload p mp pp \<longleftrightarrow>
     (pb_protocol_level a = 4 \<or> pb_protocol_level a = 5) \<and> pa_protocol_level p = pb_protocol_level a
     \<and> (pb_protocol_level a = 4 \<longrightarrow> props = [])
     \<and> pb_qos a \<le> 2 \<and> (pb_qos a > 0 \<longrightarrow> pb_packet_id a \<noteq> 0)
     \<and> topic_valid (pb_topic a) \<and> length (pb_topic a) < 256
     \<and> of_nat (length (pb_topic a)) \<le> pl_max_topic_bytes (pa_limits p)
     \<and> pb_payload_len a = length payload
     \<and> (let section = section_of (pb_protocol_level a) (publish_properties a props);
            body = length (topic_bytes (pb_topic a) (pb_qos a) (pb_packet_id a)) + length section + length payload
        in length section \<le> kControlBufSize \<and> body \<le> 268435455
           \<and> of_nat body \<le> pl_max_packet_bytes (pa_limits p)
           \<and> (pb_protocol_level a = 5 \<longrightarrow> pv_ok (fst (parse_and_validate_properties Publish section pp))))
     \<and> (\<exists>s \<in> set (mp_slots mp). \<not> sl_in_use s)
     \<and> length payload \<le> mp_blocks_free mp * mp_block_size mp"

lemma reaches_header:
  assumes "q \<le> 2" and "0 < n" and "n \<le> 268435455" and "of_nat n \<le> pl_max_packet_bytes (pa_limits p)"
    and "acquire_empty mp = (h, mp1)" and "message_handle_valid h"
  shows "\<exists>p1. reaches L ([publish_first_byte retain q dup] @ varint4 n) (parser_reset p, mp, pp) (p1, mp1, pp)
    \<and> pa_phase p1 = VariableHeader \<and> pa_control_buf p1 = [] \<and> pa_control_target p1 = 2
    \<and> pa_limits p1 = pa_limits p \<and> pa_protocol_level p1 = pa_protocol_level p \<and> pa_active_payload p1 = h
    \<and> pa_remaining_total p1 = of_nat n \<and> pa_remaining_consumed p1 = 0
    \<and> pa_packet p1 = packet_init\<lparr>pk_type := Publish, pk_flags := publish_first_byte retain q dup AND 0x0F,
        pk_qos := q, pk_dup := dup, pk_retain := retain, pk_remaining_length := of_nat n\<rparr>"
proof -
  let ?b = "publish_first_byte retain q dup"
  note f = first_byte_fields [OF assms(1), of retain dup]
  obtain p0 where c: "consume_fixed_header ?b (parser_reset p, mp, pp) = (p0, mp, pp)"
    and p0: "p0 = (parser_reset p)\<lparr>pa_fixed_header := ?b, pa_packet := (pa_packet (parser_reset p))\<lparr>pk_type := Publish,
        pk_flags := ?b AND 0x0F, pk_qos := q, pk_dup := dup, pk_retain := retain, pk_disconnect_reason := 0\<rparr>,
        pa_rl_buf := [], pa_phase := RemainingLength\<rparr>"
    using f by (simp add: consume_fixed_header_def)
  have 1: "reaches L [?b] (parser_reset p, mp, pp) (p0, mp, pp)"
    using reaches_byte [of "(parser_reset p, mp, pp)" L ?b] c by (simp add: parser_reset_def consume_byte_def)
  have 2: "reaches L (varint4 n) (p0, mp, pp) (start_body (body_start n p0, mp, pp))"
    using assms(2-4) by (intro reaches_remaining_length) (simp_all add: p0 parser_reset_def)
  have "start_body (body_start n p0, mp, pp)
      = ((body_start n p0)\<lparr>pa_active_payload := h, pa_control_target := 2, pa_phase := VariableHeader\<rparr>, mp1, pp)"
    using assms(5,6) by (simp add: start_body_def body_start_def p0)
  with reaches_append [OF 1 2] have "reaches L ([?b] @ varint4 n) (parser_reset p, mp, pp)
      ((body_start n p0)\<lparr>pa_active_payload := h, pa_control_target := 2, pa_phase := VariableHeader\<rparr>, mp1, pp)"
    by simp
  then show ?thesis
    by (intro exI conjI) (assumption, simp_all add: body_start_def p0 parser_reset_def packet_init_def)
qed

text \<open>Claim C4. What the encoder sends, the parser reads: the bytes of any acceptable PUBLISH (QoS 0 to
  2, protocol level 4 or 5, with its property section and a payload of any length the pool has room
  for), fed to a parser that has been reset, are consumed to the last byte and leave a complete
  PUBLISH packet with the same topic, QoS, packet identifier, flags and properties; its payload is a
  fresh message with reference count one that holds exactly the payload, and no other message
  changes.\<close>

theorem publish_roundtrip:
  assumes "mp_inv mp" and "publish_acceptable a props payload p mp pp"
  shows "\<exists>p' mp' pp' h. feed L (publish_header_bytes a props @ payload) (parser_reset p, mp, pp)
        = (length (publish_header_bytes a props @ payload), p', mp', pp')
    \<and> packet_ready p' \<and> pk_type (pa_packet p') = Publish \<and> pk_topic (pa_packet p') = pb_topic a
    \<and> pk_qos (pa_packet p') = pb_qos a \<and> pk_packet_id (pa_packet p') = (if pb_qos a > 0 then pb_packet_id a else 0)
    \<and> pk_retain (pa_packet p') = pb_retain a \<and> pk_dup (pa_packet p') = pb_dup a
    \<and> (if pb_protocol_level a = 4 then pk_properties (pa_packet p') = NULL_PROPERTY \<and> pp' = pp
       else snd (parse_and_validate_properties Publish (section_of 5 (publish_properties a props)) pp)
         = (pk_properties (pa_packet p'), pp'))
    \<and> pk_payload (pa_packet p') = h \<and> \<not> msg_valid mp h \<and> msg_ref_count mp' h = 1 \<and> msg_content mp' h = payload
    \<and> pk_payload_len (pa_packet p') = length payload
    \<and> (\<forall>k. k \<noteq> h \<longrightarrow> msg_ref_count mp' k = msg_ref_count mp k \<and> msg_content mp' k = msg_content mp k)"
proof -
  note acc = assms(2) [unfolded publish_acceptable_def Let_def]
  let ?tb = "topic_bytes (pb_topic a) (pb_qos a) (pb_packet_id a)"
  let ?sec = "section_of (pb_protocol_level a) (publish_properties a props)"
  let ?n = "length ?tb + length ?sec + length payload"
  obtain h mp1 where h: "acquire_empty mp = (h, mp1)" by (cases "acquire_empty mp")
  have free: "\<exists>s \<in> set (mp_slots mp). \<not> sl_in_use s" and n: "?n \<le> 268435455" "0 < ?n"
    using acc by (auto simp: length_topic_bytes publish_target_def)
  note room = acquire_empty_room [OF assms(1) free h]
  note fresh = acquire_empty_effect [OF assms(1) h room(1)]
  have inv1: "mp_inv mp1" using mp_inv_acquire_empty [OF assms(1)] h by simp
  have hv: "message_handle_valid h" using room(1) by (simp add: message_handle_valid_iff)
  obtain p1 where 1: "reaches L ([publish_first_byte (pb_retain a) (pb_qos a) (pb_dup a)] @ varint4 ?n)
        (parser_reset p, mp, pp) (p1, mp1, pp)"
    and p1: "pa_phase p1 = VariableHeader" "pa_control_buf p1 = []" "pa_control_target p1 = 2"
      "pa_limits p1 = pa_limits p" "pa_protocol_level p1 = pa_protocol_level p" "pa_active_payload p1 = h"
      "pa_remaining_total p1 = of_nat ?n" "pa_remaining_consumed p1 = 0"
      "pa_packet p1 = packet_init\<lparr>pk_type := Publish,
        pk_flags := publish_first_byte (pb_retain a) (pb_qos a) (pb_dup a) AND 0x0F,
        pk_qos := pb_qos a, pk_dup := pb_dup a, pk_retain := pb_retain a, pk_remaining_length := of_nat ?n\<rparr>"
    using reaches_header [of "pb_qos a" ?n p mp h mp1 L "pb_retain a" "pb_dup a" pp] acc n h hv by blast
  let ?p2 = "publish_named (pb_topic a) (pb_qos a) (pb_packet_id a) p1"
  have 2: "reaches L ?tb (p1, mp1, pp) (after_name L (?p2, mp1, pp))"
    using reaches_publish_name [of p1 "pb_topic a" "pb_packet_id a" L mp1 pp] p1 acc by simp
  obtain vr ph pp1 where pr: "(vr, ph, pp1) = (if pb_protocol_level a = 4 then (pv_success, NULL_PROPERTY, pp)
      else parse_and_validate_properties Publish ?sec pp)" by (metis prod_cases3)
  have cons: "unat (pa_remaining_consumed ?p2) + length ?sec + length payload = unat (pa_remaining_total ?p2)"
  proof -
    have "unat (pa_remaining_total ?p2) = ?n"
      using n p1(7) unat_of_nat_u32 [of ?n] by (simp add: publish_named_def)
    moreover have "unat (pa_remaining_consumed ?p2) = length ?tb"
      using n p1(8) by (simp add: publish_named_def length_topic_bytes unat_of_nat_u32)
    ultimately show ?thesis by simp
  qed
  have "\<exists>p3. reaches L (section_of (pa_protocol_level ?p2) (publish_properties a props)) (after_name L (?p2, mp1, pp))
        (body_state L (length payload = 0) (p3, mp1, pp1))
    \<and> pa_packet p3 = (pa_packet ?p2)\<lparr>pk_properties := ph\<rparr> \<and> pa_active_payload p3 = pa_active_payload ?p2
    \<and> pa_remaining_total p3 = pa_remaining_total ?p2
    \<and> unat (pa_remaining_consumed p3) + length payload = unat (pa_remaining_total ?p2)"
    using acc p1 pr cons
    by (intro reaches_name_section [of _ _ _ _ _ vr])
      (auto simp: publish_named_def packet_init_def section_of_def split: if_splits dest: sym)
  then obtain p3 where 3: "reaches L ?sec (after_name L (?p2, mp1, pp)) (body_state L (payload = []) (p3, mp1, pp1))"
    and p3: "pa_packet p3 = (pa_packet ?p2)\<lparr>pk_properties := ph\<rparr>" "pa_active_payload p3 = h"
      "unat (pa_remaining_consumed p3) + length payload = unat (pa_remaining_total p3)"
    using acc p1 by (auto simp: publish_named_def)
  obtain p4 mp' where 4: "reaches L payload (body_state L (payload = []) (p3, mp1, pp1)) (p4, mp', pp1)"
    and g: "grown h payload mp1 mp'" and p4: "packet_ready p4"
      "pa_packet p4 = (pa_packet p3)\<lparr>pk_payload := h, pk_payload_len := length payload\<rparr>"
    using reaches_body [OF _ p3(2) inv1 _ _ _ p3(3), of L pp1] p3(1) p1(9) fresh room(2) acc
    by (auto simp: publish_named_def)
  have layout: "publish_header_bytes a props =
      ([publish_first_byte (pb_retain a) (pb_qos a) (pb_dup a)] @ varint4 ?n) @ ?tb @ ?sec"
    using publish_header_layout [of a props] acc by simp
  have "reaches L (publish_header_bytes a props @ payload) (parser_reset p, mp, pp) (p4, mp', pp1)"
    unfolding layout using reaches_append [OF 1 reaches_append [OF 2 reaches_append [OF 3 4]]] by simp
  then show ?thesis
    using p4 p3(1) p1(9) g fresh pr acc
    by (intro exI [of _ p4] exI [of _ mp'] exI [of _ pp1] exI [of _ h])
      (auto simp: reaches_def grown_def publish_named_def packet_init_def dest: sym split: if_splits)
qed

definition sample_publish :: PublishParams where
  "sample_publish = \<lparr>pb_topic = [97, 47, 98], pb_retain = True, pb_qos = 1, pb_packet_id = 7, pb_dup = False,
     pb_payload_len = 3, pb_has_expiry = False, pb_expiry_remaining = 0, pb_protocol_level = 5\<rparr>"

definition sample_parser :: PacketParser where
  "sample_parser = PacketParser_new \<lparr>pl_max_packet_bytes = 64, pl_max_topic_bytes = 16, pl_control_buffer_bytes = 64\<rparr>"

theorem publish_roundtrip_witness:
  "publish_acceptable sample_publish [] [1, 2, 3] sample_parser (MessagePool_new 2 4 2) (PropertyPool_new 2 16)
   \<and> (\<exists>p' mp' pp' h. feed broker_limits_host (publish_header_bytes sample_publish [] @ [1, 2, 3])
          (parser_reset sample_parser, MessagePool_new 2 4 2, PropertyPool_new 2 16)
        = (length (publish_header_bytes sample_publish [] @ [1, 2, 3]), p', mp', pp')
      \<and> packet_ready p' \<and> pk_topic (pa_packet p') = [97, 47, 98] \<and> msg_content mp' h = [1, 2, 3])"
proof -
  have sec: "section_of (pb_protocol_level sample_publish) (publish_properties sample_publish []) = [0]"
    by code_simp
  have "pv_ok (fst (parse_and_validate_properties Publish [0] (PropertyPool_new 2 16)))" by code_simp
  moreover have "\<exists>s \<in> set (mp_slots (MessagePool_new 2 4 2)). \<not> sl_in_use s" by code_simp
  moreover have "topic_valid (pb_topic sample_publish)" by code_simp
  ultimately have acc: "publish_acceptable sample_publish [] [1, 2, 3] sample_parser (MessagePool_new 2 4 2) (PropertyPool_new 2 16)"
    unfolding publish_acceptable_def Let_def sec
    by (simp add: sample_publish_def sample_parser_def PacketParser_new_def parser_reset_def topic_bytes_def
        kControlBufSize_def MessagePool_new_def)
  have "mp_inv (MessagePool_new 2 4 2)" by (simp add: mp_inv_new)
  moreover have "pb_topic sample_publish = [97, 47, 98]" by (simp add: sample_publish_def)
  ultimately show ?thesis using publish_roundtrip [OF _ acc, of broker_limits_host] acc by fastforce
qed

section \<open>Past the end of a packet\<close>

text \<open>Claim C33. The parser does not keep to the remaining length: with protocol level 4, a PUBLISH whose
  remaining length is too short for its topic and packet identifier is not refused. The parser takes
  the missing bytes from whatever follows on the connection and completes the packet with that
  topic and an empty payload, having consumed more bytes than the packet has.\<close>

theorem parser_reads_past_packet:
  assumes "mp_inv mp" and "\<exists>s \<in> set (mp_slots mp). \<not> sl_in_use s" and "pa_protocol_level p = 4"
    and "q \<le> 2" and "q > 0 \<longrightarrow> pid \<noteq> 0" and "topic_valid topic" and "length topic < 256"
    and "of_nat (length topic) \<le> pl_max_topic_bytes (pa_limits p)"
    and "0 < n" and "n < length (topic_bytes topic q pid)" and "of_nat n \<le> pl_max_packet_bytes (pa_limits p)"
  shows "\<exists>p' mp'. feed L ([publish_first_byte retain q dup] @ varint4 n @ topic_bytes topic q pid) (parser_reset p, mp, pp)
        = (1 + length (varint4 n) + length (topic_bytes topic q pid), p', mp', pp)
    \<and> packet_ready p' \<and> pk_remaining_length (pa_packet p') = of_nat n \<and> pk_topic (pa_packet p') = topic
    \<and> pk_payload_len (pa_packet p') = 0"
proof -
  obtain h mp1 where h: "acquire_empty mp = (h, mp1)" by (cases "acquire_empty mp")
  note room = acquire_empty_room [OF assms(1,2) h]
  note fresh = acquire_empty_effect [OF assms(1) h room(1)]
  have hv: "message_handle_valid h" using room(1) by (simp add: message_handle_valid_iff)
  have inv1: "mp_inv mp1" using mp_inv_acquire_empty [OF assms(1)] h by simp
  have sz: "payload_size mp1 h = 0" using length_msg_content [OF inv1, of h] fresh(4) [of h] by simp
  have len: "length (topic_bytes topic q pid) < 268435455"
    using assms(7) by (simp add: length_topic_bytes publish_target_def)
  then have n: "n \<le> 268435455" using assms(10) by simp
  obtain p1 where 1: "reaches L ([publish_first_byte retain q dup] @ varint4 n) (parser_reset p, mp, pp) (p1, mp1, pp)"
    and p1: "pa_phase p1 = VariableHeader" "pa_control_buf p1 = []" "pa_control_target p1 = 2"
      "pa_limits p1 = pa_limits p" "pa_protocol_level p1 = pa_protocol_level p" "pa_active_payload p1 = h"
      "pa_remaining_total p1 = of_nat n" "pa_remaining_consumed p1 = 0"
      "pa_packet p1 = packet_init\<lparr>pk_type := Publish, pk_flags := publish_first_byte retain q dup AND 0x0F,
        pk_qos := q, pk_dup := dup, pk_retain := retain, pk_remaining_length := of_nat n\<rparr>"
    using reaches_header [OF assms(4,9) n assms(11) h hv] by blast
  let ?p2 = "publish_named topic q pid p1"
  have 2: "reaches L (topic_bytes topic q pid) (p1, mp1, pp) (after_name L (?p2, mp1, pp))"
    using reaches_publish_name [of p1 topic pid L mp1 pp] p1 assms(5-8) by simp
  have "body_consumed ?p2"
    using assms(10) len n p1(7,8)
    by (simp add: body_consumed_def publish_named_def length_topic_bytes word_le_nat_alt unat_of_nat_u32)
  then have "after_name L (?p2, mp1, pp) = finish_packet L (?p2, mp1, pp)"
    using p1(5) assms(3) by (simp add: after_name_def publish_named_def)
  also have "\<dots> = (?p2\<lparr>pa_packet := (pa_packet ?p2)\<lparr>pk_payload := h, pk_payload_len := 0\<rparr>, pa_phase := Complete\<rparr>, mp1, pp)"
    using p1(6,9) hv sz by (simp add: finish_publish publish_named_def)
  finally show ?thesis
    using reaches_append [OF 1 2] p1(9) by (simp add: reaches_def packet_ready_def publish_named_def)
qed

theorem parser_reads_past_packet_witness:
  "\<exists>p' mp'. feed broker_limits_host ([publish_first_byte False 0 False] @ varint4 3 @ topic_bytes [97, 98, 99] 0 0)
        (parser_reset (sample_parser\<lparr>pa_protocol_level := 4\<rparr>), MessagePool_new 2 4 2, PropertyPool_new 2 16)
      = (1 + length (varint4 3) + length (topic_bytes [97, 98, 99] 0 0), p', mp', PropertyPool_new 2 16)
    \<and> packet_ready p' \<and> pk_remaining_length (pa_packet p') = of_nat 3 \<and> pk_topic (pa_packet p') = [97, 98, 99]
    \<and> pk_payload_len (pa_packet p') = 0"
proof (rule parser_reads_past_packet)
  show "mp_inv (MessagePool_new 2 4 2)" by (simp add: mp_inv_new)
  show "\<exists>s \<in> set (mp_slots (MessagePool_new 2 4 2)). \<not> sl_in_use s" by code_simp
  show "topic_valid [97, 98, 99]" by code_simp
qed (simp_all add: sample_parser_def PacketParser_new_def parser_reset_def topic_bytes_def kControlBufSize_def)

end
