(* ===== verification/Trie_Match.thy ===== *)
theory Trie_Match
  imports Trie_Inv "HOL-Library.Sublist"
begin

text \<open>
  The search for the subscriptions of a topic (\<open>collect_matches\<close>, \<open>match\<close> of \<open>topic_trie.cpp\<close>) and the
  properties of the trie over any sequence of operations.
\<close>

section \<open>Matching\<close>

text \<open>A step of the search: it returns, appends results with property \<open>P\<close>, and respects the capacity.\<close>

definition appends :: "('a \<Rightarrow> bool) \<Rightarrow> nat \<Rightarrow> 'a list \<Rightarrow> 'a list option \<Rightarrow> bool" where
  "appends P cap out r \<longleftrightarrow> (\<exists>ys. r = Some (out @ ys) \<and> length (out @ ys) \<le> cap \<and> list_all P ys)"

lemma appends_refl [simp]: "length out \<le> cap \<Longrightarrow> appends P cap out (Some out)"
  by (auto simp: appends_def)

lemma appends_trans: "appends P cap out (Some o1) \<Longrightarrow> appends P cap o1 r \<Longrightarrow> appends P cap out r"
  by (auto simp: appends_def)

lemma appendsD: "appends P cap out r \<Longrightarrow> \<exists>o1. r = Some o1 \<and> prefix out o1 \<and> length o1 \<le> cap \<and> appends P cap out (Some o1)"
  by (auto simp: appends_def)

lemma fold_opt_appends:
  assumes "\<And>c out. c \<in> set cs \<Longrightarrow> length out \<le> cap \<Longrightarrow> appends P cap out (f c out)" and "length out \<le> cap"
  shows "appends P cap out (fold_opt f cs out)"
  using assms
proof (induction cs arbitrary: out)
  case (Cons c cs)
  from appendsD [OF Cons.prems(1) [OF _ Cons.prems(2), of c]] obtain o1 where
    o1: "f c out = Some o1" "length o1 \<le> cap" "appends P cap out (Some o1)" by auto
  with Cons.IH [of o1] Cons.prems(1) show ?case by (auto intro: appends_trans)
qed simp

lemma fold_opt_visits:
  assumes "\<And>c out. c \<in> set cs \<Longrightarrow> length out \<le> cap \<Longrightarrow> appends P cap out (f c out)" and "length out \<le> cap"
    and "fold_opt f cs out = Some r" and "c \<in> set cs"
  shows "\<exists>o1 o2. f c o1 = Some o2 \<and> length o1 \<le> cap \<and> prefix o2 r"
  using assms
proof (induction cs arbitrary: out)
  case (Cons a cs)
  from appendsD [OF Cons.prems(1) [OF _ Cons.prems(2), of a]] obtain o1 where
    o1: "f a out = Some o1" "length o1 \<le> cap" by auto
  with Cons.prems have rest: "fold_opt f cs o1 = Some r" by simp
  show ?case
  proof (cases "c = a")
    case True
    have "appends P cap o1 (fold_opt f cs o1)" by (rule fold_opt_appends) (use Cons.prems(1) o1 in auto)
    with rest have "prefix o1 r" by (auto dest: appendsD)
    with o1 True Cons.prems(2) show ?thesis by blast
  next
    case False
    with Cons.IH [OF _ o1(2) rest] Cons.prems(1,4) show ?thesis by auto
  qed
qed simp

definition reported :: "TopicTrie \<Rightarrow> byte list \<Rightarrow> TopicSubscription \<Rightarrow> bool" where
  "reported t topic x \<longleftrightarrow> (\<exists>s \<in> set (tt_subs t). se_in_use s \<and> topic_matches_filter topic (se_filter s) \<and> x = sub_out s)"

lemma emit_subs_chain:
  assumes "chain (\<lambda>i. se_next (subs ! i)) p is" and "length is \<le> fuel" and "length out \<le> cap"
  shows "\<exists>ys. emit_subs fuel subs topic cap p out = Some (out @ ys) \<and> length (out @ ys) \<le> cap
    \<and> (\<forall>y \<in> set ys. \<exists>i \<in> set is. se_in_use (subs ! i) \<and> topic_matches_filter topic (se_filter (subs ! i)) \<and> y = sub_out (subs ! i))
    \<and> (length (out @ ys) < cap \<longrightarrow> (\<forall>i \<in> set is. se_in_use (subs ! i) \<and> topic_matches_filter topic (se_filter (subs ! i))
         \<longrightarrow> sub_out (subs ! i) \<in> set ys))"
  using assms
proof (induction "is" arbitrary: p fuel out)
  case Nil
  then show ?case by (cases fuel) auto
next
  case (Cons i "is")
  then obtain h where h: "fuel = Suc h" by (cases fuel) auto
  have i: "p = of_nat i" "i < 65535" "chain (\<lambda>i. se_next (subs ! i)) (se_next (subs ! i)) is" using Cons.prems(1) by auto
  show ?case
  proof (cases "length out < cap")
    case False
    with Cons.prems(3) h show ?thesis by (intro exI [of _ "[]"]) auto
  next
    case True
    let ?hit = "se_in_use (subs ! i) \<and> topic_matches_filter topic (se_filter (subs ! i))"
    let ?o = "if ?hit then [sub_out (subs ! i)] else []"
    have "length (out @ ?o) \<le> cap" "length is \<le> h" using True Cons.prems(2) h by auto
    with Cons.IH [OF i(3), of h "out @ ?o"] obtain ys where ys:
      "emit_subs h subs topic cap (se_next (subs ! i)) (out @ ?o) = Some ((out @ ?o) @ ys)" "length ((out @ ?o) @ ys) \<le> cap"
      "\<forall>y \<in> set ys. \<exists>i \<in> set is. se_in_use (subs ! i) \<and> topic_matches_filter topic (se_filter (subs ! i)) \<and> y = sub_out (subs ! i)"
      "length ((out @ ?o) @ ys) < cap \<longrightarrow> (\<forall>i \<in> set is. se_in_use (subs ! i) \<and> topic_matches_filter topic (se_filter (subs ! i))
         \<longrightarrow> sub_out (subs ! i) \<in> set ys)" by blast
    have "emit_subs fuel subs topic cap p out = Some (out @ ?o @ ys)"
      using ys(1) True i(1) chain_head [OF i(2)] h by (auto simp: Let_def split: if_splits)
    with ys(2-4) show ?thesis by (intro exI [of _ "?o @ ys"]) auto
  qed
qed

definition child_call ::
  "nat \<Rightarrow> TopicTrie \<Rightarrow> byte list \<Rightarrow> nat \<Rightarrow> byte list option \<Rightarrow> u16 \<Rightarrow> TopicSubscription list \<Rightarrow> TopicSubscription list option"
where
  "child_call fuel t topic cap rest c out =
     (let m = tt_nodes t ! unat c; next_rest = (case rest of None \<Rightarrow> None | Some r \<Rightarrow> next_segment r) in
      if nd_is_wildcard_hash m then collect_matches fuel t topic cap c (Some []) out
      else if nd_is_wildcard_plus m then collect_matches fuel t topic cap c (Some (seg_or_empty next_rest)) out
      else case rest of
          Some r \<Rightarrow> if nd_segment m = take (segment_len r) r then collect_matches fuel t topic cap c next_rest out else Some out
        | None \<Rightarrow> Some out)"

lemma collect_unfold:
  assumes "nodes_inv kids t" and "n < tt_node_count t"
  shows "collect_matches (Suc fuel) t topic cap (of_nat n) rest out =
    (if nd_is_wildcard_hash (tt_nodes t ! n) then emit_node t topic cap (of_nat n) out
     else case (if (rest = None \<or> rest = Some []) \<and> nd_terminal (tt_nodes t ! n) then emit_node t topic cap (of_nat n) out else Some out) of
       None \<Rightarrow> None | Some o1 \<Rightarrow> fold_opt (child_call fuel t topic cap rest) (map of_nat (kids n)) o1)"
proof -
  have "n < 65535" using nodes_invD(1) [OF assms(1)] assms(2) by (simp add: sizes_ok_def)
  from chain_head [OF this] show ?thesis
    by (simp add: nodes_inv_kids(1) [OF assms] child_call_def [abs_def] Let_def cong: option.case_cong if_cong)
qed

lemma emit_node_complete:
  assumes "nodes_inv kids t" and "subs_inv links t" and "n < tt_node_count t" and "length out \<le> cap"
  shows "appends (reported t topic) cap out (emit_node t topic cap (of_nat n) out)"
    and "emit_node t topic cap (of_nat n) out = Some r \<Longrightarrow> length r < cap \<Longrightarrow> i < length (tt_subs t) \<Longrightarrow> se_in_use (tt_subs t ! i)
      \<Longrightarrow> unat (se_node_id (tt_subs t ! i)) = n \<Longrightarrow> topic_matches_filter topic (se_filter (tt_subs t ! i)) \<Longrightarrow> sub_out (tt_subs t ! i) \<in> set r"
proof -
  have "n < 65535" using nodes_invD(1) [OF assms(1)] assms(3) by (simp add: sizes_ok_def)
  then have un: "unat (of_nat n :: u16) = n" using chain_head by blast
  have k: "chain (\<lambda>i. se_next (tt_subs t ! i)) (nd_first_sub (tt_nodes t ! n)) (links n)" "distinct (links n)"
    "set (links n) = {i. i < length (tt_subs t) \<and> se_in_use (tt_subs t ! i) \<and> unat (se_node_id (tt_subs t ! i)) = n}"
    using subs_invD(2) [OF assms(2,3)] by (simp_all add: sub_chain_ok_def)
  have "length (links n) \<le> length (tt_subs t)" by (rule distinct_below [OF k(2)]) (use k(3) in simp)
  from emit_subs_chain [OF k(1) this assms(4), of topic] obtain ys where ys:
    "emit_node t topic cap (of_nat n) out = Some (out @ ys)" "length (out @ ys) \<le> cap"
    "\<forall>y \<in> set ys. \<exists>i \<in> set (links n). se_in_use (tt_subs t ! i) \<and> topic_matches_filter topic (se_filter (tt_subs t ! i)) \<and> y = sub_out (tt_subs t ! i)"
    "length (out @ ys) < cap \<longrightarrow> (\<forall>i \<in> set (links n). se_in_use (tt_subs t ! i) \<and> topic_matches_filter topic (se_filter (tt_subs t ! i))
         \<longrightarrow> sub_out (tt_subs t ! i) \<in> set ys)"
    unfolding emit_node_def un by blast
  have "reported t topic y" if y: "y \<in> set ys" for y
  proof -
    obtain i where i: "i \<in> set (links n)" "se_in_use (tt_subs t ! i)" "topic_matches_filter topic (se_filter (tt_subs t ! i))"
      "y = sub_out (tt_subs t ! i)" using ys(3) y by blast
    then have "tt_subs t ! i \<in> set (tt_subs t)" using k(3) by simp
    with i(2-4) show ?thesis unfolding reported_def by blast
  qed
  then have "list_all (reported t topic) ys" by (simp add: list_all_iff)
  with ys(1,2) show "appends (reported t topic) cap out (emit_node t topic cap (of_nat n) out)" by (auto simp: appends_def)
  show "sub_out (tt_subs t ! i) \<in> set r" if "emit_node t topic cap (of_nat n) out = Some r" "length r < cap" "i < length (tt_subs t)"
    "se_in_use (tt_subs t ! i)" "unat (se_node_id (tt_subs t ! i)) = n" "topic_matches_filter topic (se_filter (tt_subs t ! i))"
  proof -
    have "r = out @ ys" using that(1) ys(1) by simp
    moreover have "i \<in> set (links n)" using k(3) that(3-5) by simp
    ultimately show ?thesis using ys(4) that(2,4,6) by auto
  qed
qed

lemma child_call_appends_step:
  assumes inv: "nodes_inv kids t" and n: "n < tt_node_count t"
    and IH: "\<And>m rest out. n < m \<Longrightarrow> m < tt_node_count t \<Longrightarrow> length out \<le> cap
      \<Longrightarrow> appends P cap out (collect_matches fuel t topic cap (of_nat m) rest out)"
    and c: "c \<in> set (map of_nat (kids n))" "length o1 \<le> cap"
  shows "appends P cap o1 (child_call fuel t topic cap rest c o1)"
proof -
  obtain i where i: "i \<in> set (kids n)" "c = of_nat i" using c by auto
  have "n < i" "i < tt_node_count t" using nodes_inv_kids(2) [OF inv n i(1)] by simp_all
  from IH [OF this c(2)] c(2) show ?thesis unfolding i(2) by (auto simp: child_call_def Let_def split: option.split)
qed

lemma collect_appends:
  assumes inv: "nodes_inv kids t" "subs_inv links t"
  shows "n < tt_node_count t \<Longrightarrow> tt_node_count t - n \<le> fuel \<Longrightarrow> length out \<le> cap
    \<Longrightarrow> appends (reported t topic) cap out (collect_matches fuel t topic cap (of_nat n) rest out)"
proof (induction fuel arbitrary: n rest out)
  case (Suc fuel)
  note e = emit_node_complete(1) [OF inv Suc.prems(1)]
  have kid: "appends (reported t topic) cap o1 (child_call fuel t topic cap rest c o1)"
    if "c \<in> set (map of_nat (kids n))" "length o1 \<le> cap" for c o1
    by (rule child_call_appends_step [OF inv(1) Suc.prems(1) _ that]) (use Suc in simp)
  let ?own = "if (rest = None \<or> rest = Some []) \<and> nd_terminal (tt_nodes t ! n) then emit_node t topic cap (of_nat n) out else Some out"
  have "appends (reported t topic) cap out ?own" using e Suc.prems(3) by auto
  from appendsD [OF this] obtain o1 where o1: "?own = Some o1" "length o1 \<le> cap" "appends (reported t topic) cap out (Some o1)" by blast
  have "appends (reported t topic) cap o1 (fold_opt (child_call fuel t topic cap rest) (map of_nat (kids n)) o1)"
    by (rule fold_opt_appends [OF kid o1(2)])
  with o1 e [OF Suc.prems(3)] show ?case
    unfolding collect_unfold [OF inv(1) Suc.prems(1)] o1(1) by (auto intro: appends_trans)
qed simp

lemma child_call_appends:
  assumes inv: "nodes_inv kids t" "subs_inv links t" and n: "n < tt_node_count t" "tt_node_count t - n \<le> Suc fuel"
    and c: "c \<in> set (map of_nat (kids n))" "length o1 \<le> cap"
  shows "appends (reported t topic) cap o1 (child_call fuel t topic cap rest c o1)"
  by (rule child_call_appends_step [OF inv(1) n(1) _ c]) (use n in \<open>simp add: collect_appends [OF inv]\<close>)

text \<open>All subscriptions at node \<open>e\<close> that match the topic are in the result.\<close>

definition has_all :: "TopicTrie \<Rightarrow> byte list \<Rightarrow> nat \<Rightarrow> TopicSubscription list \<Rightarrow> bool" where
  "has_all t topic e r \<longleftrightarrow> (\<forall>i < length (tt_subs t). se_in_use (tt_subs t ! i) \<and> unat (se_node_id (tt_subs t ! i)) = e
     \<and> topic_matches_filter topic (se_filter (tt_subs t ! i)) \<longrightarrow> sub_out (tt_subs t ! i) \<in> set r)"

lemma has_all_prefix: "has_all t topic e o1 \<Longrightarrow> prefix o1 r \<Longrightarrow> has_all t topic e r"
  unfolding has_all_def by (auto simp: prefix_def)

text \<open>The node of the last level emits its subscriptions.\<close>

lemma collect_here:
  assumes inv: "nodes_inv kids t" "subs_inv links t" and n: "n < tt_node_count t" "tt_node_count t - n \<le> fuel" "length out \<le> cap"
    and here: "nd_is_wildcard_hash (tt_nodes t ! n) \<or> (rest = None \<or> rest = Some []) \<and> nd_terminal (tt_nodes t ! n)"
    and r: "collect_matches fuel t topic cap (of_nat n) rest out = Some r" "length r < cap"
  shows "has_all t topic n r"
proof -
  obtain f where f: "fuel = Suc f" using n by (cases fuel) auto
  note e = emit_node_complete [OF inv n(1,3), of topic]
  have em: "emit_node t topic cap (of_nat n) out = Some o1 \<Longrightarrow> length o1 < cap \<Longrightarrow> has_all t topic n o1" for o1
    unfolding has_all_def using e(2) by blast
  show ?thesis
  proof (cases "nd_is_wildcard_hash (tt_nodes t ! n)")
    case True
    with r em show ?thesis unfolding f collect_unfold [OF inv(1) n(1)] by simp
  next
    case False
    obtain o1 where o1: "emit_node t topic cap (of_nat n) out = Some o1" "length o1 \<le> cap" using appendsD [OF e(1)] by blast
    have fo: "fold_opt (child_call f t topic cap rest) (map of_nat (kids n)) o1 = Some r"
      using r(1) here False o1(1) unfolding f collect_unfold [OF inv(1) n(1)] by (simp split: if_splits)
    have "appends (reported t topic) cap o1 (fold_opt (child_call f t topic cap rest) (map of_nat (kids n)) o1)"
      using n(2) f by (intro fold_opt_appends [OF child_call_appends [OF inv n(1)] o1(2)]) simp_all
    with fo have "prefix o1 r" by (auto dest: appendsD)
    with em [OF o1(1)] r(2) show ?thesis by (metis has_all_prefix le_less_trans prefix_length_le)
  qed
qed


lemma collect_visits:
  assumes inv: "nodes_inv kids t" "subs_inv links t" and n: "n < tt_node_count t" "tt_node_count t - n \<le> Suc fuel" "length out \<le> cap"
    and nh: "\<not> nd_is_wildcard_hash (tt_nodes t ! n)" and c: "c \<in> set (kids n)"
    and r: "collect_matches (Suc fuel) t topic cap (of_nat n) rest out = Some r"
  shows "\<exists>o1 o2. child_call fuel t topic cap rest (of_nat c) o1 = Some o2 \<and> length o1 \<le> cap \<and> prefix o2 r"
proof -
  let ?own = "if (rest = None \<or> rest = Some []) \<and> nd_terminal (tt_nodes t ! n) then emit_node t topic cap (of_nat n) out else Some out"
  have "appends (reported t topic) cap out ?own" using emit_node_complete(1) [OF inv n(1,3)] n(3) by auto
  from appendsD [OF this] obtain o1 where o1: "?own = Some o1" "length o1 \<le> cap" by blast
  have fo: "fold_opt (child_call fuel t topic cap rest) (map of_nat (kids n)) o1 = Some r"
    using r nh unfolding collect_unfold [OF inv(1) n(1)] o1(1) by simp
  show ?thesis
    by (rule fold_opt_visits [OF child_call_appends [OF inv n(1,2)] o1(2) fo]) (use c in auto)
qed

text \<open>What a match says about the first level.\<close>

lemma match_step:
  assumes "plain_filter cur" and "topic_matches_filter topic cur" and "hd cur \<noteq> c_hash"
  shows "topic \<noteq> []" and "hd cur \<noteq> c_plus \<Longrightarrow> take (segment_len cur) cur = take (segment_len topic) topic"
    and "next_segment cur = None \<Longrightarrow> next_segment topic = None"
    and "next_segment cur = Some r \<Longrightarrow> topic_matches_filter (seg_or_empty (next_segment topic)) r"
  using assms(2,3) plain_filterD(1) [OF assms(1)]
  by (subst (asm) topic_matches_filter.simps; auto split: if_splits option.splits)+

lemma collect_complete:
  assumes inv: "nodes_inv kids t" "subs_inv links t"
  shows "trie_path kids (tt_nodes t) cur n e \<Longrightarrow> plain_filter cur \<Longrightarrow> topic_matches_filter (seg_or_empty rest) cur
    \<Longrightarrow> n < tt_node_count t \<Longrightarrow> \<not> nd_is_wildcard_hash (tt_nodes t ! n) \<Longrightarrow> tt_node_count t - n \<le> fuel \<Longrightarrow> length out \<le> cap
    \<Longrightarrow> collect_matches fuel t topic cap (of_nat n) rest out = Some r \<Longrightarrow> length r < cap \<Longrightarrow> has_all t topic e r"
proof (induction arbitrary: rest fuel out r rule: trie_path.induct)
  case (path_last c n cur)
  obtain f where f: "fuel = Suc f" using path_last.prems(3,5) by (cases fuel) auto
  have c: "n < c" "c < tt_node_count t" "c < 65535" using nodes_inv_kids(2) [OF inv(1) path_last.prems(3) path_last(1)] by auto
  have uc: "unat (of_nat c :: u16) = c" using chain_head [OF c(3)] by simp
  obtain o1 o2 where o: "child_call f t topic cap rest (of_nat c) o1 = Some o2" "length o1 \<le> cap" "prefix o2 r"
    using collect_visits [OF inv path_last.prems(3) _ path_last.prems(6,4) path_last(1)] path_last.prems(5,7) f by blast
  have l2: "length o2 < cap" using o(3) path_last.prems(8) by (meson le_less_trans prefix_length_le)
  have fc: "tt_node_count t - c \<le> f" using c path_last.prems(5) f by simp
  note here = collect_here [OF inv c(2) fc o(2) _ _ l2, where topic = topic]
  have ed: "edge cur (tt_nodes t ! c)" by (rule path_last(2))
  have "has_all t topic c o2"
  proof (cases "hd cur = c_hash")
    case True
    with o(1) ed uc have "collect_matches f t topic cap (of_nat c) (Some []) o1 = Some o2"
      by (simp add: child_call_def edge_def)
    with True ed show ?thesis by (intro here) (simp_all add: edge_def)
  next
    case False
    note m = match_step [OF path_last.prems(1,2) False]
    obtain tp where rest: "rest = Some tp" using m(1) by (cases rest) (simp_all add: seg_or_empty_def)
    have "next_segment tp = None" using m(3) path_last(3) rest by (simp add: seg_or_empty_def)
    moreover have "hd cur \<noteq> c_plus \<Longrightarrow> nd_segment (tt_nodes t ! c) = take (segment_len tp) tp"
      using m(2) ed False rest by (simp add: edge_def seg_or_empty_def)
    ultimately have "\<exists>rs. (rs = None \<or> rs = Some []) \<and> collect_matches f t topic cap (of_nat c) rs o1 = Some o2"
      using o(1) ed uc False rest by (cases "hd cur = c_plus") (auto simp: child_call_def edge_def seg_or_empty_def)
    with ed show ?thesis by (auto simp: edge_def intro: here)
  qed
  then show ?case by (rule has_all_prefix [OF _ o(3)])
next
  case (path_step c n cur cur' e)
  obtain f where f: "fuel = Suc f" using path_step.prems(3,5) by (cases fuel) auto
  have c: "n < c" "c < tt_node_count t" "c < 65535" using nodes_inv_kids(2) [OF inv(1) path_step.prems(3) path_step(1)] by auto
  have uc: "unat (of_nat c :: u16) = c" using chain_head [OF c(3)] by simp
  obtain o1 o2 where o: "child_call f t topic cap rest (of_nat c) o1 = Some o2" "length o1 \<le> cap" "prefix o2 r"
    using collect_visits [OF inv path_step.prems(3) _ path_step.prems(6,4) path_step(1)] path_step.prems(5,7) f by blast
  have l2: "length o2 < cap" using o(3) path_step.prems(8) by (meson le_less_trans prefix_length_le)
  have fc: "tt_node_count t - c \<le> f" using c path_step.prems(5) f by simp
  have ed: "edge cur (tt_nodes t ! c)" by (rule path_step(2))
  have p: "plain_filter cur'" "hd cur \<noteq> c_hash" using plain_filterD(3) [OF path_step.prems(1) path_step(3)] by simp_all
  note m = match_step [OF path_step.prems(1,2) p(2)]
  obtain tp where rest: "rest = Some tp" using m(1) by (cases rest) (simp_all add: seg_or_empty_def)
  have tm: "topic_matches_filter (seg_or_empty (next_segment tp)) cur'" using m(4) [OF path_step(3)] rest by (simp add: seg_or_empty_def)
  have "hd cur \<noteq> c_plus \<Longrightarrow> nd_segment (tt_nodes t ! c) = take (segment_len tp) tp"
    using m(2) ed p(2) rest by (simp add: edge_def seg_or_empty_def)
  then have "collect_matches f t topic cap (of_nat c)
      (if hd cur = c_plus then Some (seg_or_empty (next_segment tp)) else next_segment tp) o1 = Some o2"
    using o(1) ed uc p(2) rest by (auto simp: child_call_def edge_def)
  moreover have "seg_or_empty (if b then Some (seg_or_empty x) else x) = seg_or_empty x" for b x by (simp add: seg_or_empty_def)
  ultimately have "\<exists>rs. seg_or_empty rs = seg_or_empty (next_segment tp) \<and> collect_matches f t topic cap (of_nat c) rs o1 = Some o2"
    by blast
  then obtain rs where rs: "seg_or_empty rs = seg_or_empty (next_segment tp)" "collect_matches f t topic cap (of_nat c) rs o1 = Some o2" by blast
  have "has_all t topic e o2"
    by (rule path_step.IH [OF p(1) _ c(2) _ fc o(2) rs(2) l2]) (use tm rs(1) ed p(2) in \<open>auto simp: edge_def\<close>)
  then show ?case by (rule has_all_prefix [OF _ o(3)])
qed

lemma match_exact:
  assumes wf: "trie_wf t"
  shows "\<exists>out. trie_match t topic cap = Some out \<and> length out \<le> cap
    \<and> (\<forall>x \<in> set out. \<exists>f. sub_table t (ts_session_id x, f) = Some (ts_max_qos x, ts_options_byte x) \<and> topic_matches_filter topic f)
    \<and> (topic_valid topic \<and> length out < cap \<longrightarrow>
        (\<forall>sid f q opts. sub_table t (sid, f) = Some (q, opts) \<and> plain_filter f \<and> topic_matches_filter topic f \<longrightarrow>
          (\<exists>x \<in> set out. ts_session_id x = sid \<and> ts_max_qos x = q \<and> ts_options_byte x = opts)))"
proof (cases "topic_valid topic")
  case False
  then show ?thesis by (auto simp: trie_match_def)
next
  case True
  obtain kids links where inv: "nodes_inv kids t" "subs_inv links t" "paths_inv kids t" and uq: "keys_unique (tt_subs t)"
    using wf by (auto simp: trie_wf_def trie_inv_def)
  have s: "tt_root t = of_nat 0" "0 < tt_node_count t" "tt_node_count t - 0 \<le> length (tt_nodes t) + 1" "\<not> nd_is_wildcard_hash (tt_nodes t ! 0)"
    using nodes_invD(1) [OF inv(1)] by (simp_all add: sizes_ok_def)
  from collect_appends [OF inv(1,2) s(2,3), of "[]" cap topic "Some topic"] obtain out where out:
    "collect_matches (length (tt_nodes t) + 1) t topic cap (of_nat 0) (Some topic) [] = Some out" "length out \<le> cap"
    "\<forall>x \<in> set out. reported t topic x" by (auto simp: appends_def list_all_iff)
  have sound: "\<exists>f. sub_table t (ts_session_id x, f) = Some (ts_max_qos x, ts_options_byte x) \<and> topic_matches_filter topic f"
    if x: "x \<in> set out" for x
  proof -
    obtain i where i: "i < length (tt_subs t)" "se_in_use (tt_subs t ! i)" "topic_matches_filter topic (se_filter (tt_subs t ! i))"
      "x = sub_out (tt_subs t ! i)" using out(3) x unfolding reported_def by (metis in_set_conv_nth)
    then have "sub_table t (ts_session_id x, se_filter (tt_subs t ! i)) = Some (ts_max_qos x, ts_options_byte x)"
      unfolding sub_table_Some [OF uq] by (intro exI [of _ i]) (simp add: key_is_def sub_out_def)
    with i(3) show ?thesis by blast
  qed
  have complete: "\<exists>x \<in> set out. ts_session_id x = sid \<and> ts_max_qos x = q \<and> ts_options_byte x = opts"
    if room: "length out < cap" and e: "sub_table t (sid, f) = Some (q, opts)" and f: "plain_filter f" "topic_matches_filter topic f" for sid f q opts
  proof -
    obtain i where i: "i < length (tt_subs t)" "key_is sid f (tt_subs t ! i)" "q = se_max_qos (tt_subs t ! i)" "opts = se_options_byte (tt_subs t ! i)"
      using e unfolding sub_table_Some [OF uq] by blast
    then have u: "se_in_use (tt_subs t ! i)" "se_session_id (tt_subs t ! i) = sid" "se_filter (tt_subs t ! i) = f" by (simp_all add: key_is_def)
    then have "trie_path kids (tt_nodes t) f 0 (unat (se_node_id (tt_subs t ! i)))"
      using inv(3) f(1) i(1) unfolding paths_inv_def by (metis nth_mem)
    from collect_complete [OF inv(1,2) this f(1) _ s(2,4,3) _ out(1) room] f(2)
    have "has_all t topic (unat (se_node_id (tt_subs t ! i))) out" by (simp add: seg_or_empty_def)
    then have "sub_out (tt_subs t ! i) \<in> set out" using i(1) u f(2) unfolding has_all_def by blast
    then show ?thesis using i u by (intro bexI [of _ "sub_out (tt_subs t ! i)"]) (simp_all add: sub_out_def)
  qed
  have "trie_match t topic cap = Some out" using True out(1) s(1) by (simp add: trie_match_def)
  with out(2) sound complete show ?thesis by blast
qed

section \<open>Properties\<close>

text \<open>The tries that the broker can build with filters as long as its parser admits.\<close>

inductive trie_reachable :: "nat \<Rightarrow> nat \<Rightarrow> TopicTrie \<Rightarrow> bool" for n m :: nat where
  reach_new: "trie_reachable n m (TopicTrie_new n m)"
| reach_subscribe: "trie_reachable n m t \<Longrightarrow> length flt \<le> 255 \<Longrightarrow> trie_subscribe flt sid q opts t = Some (r, t') \<Longrightarrow> trie_reachable n m t'"
| reach_unsubscribe: "trie_reachable n m t \<Longrightarrow> trie_unsubscribe flt sid t = (ok, t') \<Longrightarrow> trie_reachable n m t'"
| reach_unsubscribe_all: "trie_reachable n m t \<Longrightarrow> trie_reachable n m (unsubscribe_all sid t)"

lemma trie_reachable_wf:
  assumes "0 < n" "n \<le> 65535" "m \<le> 65535"
  shows "trie_reachable n m t \<Longrightarrow> trie_wf t"
proof (induction rule: trie_reachable.induct)
  case (reach_subscribe t flt sid q opts r t')
  with subscribe_table [OF reach_subscribe.IH reach_subscribe.hyps(2), of sid q opts] show ?case by auto
qed (use assms in \<open>auto simp: trie_new_wf unsubscribe_all_table unsubscribe_table\<close>)



text \<open>A small trie: session 7 has subscribed to \<open>a/+\<close>.\<close>

definition small_trie :: TopicTrie where
  "small_trie = snd (the (trie_subscribe (ascii ''a/+'') 7 1 0 (TopicTrie_new 4 2)))"

lemma small_trie_reachable: "trie_reachable 4 2 small_trie"
proof -
  have "trie_subscribe (ascii ''a/+'') 7 1 0 (TopicTrie_new 4 2) \<noteq> None" by code_simp
  then obtain r where "trie_subscribe (ascii ''a/+'') 7 1 0 (TopicTrie_new 4 2) = Some (r, small_trie)"
    by (auto simp: small_trie_def)
  moreover have "length (ascii ''a/+'') \<le> 255" by code_simp
  ultimately show ?thesis by (blast intro: trie_reachable.intros)
qed

lemma small_trie_table: "sub_table small_trie (7, ascii ''a/+'') = Some (1, 0)"
  by code_simp



text \<open>Why the restriction on empty levels is needed: the empty level of \<open>a//x\<close> finds the node of the
  wildcard in \<open>a/#\<close>, below which matching does not descend. The subscription is in the table, its filter
  equals the topic, and it is not reported.\<close>

definition empty_level_trie :: TopicTrie where
  "empty_level_trie = snd (the (trie_subscribe (ascii ''a//x'') 8 0 0 (snd (the (trie_subscribe (ascii ''a/#'') 7 0 0 (TopicTrie_new 6 3))))))"

theorem empty_level_lost:
  "sub_table empty_level_trie (8, ascii ''a//x'') = Some (0, 0) \<and> topic_matches_filter (ascii ''a//x'') (ascii ''a//x'')
   \<and> map_option (map ts_session_id) (trie_match empty_level_trie (ascii ''a//x'') 4) = Some [7]"
  by code_simp

end
